(* ===== verification/Angerona_Prelude.thy ===== *)
theory Angerona_Prelude
  imports Complex_Main "HOL-Library.Word" "HOL-Library.AList"
begin

text \<open>
  Shared vocabulary of the development: the collections of simplification facts, results of
  fallible operations, the state-machine locales that every stateful component instantiates,
  little-endian byte codecs, reads and writes of a fixed-size byte memory, Python dictionaries
  as association lists in insertion order, and the string operations the sources use.

  Conventions.  Python integers are \<open>int\<close>, or \<open>nat\<close> where the code has already
  established that they are not negative.  Clock readings and durations (Python floats) are
  rationals: every finite float is a rational, and comparisons agree; a sum or difference of two
  readings is the exact one.  Python strings are \<open>string\<close>, characters being the code
  points below 256.  A raised exception is \<open>Inl\<close> of a component's error type.
\<close>

named_theorems mem_simps "reads and writes of the byte memory"
named_theorems dict_simps "insertion-ordered dictionaries"

section \<open>State machines\<close>

text \<open>
  A component is a step function on its state.  The locales state what is proved once per step
  and give the fact for every run.
\<close>

locale machine =
  fixes step :: "'s \<Rightarrow> 'e \<Rightarrow> 's" and inv :: "'s \<Rightarrow> bool"
  assumes inv_step: "inv s \<Longrightarrow> inv (step s e)"
begin

lemma inv_run: "inv s \<Longrightarrow> inv (foldl step s es)"
  by (induction es arbitrary: s) (auto intro: inv_step)

lemma run_snoc: "foldl step s (es @ [e]) = step (foldl step s es) e"
  by simp

end

text \<open>
  Where a step depends on choices of the environment the component is a labelled relation;
  \<open>run\<close> is a sequence of steps and its labels.  A latch stays closed until a releasing label.
\<close>

inductive run :: "('s \<Rightarrow> 'l \<Rightarrow> 's \<Rightarrow> bool) \<Rightarrow> 's \<Rightarrow> 'l list \<Rightarrow> 's \<Rightarrow> bool" for step where
  run_nil: "run step s [] s"
| run_cons: "step s l s' \<Longrightarrow> run step s' ls s'' \<Longrightarrow> run step s (l # ls) s''"

inductive_simps run_Nil_iff [simp]: "run step s [] s'"
inductive_simps run_Cons_iff: "run step s (l # ls) s'"

locale transition_system =
  fixes step :: "'s \<Rightarrow> 'l \<Rightarrow> 's \<Rightarrow> bool" and inv :: "'s \<Rightarrow> bool"
  assumes inv_step: "inv s \<Longrightarrow> step s l s' \<Longrightarrow> inv s'"
begin

lemma inv_run: "run step s ls s' \<Longrightarrow> inv s \<Longrightarrow> inv s'"
  by (induction rule: run.induct) (auto intro: inv_step)

end

locale latched_system = transition_system step inv
  for step :: "'s \<Rightarrow> 'l \<Rightarrow> 's \<Rightarrow> bool" and inv +
  fixes latched :: "'s \<Rightarrow> bool" and release :: "'l \<Rightarrow> bool"
  assumes latch_step: "inv s \<Longrightarrow> latched s \<Longrightarrow> step s l s' \<Longrightarrow> \<not> release l \<Longrightarrow> latched s'"
begin

lemma latch_run:
  "run step s ls s' \<Longrightarrow> inv s \<Longrightarrow> latched s \<Longrightarrow> \<forall>l \<in> set ls. \<not> release l \<Longrightarrow> latched s'"
  by (induction rule: run.induct) (auto intro: inv_step latch_step)

end

section \<open>Bytes and little-endian fields\<close>

type_synonym byte = "8 word"
type_synonym bytes = "8 word list"

text \<open>\<open>le_enc n x\<close> is \<open>struct.pack\<close> of an unsigned little-endian field of \<open>n\<close> bytes.\<close>

fun le_enc :: "nat \<Rightarrow> nat \<Rightarrow> bytes" where
  "le_enc 0 x = []"
| "le_enc (Suc n) x = of_nat (x mod 256) # le_enc n (x div 256)"

fun le_dec :: "bytes \<Rightarrow> nat" where
  "le_dec [] = 0"
| "le_dec (b # bs) = unat b + 256 * le_dec bs"

lemma length_le_enc [simp]: "length (le_enc n x) = n"
  by (induction n arbitrary: x) auto

lemma le_dec_bound: "le_dec bs < 256 ^ length bs"
proof (induction bs)
  case Nil
  then show ?case by simp
next
  case (Cons b bs)
  have "unat b < 256"
    using unsigned_less [of b] by simp
  with Cons show ?case by simp
qed

lemma unat_of_nat_byte: "unat (of_nat (x mod 256) :: byte) = x mod 256"
  by (simp add: unat_of_nat)

lemma le_dec_enc [simp]: "x < 256 ^ n \<Longrightarrow> le_dec (le_enc n x) = x"
proof (induction n arbitrary: x)
  case 0
  then show ?case by simp
next
  case (Suc n)
  then have "x div 256 < 256 ^ n"
    by (simp add: less_mult_imp_div_less mult.commute)
  with Suc.IH show ?case
    by (simp add: unat_of_nat_byte)
qed

lemma le_enc_dec [simp]: "le_enc (length bs) (le_dec bs) = bs"
proof (induction bs)
  case Nil
  then show ?case by simp
next
  case (Cons b bs)
  have b: "unat b < 256"
    using unsigned_less [of b] by simp
  then have "(unat b + 256 * le_dec bs) mod 256 = unat b"
    and "(unat b + 256 * le_dec bs) div 256 = le_dec bs"
    by auto
  with Cons show ?case by simp
qed

lemma le_enc_dec_take: "length bs = n \<Longrightarrow> le_enc n (le_dec bs) = bs"
  by auto

section \<open>A byte memory\<close>

definition mem_read :: "bytes \<Rightarrow> nat \<Rightarrow> nat \<Rightarrow> bytes" where
  "mem_read m off n = take n (drop off m)"

definition mem_write :: "bytes \<Rightarrow> nat \<Rightarrow> bytes \<Rightarrow> bytes" where
  "mem_write m off bs = take off m @ bs @ drop (off + length bs) m"

lemma length_mem_write [simp]:
  "off + length bs \<le> length m \<Longrightarrow> length (mem_write m off bs) = length m"
  by (simp add: mem_write_def)

lemma length_mem_read [simp]: "off + n \<le> length m \<Longrightarrow> length (mem_read m off n) = n"
  by (simp add: mem_read_def)

lemma mem_read_write_same [mem_simps]:
  "off + length bs \<le> length m \<Longrightarrow> n = length bs \<Longrightarrow> mem_read (mem_write m off bs) off n = bs"
  by (simp add: mem_read_def mem_write_def)

lemma mem_read_write_before [mem_simps]:
  assumes "o' + n \<le> off" and "off + length bs \<le> length m"
  shows "mem_read (mem_write m off bs) o' n = mem_read m o' n"
proof -
  have "n \<le> off - o'" and "o' \<le> off" and "off \<le> length m"
    using assms by auto
  then show ?thesis
    by (simp add: mem_read_def mem_write_def drop_take min_absorb1 min_absorb2)
qed

lemma mem_read_write_after [mem_simps]:
  assumes "off + length bs \<le> o'" and "off + length bs \<le> length m"
  shows "mem_read (mem_write m off bs) o' n = mem_read m o' n"
proof -
  have "drop o' (take off m @ bs @ drop (off + length bs) m) = drop o' m"
    using assms by (simp add: min_def)
  then show ?thesis
    by (simp add: mem_read_def mem_write_def)
qed

lemma mem_read_write_disjoint:
  assumes "o' + n \<le> off \<or> off + length bs \<le> o'" and "off + length bs \<le> length m"
  shows "mem_read (mem_write m off bs) o' n = mem_read m o' n"
  using assms by (auto intro: mem_read_write_before mem_read_write_after)

text \<open>Unsigned little-endian fields of a memory: \<open>struct.unpack_from\<close> and \<open>struct.pack_into\<close>.\<close>

definition get_field :: "bytes \<Rightarrow> nat \<Rightarrow> nat \<Rightarrow> nat" where
  "get_field m off n = le_dec (mem_read m off n)"

definition put_field :: "bytes \<Rightarrow> nat \<Rightarrow> nat \<Rightarrow> nat \<Rightarrow> bytes" where
  "put_field m off n v = mem_write m off (le_enc n v)"

lemma length_put_field [simp]: "off + n \<le> length m \<Longrightarrow> length (put_field m off n v) = length m"
  by (simp add: put_field_def)

lemma get_put_same [mem_simps]:
  "off + n \<le> length m \<Longrightarrow> v < 256 ^ n \<Longrightarrow> get_field (put_field m off n v) off n = v"
  by (simp add: get_field_def put_field_def mem_read_write_same)

lemma mem_read_put [mem_simps]:
  "o' + k \<le> off \<or> off + n \<le> o' \<Longrightarrow> off + n \<le> length m \<Longrightarrow>
   mem_read (put_field m off n v) o' k = mem_read m o' k"
  by (simp add: put_field_def mem_read_write_disjoint)

lemma get_put_other [mem_simps]:
  "o' + k \<le> off \<or> off + n \<le> o' \<Longrightarrow> off + n \<le> length m \<Longrightarrow>
   get_field (put_field m off n v) o' k = get_field m o' k"
  by (simp add: get_field_def mem_read_put)

lemma get_field_write_other [mem_simps]:
  "o' + k \<le> off \<or> off + length bs \<le> o' \<Longrightarrow> off + length bs \<le> length m \<Longrightarrow>
   get_field (mem_write m off bs) o' k = get_field m o' k"
  by (simp add: get_field_def mem_read_write_disjoint)

lemma get_field_bound: "off + n \<le> length m \<Longrightarrow> get_field m off n < 256 ^ n"
  using le_dec_bound [of "mem_read m off n"] by (simp add: get_field_def)

section \<open>Operations that change a state and may raise\<close>

text \<open>
  An operation takes the state and returns the state it leaves behind together with its result
  or the exception: the state after a raise is the one at the raising statement.
\<close>

type_synonym ('s, 'e, 'a) oper = "'s \<Rightarrow> 's \<times> ('e + 'a)"

definition op_then :: "('s, 'e, 'a) oper \<Rightarrow> ('a \<Rightarrow> ('s, 'e, 'b) oper) \<Rightarrow> ('s, 'e, 'b) oper" where
  "op_then f g s = (case f s of (s', Inl e) \<Rightarrow> (s', Inl e) | (s', Inr a) \<Rightarrow> g a s')"

definition op_return :: "'a \<Rightarrow> ('s, 'e, 'a) oper" where
  "op_return a s = (s, Inr a)"

definition op_raise :: "'e \<Rightarrow> ('s, 'e, 'a) oper" where
  "op_raise e s = (s, Inl e)"

definition op_guard :: "bool \<Rightarrow> 'e \<Rightarrow> ('s, 'e, unit) oper" where
  "op_guard c e s = (s, if c then Inr () else Inl e)"

definition op_get :: "('s \<Rightarrow> 'a) \<Rightarrow> ('s, 'e, 'a) oper" where
  "op_get f s = (s, Inr (f s))"

lemma op_then_Inr [simp]: "f s = (s', Inr a) \<Longrightarrow> op_then f g s = g a s'"
  by (simp add: op_then_def)

lemma op_then_Inl [simp]: "f s = (s', Inl e) \<Longrightarrow> op_then f g s = (s', Inl e)"
  by (simp add: op_then_def)

lemma op_then_cases:
  "op_then f g s = (s', r) \<longleftrightarrow>
     (\<exists>e. f s = (s', Inl e) \<and> r = Inl e) \<or> (\<exists>s1 a. f s = (s1, Inr a) \<and> g a s1 = (s', r))"
  by (auto simp: op_then_def split: prod.splits sum.splits)

lemma op_then_Inr_iff:
  "op_then f g s = (s', Inr b) \<longleftrightarrow> (\<exists>s1 a. f s = (s1, Inr a) \<and> g a s1 = (s', Inr b))"
  by (auto simp: op_then_cases)

lemma op_return_simp [simp]: "op_return a s = (s, Inr a)"
  by (simp add: op_return_def)

lemma op_raise_simp [simp]: "op_raise e s = (s, Inl e)"
  by (simp add: op_raise_def)

text \<open>
  A relation every operation keeps between the state before and after it carries over to compositions.
\<close>

definition evolves :: "('s \<Rightarrow> 's \<Rightarrow> bool) \<Rightarrow> ('s, 'e, 'a) oper \<Rightarrow> bool" where
  "evolves R f \<longleftrightarrow> (\<forall>s. R s (fst (f s)))"

lemma evolvesD: "evolves R f \<Longrightarrow> R s (fst (f s))"
  by (simp add: evolves_def)

lemma evolvesI: "(\<And>s. R s (fst (f s))) \<Longrightarrow> evolves R f"
  by (simp add: evolves_def)

locale evolution =
  fixes R :: "'s \<Rightarrow> 's \<Rightarrow> bool"
  assumes refl: "R s s" and trans: "R s t \<Longrightarrow> R t u \<Longrightarrow> R s u"
begin

lemma then_evolves: "evolves R f \<Longrightarrow> (\<And>a. evolves R (g a)) \<Longrightarrow> evolves R (op_then f g)"
  unfolding evolves_def op_then_def by (auto split: prod.split sum.split) (metis fst_conv trans)+

lemma unchanged: "evolves R (op_guard c e)" "evolves R (op_get h)" "evolves R (op_return a)" "evolves R (op_raise e)"
  by (simp_all add: evolves_def op_guard_def op_get_def refl)

lemma step: "evolves R f \<Longrightarrow> f s = (s', r) \<Longrightarrow> R s s'"
  unfolding evolves_def by (metis fst_conv)

end

lemma op_guard_Inr [simp]: "op_guard c e s = (s', Inr u) \<longleftrightarrow> c \<and> s' = s"
  by (auto simp: op_guard_def)

lemma op_get_Inr [simp]: "op_get f s = (s', Inr a) \<longleftrightarrow> s' = s \<and> a = f s"
  by (auto simp: op_get_def)

section \<open>Dictionaries\<close>

text \<open>
  A Python dictionary keeps its keys in insertion order, and assigning to a present key keeps
  its place: exactly \<open>AList.update\<close> on an association list with distinct keys.
\<close>

type_synonym ('k, 'v) dict = "('k \<times> 'v) list"

abbreviation dict_get :: "('k, 'v) dict \<Rightarrow> 'k \<Rightarrow> 'v option" where
  "dict_get d k \<equiv> map_of d k"

abbreviation dict_set :: "'k \<Rightarrow> 'v \<Rightarrow> ('k, 'v) dict \<Rightarrow> ('k, 'v) dict" where
  "dict_set k v d \<equiv> AList.update k v d"

abbreviation dict_del :: "'k \<Rightarrow> ('k, 'v) dict \<Rightarrow> ('k, 'v) dict" where
  "dict_del k d \<equiv> AList.delete k d"

abbreviation dict_keys :: "('k, 'v) dict \<Rightarrow> 'k list" where
  "dict_keys d \<equiv> map fst d"

definition dict_wf :: "('k, 'v) dict \<Rightarrow> bool" where
  "dict_wf d \<longleftrightarrow> distinct (dict_keys d)"

lemma dict_wf_Nil [simp]: "dict_wf []"
  by (simp add: dict_wf_def)

lemma dict_wf_set [simp, intro]: "dict_wf d \<Longrightarrow> dict_wf (dict_set k v d)"
  by (simp add: dict_wf_def distinct_update)

lemma dict_wf_del [simp, intro]: "dict_wf d \<Longrightarrow> dict_wf (dict_del k d)"
  by (simp add: dict_wf_def distinct_delete)

lemma dict_get_set [dict_simps]: "dict_get (dict_set k v d) k' = (if k' = k then Some v else dict_get d k')"
  by (simp add: update_conv')

lemma dict_get_del [dict_simps]: "dict_get (dict_del k d) k' = (if k' = k then None else dict_get d k')"
  by (simp add: delete_conv')

lemma length_dict_set [dict_simps]:
  "length (dict_set k v d) = (if dict_get d k = None then Suc (length d) else length d)"
  by (induction d) auto

lemma length_dict_del_le: "length (dict_del k d) \<le> length d"
  by (rule length_delete_le)

lemma length_dict_del [dict_simps]:
  "dict_wf d \<Longrightarrow> dict_get d k \<noteq> None \<Longrightarrow> Suc (length (dict_del k d)) = length d"
proof (induction d)
  case Nil
  then show ?case by simp
next
  case (Cons p d)
  show ?case
  proof (cases "fst p = k")
    case True
    with Cons.prems have "k \<notin> set (dict_keys d)"
      by (auto simp: dict_wf_def)
    then have "dict_del k d = d"
      by (simp add: delete_id)
    with True show ?thesis
      by simp
  next
    case False
    with Cons show ?thesis
      by (auto simp: dict_wf_def)
  qed
qed

lemma dict_get_dom: "(\<exists>v. dict_get d k = Some v) \<longleftrightarrow> k \<in> fst ` set d"
  using map_of_eq_None_iff [of d k] by auto

lemma dict_get_keys: "dict_get d k \<noteq> None \<longleftrightarrow> k \<in> set (dict_keys d)"
  by (simp add: map_of_eq_None_iff)

lemma dict_keys_set [simp]: "fst ` set (dict_set k v d) = insert k (fst ` set d)"
  by (induction d) auto

lemma dict_get_in: "dict_get d k = Some v \<Longrightarrow> (k, v) \<in> set d"
  by (rule map_of_SomeD)

lemma dict_get_wf: "dict_wf d \<Longrightarrow> (k, v) \<in> set d \<Longrightarrow> dict_get d k = Some v"
  by (simp add: dict_wf_def)

section \<open>Bounded queues that give up their oldest entries\<close>

text \<open>
  The contract of a buffer of fixed capacity: pushing into a full one drops the oldest entry.
  \<open>room\<close> bounds the pushes its counters still allow, \<open>fits\<close> is the size check of an entry.
  Whatever is pushed, the buffer then holds the newest entries in order.
\<close>

definition newest :: "nat \<Rightarrow> 'a list \<Rightarrow> 'a list" where
  "newest n xs = drop (length xs - n) xs"

lemma newest_all [simp]: "length xs \<le> n \<Longrightarrow> newest n xs = xs"
  by (simp add: newest_def)

lemma length_newest [simp]: "length (newest n xs) = min n (length xs)"
  by (simp add: newest_def)

lemma newest_append: "newest n (newest n xs @ ys) = newest n (xs @ ys)"
  by (cases "length xs \<le> n") (simp_all add: newest_def add.commute)

locale bounded_fifo =
  fixes inv :: "'q \<Rightarrow> bool" and items :: "'q \<Rightarrow> 'a list" and cap :: "'q \<Rightarrow> nat"
    and room :: "'q \<Rightarrow> nat" and fits :: "'q \<Rightarrow> 'a \<Rightarrow> bool" and push :: "'q \<Rightarrow> 'a \<Rightarrow> 'q"
  assumes inv_push: "inv q \<Longrightarrow> fits q x \<Longrightarrow> 0 < room q \<Longrightarrow> inv (push q x)"
    and items_push: "inv q \<Longrightarrow> fits q x \<Longrightarrow> 0 < room q \<Longrightarrow>
      items (push q x) = (if length (items q) < cap q then items q else tl (items q)) @ [x]"
    and cap_push: "inv q \<Longrightarrow> fits q x \<Longrightarrow> 0 < room q \<Longrightarrow> cap (push q x) = cap q"
    and room_push: "inv q \<Longrightarrow> fits q x \<Longrightarrow> 0 < room q \<Longrightarrow> room q \<le> Suc (room (push q x))"
    and fits_push: "inv q \<Longrightarrow> fits q x \<Longrightarrow> 0 < room q \<Longrightarrow> fits (push q x) y = fits q y"
    and cap_pos: "inv q \<Longrightarrow> 0 < cap q"
    and items_cap: "inv q \<Longrightarrow> length (items q) \<le> cap q"
begin

lemma items_push_newest:
  assumes "inv q" and "fits q x" and "0 < room q"
  shows "items (push q x) = newest (cap q) (items q @ [x])"
proof (cases "length (items q) < cap q")
  case True
  then show ?thesis
    by (simp add: items_push [OF assms])
next
  case False
  with items_cap [OF assms(1)] have "length (items q) = cap q"
    by simp
  with False cap_pos [OF assms(1)] show ?thesis
    by (simp add: items_push [OF assms] newest_def drop_Suc)
qed

lemma items_pushes:
  assumes "inv q" and "\<forall>x \<in> set xs. fits q x" and "length xs \<le> room q"
  shows "inv (foldl push q xs) \<and> cap (foldl push q xs) = cap q
    \<and> items (foldl push q xs) = newest (cap q) (items q @ xs)"
  using assms
proof (induction xs arbitrary: q)
  case Nil
  then show ?case
    by (simp add: items_cap)
next
  case (Cons x xs)
  then have x: "fits q x" "0 < room q"
    by auto
  note laws = inv_push [OF Cons.prems(1) x] cap_push [OF Cons.prems(1) x] fits_push [OF Cons.prems(1) x]
    room_push [OF Cons.prems(1) x] items_push_newest [OF Cons.prems(1) x]
  have "length xs \<le> room (push q x)"
    using Cons.prems(3) laws(4) by simp
  with Cons.IH [OF laws(1)] Cons.prems(2) laws
  have "inv (foldl push q (x # xs)) \<and> cap (foldl push q (x # xs)) = cap q
      \<and> items (foldl push q (x # xs)) = newest (cap q) (newest (cap q) (items q @ [x]) @ xs)"
    by simp
  then show ?case
    by (simp add: newest_append)
qed

end

text \<open>A buffer that also counts what it gives up: nothing disappears unaccounted.\<close>

locale counting_fifo = bounded_fifo inv items cap room fits push
  for inv :: "'q \<Rightarrow> bool" and items :: "'q \<Rightarrow> 'a list" and cap and room and fits and push +
  fixes lost :: "'q \<Rightarrow> nat"
  assumes lost_push: "inv q \<Longrightarrow> fits q x \<Longrightarrow> 0 < room q \<Longrightarrow>
      lost (push q x) = (if length (items q) < cap q then lost q else Suc (lost q))"
begin

lemma conserved_push:
  assumes "inv q" and "fits q x" and "0 < room q"
  shows "lost (push q x) + length (items (push q x)) = Suc (lost q + length (items q))"
  using cap_pos [OF assms(1)] by (auto simp: lost_push [OF assms] items_push [OF assms])

lemma conserved_pushes:
  assumes "inv q" and "\<forall>x \<in> set xs. fits q x" and "length xs \<le> room q"
  shows "lost (foldl push q xs) + length (items (foldl push q xs)) = lost q + length (items q) + length xs"
  using assms
proof (induction xs arbitrary: q)
  case Nil
  then show ?case by simp
next
  case (Cons x xs)
  then have x: "fits q x" "0 < room q"
    by auto
  note laws = inv_push [OF Cons.prems(1) x] fits_push [OF Cons.prems(1) x]
    room_push [OF Cons.prems(1) x] conserved_push [OF Cons.prems(1) x]
  have "length xs \<le> room (push q x)"
    using Cons.prems(3) laws(3) by simp
  with Cons.IH [OF laws(1)] Cons.prems(2) laws show ?case by simp
qed

end

section \<open>Strings\<close>

text \<open>\<open>str.isspace\<close> on one character, for the code points below 256.\<close>

definition py_space :: "char \<Rightarrow> bool" where
  "py_space c \<longleftrightarrow> (let n = (of_char c :: nat) in 9 \<le> n \<and> n \<le> 13 \<or> 28 \<le> n \<and> n \<le> 32 \<or> n = 133 \<or> n = 160)"

definition py_strip :: "string \<Rightarrow> string" where
  "py_strip s = rev (dropWhile py_space (rev (dropWhile py_space s)))"

text \<open>\<open>str.casefold\<close> (and \<open>str.lower\<close>) on ASCII; letters beyond ASCII are left as they are.\<close>

definition lower_char :: "char \<Rightarrow> char" where
  "lower_char c = (let n = (of_char c :: nat) in if 65 \<le> n \<and> n \<le> 90 then char_of (n + 32) else c)"

definition py_casefold :: "string \<Rightarrow> string" where
  "py_casefold s = map lower_char s"

text \<open>\<open>str.split\<close> on one character, \<open>str.startswith\<close> and \<open>str.endswith\<close>.\<close>

fun split_on :: "char \<Rightarrow> string \<Rightarrow> string list" where
  "split_on d [] = [[]]"
| "split_on d (c # s) = (case split_on d s of
     [] \<Rightarrow> []
   | p # ps \<Rightarrow> if c = d then [] # p # ps else (c # p) # ps)"

definition ascii_only :: "string \<Rightarrow> bool" where
  "ascii_only s \<longleftrightarrow> list_all (\<lambda>c. (of_char c :: nat) < 128) s"

definition starts_with :: "string \<Rightarrow> string \<Rightarrow> bool" where
  "starts_with p s \<longleftrightarrow> take (length p) s = p"

definition ends_with :: "string \<Rightarrow> string \<Rightarrow> bool" where
  "ends_with p s \<longleftrightarrow> starts_with (rev p) (rev s)"

lemma dropWhile_head: "dropWhile P xs = y # ys \<Longrightarrow> \<not> P y"
  by (metis hd_dropWhile list.distinct(1) list.sel(1))

lemma py_strip_not_space:
  assumes "py_strip s \<noteq> []"
  shows "\<not> py_space (last (py_strip s))"
  using assms hd_dropWhile [of py_space "rev (dropWhile py_space s)"]
  by (simp add: py_strip_def last_rev)

section \<open>Python values\<close>

text \<open>
  The values a function sees whose argument is not typed by its caller: what \<open>json.loads\<close>
  returns, and the scalars of settings and records.  A float is a rational or one of the three
  special values; a dictionary keeps its items in insertion order.
\<close>

datatype pyfloat = Fin rat | PosInf | NegInf | Nan

datatype pyval =
  PNone
| PBool bool
| PInt int
| PFloat pyfloat
| PStr string
| PList "pyval list"
| PDict "(string \<times> pyval) list"

text \<open>\<open>float(n)\<close> of an integer raises \<open>OverflowError\<close> from this magnitude on.\<close>

definition float_overflow :: "int \<Rightarrow> bool" where
  "float_overflow n \<longleftrightarrow> 2 ^ 1024 - 2 ^ 970 \<le> \<bar>n\<bar>"

definition dict_get_or :: "('k, 'v) dict \<Rightarrow> 'k \<Rightarrow> 'v \<Rightarrow> 'v" where
  "dict_get_or d k v = (case dict_get d k of None \<Rightarrow> v | Some x \<Rightarrow> x)"

section \<open>Keeping the first occurrences\<close>

text \<open>\<open>dict.fromkeys\<close> on a sequence: the elements in order, later repetitions dropped.\<close>

definition first_seen :: "'a list \<Rightarrow> 'a list" where
  "first_seen xs = rev (remdups (rev xs))"

lemma set_first_seen [simp]: "set (first_seen xs) = set xs"
  by (simp add: first_seen_def)

lemma distinct_first_seen [simp]: "distinct (first_seen xs)"
  by (simp add: first_seen_def)

lemma first_seen_id [simp]: "distinct xs \<Longrightarrow> first_seen xs = xs"
  by (simp add: first_seen_def distinct_remdups_id)

end
