(* ===== verification/Sha256.thy ===== *)
theory Sha256
  imports Angerona_Prelude
begin

unbundle bit_operations_syntax

text \<open>
  The two functions of Python's \<^verbatim>\<open>hashlib\<close> and \<^verbatim>\<open>hmac\<close> modules that the sources
  authenticate their records with, SHA-256 (FIPS 180-4) and HMAC (RFC 2104), as executable
  functions on byte lists.  The facts the components need of them are the tag length and the
  interface of a keyed tag; no collision or unforgeability assumption is made anywhere.
\<close>

section \<open>SHA-256\<close>

type_synonym w32 = "32 word"

text \<open>
  The constants are computed from their definition: the first 32 bits of the fractional parts of
  the cube roots of the first 64 primes, and of the square roots of the first eight.
\<close>

fun root_bits :: "nat \<Rightarrow> int \<Rightarrow> nat \<Rightarrow> int \<Rightarrow> int" where
  "root_bits k n 0 acc = acc"
| "root_bits k n (Suc b) acc = root_bits k n b (if (acc + 2 ^ b) ^ k \<le> n then acc + 2 ^ b else acc)"

definition sha_primes :: "int list" where
  "sha_primes =
    [2, 3, 5, 7, 11, 13, 17, 19, 23, 29, 31, 37, 41, 43, 47, 53, 59, 61, 67, 71, 73, 79, 83, 89, 97,
     101, 103, 107, 109, 113, 127, 131, 137, 139, 149, 151, 157, 163, 167, 173, 179, 181, 191, 193,
     197, 199, 211, 223, 227, 229, 233, 239, 241, 251, 257, 263, 269, 271, 277, 281, 283, 293, 307,
     311]"

definition sha_k :: "w32 list" where
  "sha_k = map (\<lambda>p. of_int (root_bits 3 (p * 2 ^ 96) 36 0)) sha_primes"

definition sha_h0 :: "w32 list" where
  "sha_h0 = map (\<lambda>p. of_int (root_bits 2 (p * 2 ^ 64) 36 0)) (take 8 sha_primes)"

definition sha_ch :: "w32 \<Rightarrow> w32 \<Rightarrow> w32 \<Rightarrow> w32" where
  "sha_ch x y z = (x AND y) XOR (NOT x AND z)"

definition sha_maj :: "w32 \<Rightarrow> w32 \<Rightarrow> w32 \<Rightarrow> w32" where
  "sha_maj x y z = (x AND y) XOR (x AND z) XOR (y AND z)"

definition sha_big0 :: "w32 \<Rightarrow> w32" where
  "sha_big0 x = word_rotr 2 x XOR word_rotr 13 x XOR word_rotr 22 x"

definition sha_big1 :: "w32 \<Rightarrow> w32" where
  "sha_big1 x = word_rotr 6 x XOR word_rotr 11 x XOR word_rotr 25 x"

definition sha_small0 :: "w32 \<Rightarrow> w32" where
  "sha_small0 x = word_rotr 7 x XOR word_rotr 18 x XOR drop_bit 3 x"

definition sha_small1 :: "w32 \<Rightarrow> w32" where
  "sha_small1 x = word_rotr 17 x XOR word_rotr 19 x XOR drop_bit 10 x"

text \<open>The message schedule, newest word first: \<open>n\<close> further words from the last sixteen.\<close>

fun sha_schedule :: "nat \<Rightarrow> w32 list \<Rightarrow> w32 list" where
  "sha_schedule 0 ws = ws"
| "sha_schedule (Suc n) ws =
     sha_schedule n ((sha_small1 (ws ! 1) + ws ! 6 + sha_small0 (ws ! 14) + ws ! 15) # ws)"

datatype sha_state = ShaState w32 w32 w32 w32 w32 w32 w32 w32

fun sha_round :: "sha_state \<Rightarrow> w32 \<times> w32 \<Rightarrow> sha_state" where
  "sha_round (ShaState a b c d e f g h) (k, w) =
     (let t1 = h + sha_big1 e + sha_ch e f g + k + w; t2 = sha_big0 a + sha_maj a b c
      in ShaState (t1 + t2) a b c (d + t1) e f g)"

fun sha_add :: "sha_state \<Rightarrow> sha_state \<Rightarrow> sha_state" where
  "sha_add (ShaState a b c d e f g h) (ShaState a' b' c' d' e' f' g' h') =
     ShaState (a + a') (b + b') (c + c') (d + d') (e + e') (f + f') (g + g') (h + h')"

definition be_word :: "bytes \<Rightarrow> w32" where
  "be_word bs = foldl (\<lambda>w b. push_bit 8 w OR ucast b) 0 bs"

definition be_bytes :: "w32 \<Rightarrow> bytes" where
  "be_bytes w = [ucast (drop_bit 24 w), ucast (drop_bit 16 w), ucast (drop_bit 8 w), ucast w]"

definition block_words :: "bytes \<Rightarrow> w32 list" where
  "block_words bs = map (\<lambda>i. be_word (take 4 (drop (4 * i) bs))) [0..<16]"

definition sha_block :: "sha_state \<Rightarrow> bytes \<Rightarrow> sha_state" where
  "sha_block st bs = sha_add st (foldl sha_round st (zip sha_k (rev (sha_schedule 48 (rev (block_words bs))))))"

definition sha_pad :: "bytes \<Rightarrow> bytes" where
  "sha_pad m = m @ [0x80] @ replicate ((119 - length m mod 64) mod 64) 0 @ rev (le_enc 8 (8 * length m))"

definition sha_init :: sha_state where
  "sha_init = ShaState (sha_h0 ! 0) (sha_h0 ! 1) (sha_h0 ! 2) (sha_h0 ! 3)
     (sha_h0 ! 4) (sha_h0 ! 5) (sha_h0 ! 6) (sha_h0 ! 7)"

fun sha_output :: "sha_state \<Rightarrow> bytes" where
  "sha_output (ShaState a b c d e f g h) =
     concat (map be_bytes [a, b, c, d, e, f, g, h])"

definition sha256 :: "bytes \<Rightarrow> bytes" where
  "sha256 m = (let p = sha_pad m in sha_output
     (foldl (\<lambda>st i. sha_block st (take 64 (drop (64 * i) p))) sha_init [0..<length p div 64]))"

lemma length_sha_output [simp]: "length (sha_output st) = 32"
  by (cases st) (simp add: be_bytes_def)

lemma length_sha256 [simp]: "length (sha256 m) = 32"
  by (simp add: sha256_def Let_def)

section \<open>HMAC\<close>

definition hmac_key_block :: "bytes \<Rightarrow> bytes" where
  "hmac_key_block k = (let k' = if 64 < length k then sha256 k else k in k' @ replicate (64 - length k') 0)"

definition hmac_sha256 :: "bytes \<Rightarrow> bytes \<Rightarrow> bytes" where
  "hmac_sha256 k m = (let b = hmac_key_block k in
     sha256 (map (\<lambda>x. x XOR 0x5c) b @ sha256 (map (\<lambda>x. x XOR 0x36) b @ m)))"

lemma length_hmac_sha256 [simp]: "length (hmac_sha256 k m) = 32"
  by (simp add: hmac_sha256_def Let_def)

section \<open>Keyed tags\<close>

text \<open>
  The interface the record formats use: a tag of fixed length over a body.  A sealed record is
  the body followed by its tag; opening splits the tag off and compares.
\<close>

definition seal :: "(bytes \<Rightarrow> bytes) \<Rightarrow> bytes \<Rightarrow> bytes" where
  "seal tag body = body @ tag body"

definition unseal :: "(bytes \<Rightarrow> bytes) \<Rightarrow> nat \<Rightarrow> bytes \<Rightarrow> bytes option" where
  "unseal tag n rec =
     (if n \<le> length rec \<and> drop (length rec - n) rec = tag (take (length rec - n) rec)
      then Some (take (length rec - n) rec) else None)"

locale keyed_tag =
  fixes mac :: "bytes \<Rightarrow> bytes \<Rightarrow> bytes" and tag_size :: nat
  assumes length_mac: "length (mac k m) = tag_size"
begin

lemma unseal_seal: "unseal (mac k) tag_size (seal (mac k) body) = Some body"
  by (simp add: unseal_def seal_def length_mac)

lemma seal_unseal:
  assumes "unseal (mac k) tag_size rec = Some body"
  shows "rec = seal (mac k) body"
proof -
  have "drop (length rec - tag_size) rec = mac k body" and "take (length rec - tag_size) rec = body"
    using assms by (auto simp: unseal_def split: if_splits)
  then show ?thesis
    unfolding seal_def by (metis append_take_drop_id)
qed

lemma unseal_iff: "unseal (mac k) tag_size rec = Some body \<longleftrightarrow> rec = seal (mac k) body"
  using unseal_seal seal_unseal by blast

end

interpretation hmac: keyed_tag hmac_sha256 32
  by unfold_locales simp

end
