(* ===== verification/Ipc_Frame.thy ===== *)
theory Ipc_Frame
  imports Sha256
begin

text \<open>
  Authenticated telemetry frames, \<^verbatim>\<open>encode_frame\<close> and \<^verbatim>\<open>decode_frame\<close> of
  \<^verbatim>\<open>src/angerona/resilience/ipc_ring.py\<close>: a 12 byte header (schema, sensor, sequence), the
  payload and an HMAC-SHA256 tag over a fixed prefix, header and payload.  The codec lemmas say
  exactly which records are accepted.
\<close>

section \<open>Frames\<close>

datatype ring_error =
  FrameError string \<comment> \<open>an IPC frame, header or payload failed closed\<close>
| ValueError string
| StructError \<comment> \<open>\<open>struct.error\<close>: a value does not fit its field\<close>

record frame =
  f_schema :: int
  f_sensor :: int
  f_seq :: int
  f_payload :: bytes

abbreviation (input) RING_MAGIC :: nat where "RING_MAGIC \<equiv> 0x41524E47"
abbreviation (input) RING_VERSION :: nat where "RING_VERSION \<equiv> 2"
abbreviation (input) HDR_PAD :: nat where "HDR_PAD \<equiv> 64"
abbreviation (input) REC_HDR :: nat where "REC_HDR \<equiv> 12"
abbreviation (input) MAC_SIZE :: nat where "MAC_SIZE \<equiv> 32"
abbreviation (input) MIN_SLOT_COUNT :: nat where "MIN_SLOT_COUNT \<equiv> 2"
abbreviation (input) MAX_SLOT_COUNT :: nat where "MAX_SLOT_COUNT \<equiv> 65536"
abbreviation (input) MIN_SLOT_SIZE :: nat where "MIN_SLOT_SIZE \<equiv> 64"
abbreviation (input) MAX_SLOT_SIZE :: nat where "MAX_SLOT_SIZE \<equiv> 65536"
abbreviation (input) MAX_RING_BYTES :: nat where "MAX_RING_BYTES \<equiv> 64 * 1024 * 1024"
abbreviation (input) MAX_SEQ :: int where "MAX_SEQ \<equiv> 0xFFFFFFFFFFFFFFFF"

definition ascii :: "string \<Rightarrow> bytes" where
  "ascii s = map of_char s"

definition frame_aad :: bytes where
  "frame_aad = ascii ''Angerona-IPC-Ring-v2'' @ [0]"

definition frame_tag :: "bytes \<Rightarrow> bytes \<Rightarrow> bytes" where
  "frame_tag key body = hmac_sha256 key (frame_aad @ body)"

definition rec_header :: "nat \<Rightarrow> nat \<Rightarrow> nat \<Rightarrow> bytes" where
  "rec_header schema sensor sequence = le_enc 2 schema @ le_enc 2 sensor @ le_enc 8 sequence"

definition validated_key :: "bytes \<Rightarrow> ring_error + bytes" where
  "validated_key key =
     (if length key \<noteq> 32 then Inl (FrameError ''key'') else Inr key)"

definition encode_frame :: "bytes \<Rightarrow> bytes \<Rightarrow> int \<Rightarrow> int \<Rightarrow> int \<Rightarrow> ring_error + bytes" where
  "encode_frame key payload schema_ver sensor_id sequence =
     (case validated_key key of
        Inl e \<Rightarrow> Inl e
      | Inr authority \<Rightarrow>
          if schema_ver \<notin> {1} \<or> \<not> (0 \<le> sensor_id \<and> sensor_id \<le> 0xFFFF)
             \<or> \<not> (0 \<le> sequence \<and> sequence \<le> MAX_SEQ)
          then Inl (FrameError ''metadata'')
          else let header = rec_header (nat schema_ver) (nat sensor_id) (nat sequence);
                   tag = frame_tag authority (header @ payload)
               in Inr (header @ payload @ tag))"

definition decode_frame :: "bytes \<Rightarrow> bytes \<Rightarrow> int \<Rightarrow> ring_error + frame" where
  "decode_frame key rec expected_sequence =
     (case validated_key key of
        Inl e \<Rightarrow> Inl e
      | Inr authority \<Rightarrow>
          if \<not> (REC_HDR + MAC_SIZE \<le> length rec \<and> length rec \<le> MAX_SLOT_SIZE - 4)
             \<or> \<not> (0 \<le> expected_sequence \<and> expected_sequence \<le> MAX_SEQ)
          then Inl (FrameError ''length or expected sequence'')
          else
            let schema = int (get_field rec 0 2);
                sensor_id = int (get_field rec 2 2);
                sequence = int (get_field rec 4 8)
            in if schema \<notin> {1} then Inl (FrameError ''schema'')
               else if sequence \<noteq> expected_sequence then Inl (FrameError ''sequence'')
               else
                 let payload = take (length rec - MAC_SIZE - REC_HDR) (drop REC_HDR rec);
                     supplied = drop (length rec - MAC_SIZE) rec;
                     expected = frame_tag authority (take REC_HDR rec @ payload)
                 in if supplied \<noteq> expected then Inl (FrameError ''authentication'')
                    else Inr \<lparr>f_schema = schema, f_sensor = sensor_id, f_seq = sequence,
                              f_payload = payload\<rparr>)"

section \<open>Frame codec\<close>

interpretation frame: keyed_tag frame_tag MAC_SIZE
  by unfold_locales (simp add: frame_tag_def)

lemma length_frame_tag [simp]: "length (frame_tag k m) = MAC_SIZE"
  by (rule frame.length_mac)

lemma length_rec_header [simp]: "length (rec_header a b c) = REC_HDR"
  by (simp add: rec_header_def)

lemma encode_frame_Inr:
  "encode_frame key p sv sid sq = Inr rec \<longleftrightarrow>
     length key = 32 \<and> sv = 1 \<and> 0 \<le> sid \<and> sid \<le> 0xFFFF \<and> 0 \<le> sq \<and> sq \<le> MAX_SEQ
     \<and> rec = seal (frame_tag key) (rec_header (nat sv) (nat sid) (nat sq) @ p)"
  by (auto simp: encode_frame_def validated_key_def Let_def seal_def)

lemma length_encode_frame: "encode_frame key p sv sid sq = Inr rec \<Longrightarrow> length rec = REC_HDR + length p + MAC_SIZE"
  by (auto simp: encode_frame_Inr seal_def)

lemma get_field_append: "off + n \<le> length xs \<Longrightarrow> get_field (xs @ ys) off n = get_field xs off n"
  by (simp add: get_field_def mem_read_def)

lemma rec_header_fields [simp]:
  assumes "a < 65536" and "b < 65536" and "c < 2 ^ 64"
  shows "get_field (rec_header a b c) 0 2 = a" and "get_field (rec_header a b c) 2 2 = b"
    and "get_field (rec_header a b c) 4 8 = c"
  using assms by (simp_all add: rec_header_def get_field_def mem_read_def)

lemma rec_header_of_fields:
  assumes "length h = REC_HDR"
  shows "rec_header (get_field h 0 2) (get_field h 2 2) (get_field h 4 8) = h"
proof -
  have "h = take 2 h @ take 2 (drop 2 h) @ drop 2 (drop 2 h)"
    by (simp only: append_take_drop_id)
  moreover have "length (take 2 h) = 2" "length (take 2 (drop 2 h)) = 2" "length (drop 4 h) = 8"
    using assms by auto
  ultimately show ?thesis
    using assms by (simp add: rec_header_def get_field_def mem_read_def le_enc_dec_take)
qed

text \<open>What the reader accepts, in terms of the sealed record.\<close>

lemma decode_frame_Inr:
  "decode_frame key rec q = Inr f \<longleftrightarrow>
     length key = 32 \<and> 0 \<le> q \<and> q \<le> MAX_SEQ \<and> length rec \<le> MAX_SLOT_SIZE - 4
     \<and> f_schema f = 1 \<and> f_seq f = q \<and> 0 \<le> f_sensor f \<and> f_sensor f \<le> 0xFFFF
     \<and> rec = seal (frame_tag key)
               (rec_header (nat (f_schema f)) (nat (f_sensor f)) (nat (f_seq f)) @ f_payload f)"
  (is "?L \<longleftrightarrow> ?R")
proof
  assume L: ?L
  let ?h = "take REC_HDR rec" and ?n = "length rec - MAC_SIZE"
  let ?p = "take (?n - REC_HDR) (drop REC_HDR rec)"
  from L have len: "REC_HDR + MAC_SIZE \<le> length rec" "length rec \<le> MAX_SLOT_SIZE - 4"
    and basic: "length key = 32" "0 \<le> q" "q \<le> MAX_SEQ"
    and f: "f = \<lparr>f_schema = 1, f_sensor = int (get_field rec 2 2), f_seq = q, f_payload = ?p\<rparr>"
    and seq: "int (get_field rec 4 8) = q" and sch: "int (get_field rec 0 2) = 1"
    and tag: "drop ?n rec = frame_tag key (?h @ ?p)"
    by (auto simp: decode_frame_def validated_key_def Let_def split: if_splits)
  have split: "rec = ?h @ ?p @ drop ?n rec"
  proof -
    have "drop REC_HDR rec = ?p @ drop (?n - REC_HDR) (drop REC_HDR rec)"
      by (simp only: append_take_drop_id)
    moreover have "drop (?n - REC_HDR) (drop REC_HDR rec) = drop ?n rec"
      using len by simp
    ultimately show ?thesis
      by (metis append_take_drop_id)
  qed
  have fields: "get_field ?h 0 2 = get_field rec 0 2" "get_field ?h 2 2 = get_field rec 2 2"
      "get_field ?h 4 8 = get_field rec 4 8"
    by (simp_all add: get_field_def mem_read_def drop_take min_def)
  have "rec_header 1 (get_field rec 2 2) (nat q) = ?h"
    using rec_header_of_fields [of ?h] len seq sch unfolding fields by force
  moreover have "get_field rec 2 2 < 65536"
    using get_field_bound [of 2 2 rec] len by simp
  ultimately show ?R
    using basic len split tag by (auto simp: f seal_def)
next
  assume R: ?R
  let ?h = "rec_header 1 (nat (f_sensor f)) (nat q)"
  from R have rec: "rec = ?h @ f_payload f @ frame_tag key (?h @ f_payload f)"
    by (simp add: seal_def)
  have b: "nat (f_sensor f) < 65536" "nat q < 2 ^ 64"
    using R by auto
  have app: "get_field (?h @ x) 0 2 = 1" "get_field (?h @ x) 2 2 = nat (f_sensor f)"
      "get_field (?h @ x) 4 8 = nat q" for x
    using b by (simp_all add: get_field_append)
  have fields: "get_field rec 0 2 = 1" "get_field rec 2 2 = nat (f_sensor f)" "get_field rec 4 8 = nat q"
    by (subst rec, rule app)+
  have parts: "take (length rec - MAC_SIZE - REC_HDR) (drop REC_HDR rec) = f_payload f"
    "take REC_HDR rec = ?h" "drop (length rec - MAC_SIZE) rec = frame_tag key (?h @ f_payload f)"
    by (simp_all add: rec)
  have "REC_HDR + MAC_SIZE \<le> length rec"
    by (simp add: rec)
  moreover have "length key = 32" "0 \<le> q" "q \<le> MAX_SEQ" "length rec \<le> MAX_SLOT_SIZE - 4"
    using R by blast+
  moreover have "f = \<lparr>f_schema = 1, f_sensor = int (nat (f_sensor f)), f_seq = q, f_payload = f_payload f\<rparr>"
    using R by simp
  ultimately show ?L
    using b unfolding decode_frame_def Let_def fields parts
    by (simp add: validated_key_def)
qed

theorem decode_encode_frame:
  assumes "encode_frame key p sv sid sq = Inr rec" and "length rec \<le> MAX_SLOT_SIZE - 4"
  shows "decode_frame key rec sq = Inr \<lparr>f_schema = sv, f_sensor = sid, f_seq = sq, f_payload = p\<rparr>"
  using assms by (simp add: encode_frame_Inr decode_frame_Inr)

theorem decode_frame_authentic:
  assumes "decode_frame key rec q = Inr f"
  shows "f_seq f = q \<and> encode_frame key (f_payload f) (f_schema f) (f_sensor f) q = Inr rec"
  using assms by (auto simp: encode_frame_Inr decode_frame_Inr)

section \<open>Scanner payloads\<close>

text \<open>
  \<open>decode_sensor_payload\<close> after \<open>json.loads\<close>: \<open>value\<close> is the parsed document.  A JSON string
  never compares equal to a number, so the checks read as the code writes them; an integer
  timestamp beyond the float range raises \<open>OverflowError\<close>, and a status that is a list or an object
  raises \<open>TypeError\<close> (it cannot be looked up in a set); the function converts neither.
\<close>

datatype payload_error = PayloadError string | OverflowErr | TypeErr

record sensor_event =
  se_pid :: int
  se_ppid :: "int option"
  se_name :: string
  se_ts :: pyval
  se_exe :: string
  se_location_status :: string
  se_cmdline :: string
  se_command_line_status :: string
  se_parent_name :: string

definition legacy_fields :: "string set" where
  "legacy_fields = {''type'', ''pid'', ''ppid'', ''name'', ''ts''}"

definition enriched_fields :: "string set" where
  "enriched_fields = legacy_fields \<union>
     {''exe'', ''location_status'', ''cmdline'', ''command_line_status'', ''parent_name''}"

definition allowed_statuses :: "string set" where
  "allowed_statuses = {''resolved'', ''access_denied'', ''process_exited'', ''unavailable''}"

definition valid_pid :: "pyval \<Rightarrow> bool" where
  "valid_pid v \<longleftrightarrow> (case v of PInt n \<Rightarrow> 1 \<le> n \<and> n \<le> 0xFFFFFFFF | _ \<Rightarrow> False)"

definition valid_ppid :: "pyval \<Rightarrow> bool" where
  "valid_ppid v \<longleftrightarrow>
     (case v of PNone \<Rightarrow> True | PInt n \<Rightarrow> 0 \<le> n \<and> n \<le> 0xFFFFFFFF | _ \<Rightarrow> False)"

definition nul :: char where "nul = char_of (0 :: nat)"

definition valid_text :: "nat \<Rightarrow> pyval \<Rightarrow> bool" where
  "valid_text limit v \<longleftrightarrow> (case v of PStr s \<Rightarrow> length s \<le> limit \<and> nul \<notin> set s | _ \<Rightarrow> False)"

text \<open>The timestamp check: \<open>Inl\<close> when \<open>float(observed)\<close> raises, else whether it is accepted.\<close>

definition valid_ts :: "pyval \<Rightarrow> payload_error + bool" where
  "valid_ts v =
     (case v of
        PInt n \<Rightarrow> if float_overflow n then Inl OverflowErr else Inr (0 \<le> n)
      | PFloat (Fin x) \<Rightarrow> Inr (0 \<le> x)
      | _ \<Rightarrow> Inr False)"

definition valid_status :: "pyval \<Rightarrow> bool" where
  "valid_status v \<longleftrightarrow> (case v of PStr s \<Rightarrow> s \<in> allowed_statuses | _ \<Rightarrow> False)"

definition status_check :: "pyval \<Rightarrow> payload_error + bool" where
  "status_check v = (case v of PList _ \<Rightarrow> Inl TypeErr | PDict _ \<Rightarrow> Inl TypeErr | _ \<Rightarrow> Inr (valid_status v))"

fun str_of :: "pyval \<Rightarrow> string" where
  "str_of (PStr s) = s"
| "str_of _ = []"

fun int_of :: "pyval \<Rightarrow> int" where
  "int_of (PInt n) = n"
| "int_of _ = 0"

definition opt_int_of :: "pyval \<Rightarrow> int option" where
  "opt_int_of v = (case v of PInt n \<Rightarrow> Some n | _ \<Rightarrow> None)"

definition decode_sensor_value :: "int \<Rightarrow> pyval \<Rightarrow> payload_error + sensor_event" where
  "decode_sensor_value sensor_id value =
     (if sensor_id \<noteq> 1 then Inl (PayloadError ''sensor'') else
      case value of
        PDict d \<Rightarrow>
          (let get = (\<lambda>k. dict_get_or d k PNone);
               executable = dict_get_or d ''exe'' (PStr '''');
               command_line = dict_get_or d ''cmdline'' (PStr '''');
               parent_name = dict_get_or d ''parent_name'' (PStr '''');
               location = dict_get_or d ''location_status'' (PStr ''unavailable'');
               cl_status = dict_get_or d ''command_line_status'' (PStr ''unavailable'')
           in if set (dict_keys d) \<notin> {legacy_fields, enriched_fields} then Inl (PayloadError ''fields'')
              else if get ''type'' \<noteq> PStr ''process_creation'' then Inl (PayloadError ''type'')
              else if \<not> valid_pid (get ''pid'') \<or> \<not> valid_ppid (get ''ppid'') then Inl (PayloadError ''identifiers'')
              else if \<not> valid_text 512 (get ''name'') \<or> str_of (get ''name'') = [] then Inl (PayloadError ''name'')
              else case valid_ts (get ''ts'') of
                Inl e \<Rightarrow> Inl e
              | Inr ok \<Rightarrow>
                if \<not> ok then Inl (PayloadError ''timestamp'')
                else if \<not> valid_text 1024 executable then Inl (PayloadError ''executable path'')
                else if \<not> valid_text 1024 command_line then Inl (PayloadError ''command line'')
                else if \<not> valid_text 512 parent_name then Inl (PayloadError ''parent process name'')
                else case status_check location of Inl e \<Rightarrow> Inl e
                | Inr False \<Rightarrow> Inl (PayloadError ''status'')
                | Inr True \<Rightarrow>
                case status_check cl_status of Inl e \<Rightarrow> Inl e
                | Inr False \<Rightarrow> Inl (PayloadError ''status'')
                | Inr True \<Rightarrow> Inr \<lparr>se_pid = int_of (get ''pid''), se_ppid = opt_int_of (get ''ppid''),
                  se_name = str_of (get ''name''), se_ts = get ''ts'', se_exe = str_of executable,
                  se_location_status = str_of location, se_cmdline = str_of command_line,
                  se_command_line_status = str_of cl_status, se_parent_name = str_of parent_name\<rparr>)
      | _ \<Rightarrow> Inl (PayloadError ''fields''))"

text \<open>The document with all ten fields that describes an event.\<close>

definition event_document :: "sensor_event \<Rightarrow> pyval" where
  "event_document e = PDict
     [(''type'', PStr ''process_creation''), (''pid'', PInt (se_pid e)),
      (''ppid'', case se_ppid e of None \<Rightarrow> PNone | Some n \<Rightarrow> PInt n),
      (''name'', PStr (se_name e)), (''ts'', se_ts e), (''exe'', PStr (se_exe e)),
      (''location_status'', PStr (se_location_status e)), (''cmdline'', PStr (se_cmdline e)),
      (''command_line_status'', PStr (se_command_line_status e)),
      (''parent_name'', PStr (se_parent_name e))]"

definition event_ok :: "sensor_event \<Rightarrow> bool" where
  "event_ok e \<longleftrightarrow>
     1 \<le> se_pid e \<and> se_pid e \<le> 0xFFFFFFFF
     \<and> (case se_ppid e of None \<Rightarrow> True | Some n \<Rightarrow> 0 \<le> n \<and> n \<le> 0xFFFFFFFF)
     \<and> se_name e \<noteq> [] \<and> length (se_name e) \<le> 512 \<and> length (se_exe e) \<le> 1024
     \<and> length (se_cmdline e) \<le> 1024 \<and> length (se_parent_name e) \<le> 512
     \<and> nul \<notin> set (se_name e) \<union> set (se_exe e) \<union> set (se_cmdline e) \<union> set (se_parent_name e)
     \<and> {se_location_status e, se_command_line_status e} \<subseteq> allowed_statuses
     \<and> valid_ts (se_ts e) = Inr True"

lemma valid_text_str: "valid_text n v \<longleftrightarrow> (\<exists>s. v = PStr s \<and> length s \<le> n \<and> nul \<notin> set s)"
  by (auto simp: valid_text_def split: pyval.splits)

lemma valid_status_str: "valid_status v \<longleftrightarrow> (\<exists>s. v = PStr s \<and> s \<in> allowed_statuses)"
  by (auto simp: valid_status_def split: pyval.splits)

lemma status_check_True: "status_check v = Inr True \<longleftrightarrow> (\<exists>s. v = PStr s \<and> s \<in> allowed_statuses)"
  by (auto simp: status_check_def valid_status_def split: pyval.splits)

lemma valid_pid_int: "valid_pid v \<longleftrightarrow> (\<exists>n. v = PInt n \<and> 1 \<le> n \<and> n \<le> 0xFFFFFFFF)"
  by (auto simp: valid_pid_def split: pyval.splits)

lemma valid_ppid_cases: "valid_ppid v \<longleftrightarrow> v = PNone \<or> (\<exists>n. v = PInt n \<and> 0 \<le> n \<and> n \<le> 0xFFFFFFFF)"
  by (auto simp: valid_ppid_def split: pyval.splits)

text \<open>Every accepted payload is within its bounds.\<close>

lemma decode_sensor_value_ok:
  assumes "decode_sensor_value sid v = Inr e"
  shows "sid = 1 \<and> event_ok e"
proof (cases v)
  case (PDict d)
  with assms show ?thesis
    by (clarsimp simp: decode_sensor_value_def Let_def valid_text_str status_check_True valid_pid_int
        valid_ppid_cases split: if_splits sum.splits bool.splits)
      (auto simp: event_ok_def opt_int_of_def)
qed (use assms in \<open>auto simp: decode_sensor_value_def split: if_splits\<close>)

text \<open>Every event within the bounds is accepted as the document that describes it, unchanged.\<close>

lemma decode_event_document:
  assumes "event_ok e"
  shows "decode_sensor_value 1 (event_document e) = Inr e"
  using assms
  by (cases e) (auto simp: decode_sensor_value_def event_document_def event_ok_def Let_def
      dict_get_or_def enriched_fields_def legacy_fields_def valid_text_str status_check_def valid_status_def
      valid_pid_int valid_ppid_cases opt_int_of_def insert_commute split: option.splits)

section \<open>Properties\<close>

text \<open>
  An accepted scanner payload is within every bound (identifiers, lengths, no NUL, known
  statuses, a finite timestamp), and conversely every event within the bounds is accepted from
  the document that describes it and returned unchanged.
\<close>

theorem sensor_payload_bounds_roundtrip:
  "(\<forall>sid v e. decode_sensor_value sid v = Inr e \<longrightarrow> sid = 1 \<and> event_ok e)
   \<and> (\<forall>e. event_ok e \<longrightarrow> decode_sensor_value 1 (event_document e) = Inr e)"
  using decode_sensor_value_ok decode_event_document by blast

theorem sensor_payload_bounds_roundtrip_witness:
  "let e = \<lparr>se_pid = 4, se_ppid = None, se_name = ''init'', se_ts = PInt 5, se_exe = '''',
       se_location_status = ''unavailable'', se_cmdline = '''', se_command_line_status = ''resolved'',
       se_parent_name = ''''\<rparr>
   in event_ok e \<and> decode_sensor_value 1 (event_document e) = Inr e"
proof -
  let ?e = "\<lparr>se_pid = 4, se_ppid = None, se_name = ''init'', se_ts = PInt 5, se_exe = '''',
       se_location_status = ''unavailable'', se_cmdline = '''', se_command_line_status = ''resolved'',
       se_parent_name = ''''\<rparr>"
  have "event_ok ?e"
    by (simp add: event_ok_def valid_ts_def float_overflow_def allowed_statuses_def nul_def char_of_def)
  with sensor_payload_bounds_roundtrip show ?thesis
    unfolding Let_def by blast
qed

text \<open>The exception the function lets through: a document whose timestamp no float can hold.\<close>

lemma huge_timestamp_overflows:
  "decode_sensor_value 1 (PDict [(''type'', PStr ''process_creation''), (''pid'', PInt 4), (''ppid'', PNone),
     (''name'', PStr ''init''), (''ts'', PInt (2 ^ 1024))]) = Inl OverflowErr"
proof -
  have "nul \<notin> set ''init''"
    by (simp add: nul_def char_of_def)
  moreover have "float_overflow (2 ^ 1024)"
    by (simp add: float_overflow_def)
  ultimately show ?thesis
    by (simp add: decode_sensor_value_def Let_def dict_get_or_def legacy_fields_def valid_pid_def valid_ppid_def
        valid_text_def valid_ts_def insert_commute del: power_numeral)
qed

end
