(* ===== verification/Ipc_Ring.thy ===== *)
theory Ipc_Ring
  imports Ipc_Frame
begin

text \<open>
  The shared-memory telemetry ring between scanner and core,
  \<^verbatim>\<open>src/angerona/resilience/ipc_ring.py\<close>: the byte layout of the
  mapped file (a 64 byte header and \<open>slot_count\<close> slots of \<open>slot_size\<close> bytes), the single
  producer \<open>RingWriter\<close> and the single consumer \<open>RingReader\<close>.  The memory is a byte list
  and every header field and slot is read and written at its offset, as the code does.  Here a call
  of either side is one step, on a memory that nothing else changes meanwhile; \<open>Ipc_Interleaving\<close>
  splits the calls into their accesses.
\<close>

section \<open>The mapped file\<close>

record ring =
  mem :: bytes
  slot_count :: nat
  slot_size :: nat
  ring_key :: bytes

record ring_header =
  h_magic :: nat
  h_version :: nat
  h_slots :: nat
  h_size :: nat
  h_write :: nat
  h_read :: nat
  h_drops :: nat
  h_bp :: nat

definition validate_layout :: "int \<Rightarrow> int \<Rightarrow> ring_error + nat \<times> nat" where
  "validate_layout slots sz =
     (if \<not> (int MIN_SLOT_COUNT \<le> slots \<and> slots \<le> int MAX_SLOT_COUNT)
         \<or> \<not> (int MIN_SLOT_SIZE \<le> sz \<and> sz \<le> int MAX_SLOT_SIZE)
         \<or> int HDR_PAD + slots * sz > int MAX_RING_BYTES
      then Inl (ValueError ''layout'') else Inr (nat slots, nat sz))"

definition total_size :: "nat \<Rightarrow> nat \<Rightarrow> nat" where
  "total_size slots sz = HDR_PAD + slots * sz"

definition header_bytes :: "nat \<Rightarrow> nat \<Rightarrow> bytes" where
  "header_bytes slots sz =
     le_enc 4 RING_MAGIC @ le_enc 4 RING_VERSION @ le_enc 4 slots @ le_enc 4 sz
     @ le_enc 8 0 @ le_enc 8 0 @ le_enc 8 0 @ le_enc 4 0"

definition init_header :: "ring \<Rightarrow> ring" where
  "init_header r =
     (let header = header_bytes (slot_count r) (slot_size r)
      in r\<lparr>mem := mem_write (mem r) 0 (header @ replicate (HDR_PAD - length header) 0)\<rparr>)"

definition read_header :: "ring \<Rightarrow> ring_header" where
  "read_header r =
     \<lparr>h_magic = get_field (mem r) 0 4, h_version = get_field (mem r) 4 4,
      h_slots = get_field (mem r) 8 4, h_size = get_field (mem r) 12 4,
      h_write = get_field (mem r) 16 8, h_read = get_field (mem r) 24 8,
      h_drops = get_field (mem r) 32 8, h_bp = get_field (mem r) 40 4\<rparr>"

text \<open>
  \<open>attach\<close> is the part of \<open>_RingBase.__init__\<close> after the file is open: \<open>contents\<close> is
  what an existing file holds, \<open>None\<close> when this call created it.  A new, short or forced file is
  resized to the layout (\<open>ftruncate\<close> pads with zero bytes); the map shows its first bytes; a
  header of another layout is written anew.
\<close>

definition attach :: "bool \<Rightarrow> bytes option \<Rightarrow> int \<Rightarrow> int \<Rightarrow> bytes \<Rightarrow> ring_error + ring" where
  "attach create contents slots sz key =
     (case validate_layout slots sz of
        Inl e \<Rightarrow> Inl e
      | Inr (sc, ss) \<Rightarrow>
        (case validated_key key of
           Inl e \<Rightarrow> Inl e
         | Inr k \<Rightarrow>
           let total = total_size sc ss;
               created = (contents = None);
               old = (case contents of None \<Rightarrow> [] | Some bs \<Rightarrow> bs);
               reset = (create \<or> created \<or> length old < total);
               file = (if reset then take total old @ replicate (total - length old) 0 else old);
               r = \<lparr>mem = take total file, slot_count = sc, slot_size = ss, ring_key = k\<rparr>;
               h = read_header r
           in Inr (if reset \<or> h_magic h \<noteq> RING_MAGIC \<or> h_version h \<noteq> RING_VERSION
                      \<or> h_slots h \<noteq> sc \<or> h_size h \<noteq> ss
                   then init_header r else r)))"

definition write_field :: "nat \<Rightarrow> nat \<Rightarrow> nat \<Rightarrow> (ring, ring_error, unit) oper" where
  "write_field off n v r =
     (if v < 256 ^ n then (r\<lparr>mem := put_field (mem r) off n v\<rparr>, Inr ()) else (r, Inl StructError))"

definition write_seq :: "ring \<Rightarrow> nat" where "write_seq r = h_write (read_header r)"
definition read_seq :: "ring \<Rightarrow> nat" where "read_seq r = h_read (read_header r)"
definition drops :: "ring \<Rightarrow> nat" where "drops r = h_drops (read_header r)"

definition occupancy :: "ring \<Rightarrow> int" where
  "occupancy r = max 0 (int (write_seq r) - int (read_seq r))"

definition slot_off :: "ring \<Rightarrow> nat \<Rightarrow> nat" where
  "slot_off r q = HDR_PAD + (q mod slot_count r) * slot_size r"

section \<open>Producer\<close>

definition advance_read :: "nat \<Rightarrow> (ring, ring_error, unit) oper" where
  "advance_read new_read = write_field 24 8 new_read"

definition bump_drops :: "(ring, ring_error, unit) oper" where
  "bump_drops r = write_field 32 8 (drops r + 1) r"

definition set_backpressure :: "bool \<Rightarrow> (ring, ring_error, unit) oper" where
  "set_backpressure on = write_field 40 4 (if on then 1 else 0)"

text \<open>
  The comparison \<open>occupancy / slot_count >= 0.85\<close>, on the exact quotient: with at most 65536
  slots no quotient is closer to 0.85 than a float tells apart.
\<close>

definition over_pressure :: "int \<Rightarrow> nat \<Rightarrow> bool" where
  "over_pressure occ slots \<longleftrightarrow> (85 / 100 :: rat) \<le> of_int occ / of_nat slots"

definition store_slot :: "nat \<Rightarrow> bytes \<Rightarrow> ring \<Rightarrow> ring" where
  "store_slot off rec r =
     r\<lparr>mem := mem_write (put_field (mem r) off 4 (length rec)) (off + 4) rec\<rparr>"

definition ring_write :: "bytes \<Rightarrow> int \<Rightarrow> int \<Rightarrow> (ring, ring_error, bool) oper" where
  "ring_write payload schema_ver sensor_id r =
     (let w = write_seq r in
      case encode_frame (ring_key r) payload schema_ver sensor_id (int w) of
        Inl e \<Rightarrow> (r, Inl e)
      | Inr rec \<Rightarrow>
        if length rec + 4 > slot_size r
        then op_then bump_drops (\<lambda>_. op_return False) r
        else
          op_then
            (if int w - int (read_seq r) \<ge> int (slot_count r)
             then op_then (advance_read (w - slot_count r + 1)) (\<lambda>_. bump_drops)
             else op_return ())
            (\<lambda>_ r1. op_then (write_field 16 8 (w + 1))
              (\<lambda>_ r2. op_then (set_backpressure (over_pressure (occupancy r2) (slot_count r2)))
                (\<lambda>_. op_return True) r2)
              (store_slot (slot_off r1 w) rec r1))
            r)"

definition header_ok :: "ring \<Rightarrow> bool" where
  "header_ok r \<longleftrightarrow>
     (let h = read_header r in
      h_magic h = RING_MAGIC \<and> h_version h = RING_VERSION \<and> h_slots h = slot_count r
      \<and> h_size h = slot_size r \<and> \<not> h_write h < h_read h)"

definition backpressure :: "(ring, ring_error, bool) oper" where
  "backpressure r =
     (if \<not> header_ok r then (r, Inl (FrameError ''header''))
      else let on = over_pressure (int (write_seq r) - int (read_seq r)) (slot_count r)
           in op_then (set_backpressure on) (\<lambda>_. op_return on) r)"

section \<open>Consumer\<close>

text \<open>One iteration of the reader's loop: the frame in the slot of sequence \<open>q\<close>, if it is authentic.\<close>

definition slot_decode :: "ring \<Rightarrow> nat \<Rightarrow> frame option" where
  "slot_decode r q =
     (let off = slot_off r q; rec_len = get_field (mem r) off 4 in
      if rec_len < REC_HDR + MAC_SIZE \<or> int rec_len > int (slot_size r) - 4 then None
      else case decode_frame (ring_key r) (mem_read (mem r) (off + 4) rec_len) (int q) of
             Inl _ \<Rightarrow> None
           | Inr f \<Rightarrow> Some f)"

text \<open>
  The loop, on the frames still allowed, the position, the pending \<open>missed\<close> count, the frames
  so far and the failure counter.
\<close>

fun scan :: "ring \<Rightarrow> nat \<Rightarrow> nat \<Rightarrow> nat \<Rightarrow> int \<Rightarrow> (frame \<times> int) list \<Rightarrow> nat
             \<Rightarrow> nat \<times> (frame \<times> int) list \<times> nat" where
  "scan r 0 w q missed out fails = (q, out, fails)"
| "scan r (Suc n) w q missed out fails =
     (if q < w
      then case slot_decode r q of
             None \<Rightarrow> scan r n w (q + 1) missed out (fails + 1)
           | Some f \<Rightarrow> scan r n w (q + 1) missed (out @ [(f, if out = [] then missed else 0)]) fails
      else (q, out, fails))"

record reader =
  shared :: ring
  auth_failures :: nat

definition read_batch :: "int \<Rightarrow> (reader, ring_error, (frame \<times> int) list) oper" where
  "read_batch max_frames s =
     (if \<not> (1 \<le> max_frames \<and> max_frames \<le> int MAX_SLOT_COUNT) then (s, Inl (ValueError ''batch''))
      else
        let r = shared s; budget = min (nat max_frames) (slot_count r) in
        if \<not> header_ok r
        then (s\<lparr>auth_failures := auth_failures s + 1\<rparr>, Inl (FrameError ''header''))
        else
          let w = write_seq r; q = read_seq r;
              lapped = (int w - int q > int (slot_count r));
              missed = (if lapped then int w - int (slot_count r) - int q else 0);
              q0 = (if lapped then w - slot_count r else q)
          in case scan r budget w q0 missed [] (auth_failures s) of
               (q', out, fails) \<Rightarrow>
                 (case write_field 24 8 q' r of
                    (r', Inl e) \<Rightarrow> (s\<lparr>shared := r', auth_failures := fails\<rparr>, Inl e)
                  | (r', Inr _) \<Rightarrow> (s\<lparr>shared := r', auth_failures := fails\<rparr>, Inr out)))"

section \<open>Layout of the memory\<close>

text \<open>The shape \<open>attach\<close> establishes and no operation changes.\<close>

definition ring_shape :: "ring \<Rightarrow> bool" where
  "ring_shape r \<longleftrightarrow>
     MIN_SLOT_COUNT \<le> slot_count r \<and> slot_count r \<le> MAX_SLOT_COUNT
     \<and> MIN_SLOT_SIZE \<le> slot_size r \<and> slot_size r \<le> MAX_SLOT_SIZE
     \<and> length (mem r) = total_size (slot_count r) (slot_size r) \<and> length (ring_key r) = 32"

lemma shape_header: "ring_shape r \<Longrightarrow> 64 \<le> length (mem r)"
  by (simp add: ring_shape_def total_size_def)

lemma slot_off_ge: "64 \<le> slot_off r q"
  by (simp add: slot_off_def)

lemma slot_off_fits:
  assumes "ring_shape r"
  shows "slot_off r q + slot_size r \<le> length (mem r)"
proof -
  have "q mod slot_count r < slot_count r"
    using assms by (simp add: ring_shape_def)
  then have "Suc (q mod slot_count r) * slot_size r \<le> slot_count r * slot_size r"
    by (intro mult_le_mono1) simp
  then show ?thesis
    using assms by (simp add: slot_off_def ring_shape_def total_size_def)
qed

lemma slot_off_disjoint:
  assumes "p mod slot_count r \<noteq> q mod slot_count r"
  shows "slot_off r p + slot_size r \<le> slot_off r q \<or> slot_off r q + slot_size r \<le> slot_off r p"
proof -
  have step: "Suc a * s \<le> b * s" if "a < b" for a b s :: nat
    using that by (intro mult_le_mono1) simp
  from assms consider "p mod slot_count r < q mod slot_count r" | "q mod slot_count r < p mod slot_count r"
    by linarith
  then show ?thesis
    by cases (auto dest!: step [where s = "slot_size r"] simp: slot_off_def)
qed

lemma mod_neq_within:
  fixes p q n :: nat
  assumes "p < q" and "q < p + n"
  shows "p mod n \<noteq> q mod n"
proof
  assume "p mod n = q mod n"
  then have "n dvd q - p"
    using assms(1) by (metis mod_eq_dvd_iff_nat less_imp_le)
  then show False
    using assms by (auto dest: dvd_imp_le)
qed

definition with_field :: "nat \<Rightarrow> nat \<Rightarrow> nat \<Rightarrow> ring \<Rightarrow> ring" where
  "with_field off n v r = r\<lparr>mem := put_field (mem r) off n v\<rparr>"

lemma write_field_ok: "v < 256 ^ n \<Longrightarrow> write_field off n v r = (with_field off n v r, Inr ())"
  by (simp add: write_field_def with_field_def)

lemma with_field_simps [simp]:
  "slot_count (with_field off n v r) = slot_count r" "slot_size (with_field off n v r) = slot_size r"
  "ring_key (with_field off n v r) = ring_key r" "slot_off (with_field off n v r) q = slot_off r q"
  by (simp_all add: with_field_def slot_off_def)

lemma store_slot_simps [simp]:
  "slot_count (store_slot off rec r) = slot_count r" "slot_size (store_slot off rec r) = slot_size r"
  "ring_key (store_slot off rec r) = ring_key r" "slot_off (store_slot off rec r) q = slot_off r q"
  by (simp_all add: store_slot_def slot_off_def)

lemma ring_shape_with_field [simp]:
  "ring_shape r \<Longrightarrow> off + n \<le> 64 \<Longrightarrow> ring_shape (with_field off n v r)"
  using shape_header [of r] by (simp add: ring_shape_def with_field_def)

lemma ring_shape_store_slot [simp]:
  "ring_shape r \<Longrightarrow> length rec + 4 \<le> slot_size r \<Longrightarrow> ring_shape (store_slot (slot_off r q) rec r)"
  using slot_off_fits [of r q] by (simp add: ring_shape_def store_slot_def)

text \<open>The header after each of the four field writes, and after a slot is stored.\<close>

lemma read_header_with_field:
  assumes "ring_shape r"
  shows "v < 256 ^ 8 \<Longrightarrow> read_header (with_field 16 8 v r) = (read_header r)\<lparr>h_write := v\<rparr>"
    and "v < 256 ^ 8 \<Longrightarrow> read_header (with_field 24 8 v r) = (read_header r)\<lparr>h_read := v\<rparr>"
    and "v < 256 ^ 8 \<Longrightarrow> read_header (with_field 32 8 v r) = (read_header r)\<lparr>h_drops := v\<rparr>"
    and "v < 256 ^ 4 \<Longrightarrow> read_header (with_field 40 4 v r) = (read_header r)\<lparr>h_bp := v\<rparr>"
  using shape_header [OF assms] by (simp_all add: read_header_def with_field_def mem_simps)

lemma read_header_store_slot:
  assumes "ring_shape r" and "length rec + 4 \<le> slot_size r"
  shows "read_header (store_slot (slot_off r q) rec r) = read_header r"
proof -
  have "slot_off r q + 4 + length rec \<le> length (mem r)" and "64 \<le> slot_off r q"
    using assms slot_off_fits [of r q] slot_off_ge [of r q] by linarith+
  then show ?thesis
    by (simp add: read_header_def store_slot_def mem_simps)
qed

lemma mem_read_with_field:
  "ring_shape r \<Longrightarrow> off + n \<le> 64 \<Longrightarrow> 64 \<le> o' \<Longrightarrow> mem_read (mem (with_field off n v r)) o' k = mem_read (mem r) o' k"
  using shape_header [of r] by (simp add: with_field_def mem_simps)

lemma slot_decode_with_field [simp]:
  assumes "ring_shape r" and "off + n \<le> 64"
  shows "slot_decode (with_field off n v r) q = slot_decode r q"
  using assms slot_off_ge [of r q]
  by (simp add: slot_decode_def Let_def get_field_def mem_read_with_field)

lemma slot_decode_store_other:
  assumes "ring_shape r" and "length rec + 4 \<le> slot_size r" and "p mod slot_count r \<noteq> q mod slot_count r"
  shows "slot_decode (store_slot (slot_off r q) rec r) p = slot_decode r p"
proof -
  let ?o = "slot_off r p" and ?o' = "slot_off r q"
  let ?m = "mem r" and ?m' = "mem (store_slot ?o' rec r)"
  have fits: "?o' + slot_size r \<le> length ?m" "?o + slot_size r \<le> ?o' \<or> ?o' + slot_size r \<le> ?o"
    using slot_off_fits [OF assms(1)] slot_off_disjoint [OF assms(3)] by blast+
  have same: "mem_read ?m' o' k = mem_read ?m o' k" if "?o \<le> o'" "o' + k \<le> ?o + slot_size r" for o' k
    using fits that assms(2) by (auto simp: store_slot_def mem_read_write_disjoint mem_read_put)
  have "4 \<le> slot_size r"
    using assms(2) by simp
  then have "get_field ?m' ?o 4 = get_field ?m ?o 4"
    by (simp add: get_field_def same)
  then show ?thesis
    using same by (auto simp: slot_decode_def Let_def)
qed

lemma slot_decode_store_same:
  assumes "ring_shape r" and "length rec + 4 \<le> slot_size r"
    and "REC_HDR + MAC_SIZE \<le> length rec" and "decode_frame (ring_key r) rec (int q) = Inr f"
  shows "slot_decode (store_slot (slot_off r q) rec r) q = Some f"
proof -
  let ?o = "slot_off r q"
  let ?m' = "mem (store_slot ?o rec r)"
  have fits: "?o + slot_size r \<le> length (mem r)"
    by (rule slot_off_fits [OF assms(1)])
  have "length rec < 256 ^ 4"
    using assms(1,2) by (simp add: ring_shape_def)
  then have "get_field ?m' ?o 4 = length rec"
    using fits assms(2) by (simp add: store_slot_def mem_simps)
  moreover have "mem_read ?m' (?o + 4) (length rec) = rec"
    using fits assms(2) by (simp add: store_slot_def mem_simps)
  ultimately show ?thesis
    using assms by (simp add: slot_decode_def Let_def)
qed

section \<open>Invariant\<close>

text \<open>
  Between operations every sequence number from the read to the write position has an authentic
  frame in its slot, and at most \<open>slot_count\<close> of them are waiting.
\<close>

definition ring_inv :: "ring \<Rightarrow> bool" where
  "ring_inv r \<longleftrightarrow>
     ring_shape r \<and> header_ok r \<and> write_seq r - read_seq r \<le> slot_count r
     \<and> (\<forall>q. read_seq r \<le> q \<longrightarrow> q < write_seq r \<longrightarrow> slot_decode r q \<noteq> None)"

text \<open>The waiting frames, oldest first: what the reader will return.\<close>

definition waiting :: "ring \<Rightarrow> frame list" where
  "waiting r = map (\<lambda>q. the (slot_decode r q)) [read_seq r..<write_seq r]"

lemma length_waiting [simp]: "length (waiting r) = write_seq r - read_seq r"
  by (simp add: waiting_def)

lemma seq_bounds:
  assumes "ring_shape r"
  shows "write_seq r < 2 ^ 64" and "read_seq r < 2 ^ 64" and "drops r < 2 ^ 64"
  using shape_header [OF assms] get_field_bound [of 16 8 "mem r"] get_field_bound [of 24 8 "mem r"]
    get_field_bound [of 32 8 "mem r"]
  by (simp_all add: write_seq_def read_seq_def drops_def read_header_def)

lemma with_field_seqs [simp]:
  assumes "ring_shape r"
  shows "v < 2 ^ 64 \<Longrightarrow> write_seq (with_field 16 8 v r) = v"
    and "v < 2 ^ 64 \<Longrightarrow> read_seq (with_field 16 8 v r) = read_seq r"
    and "v < 2 ^ 64 \<Longrightarrow> drops (with_field 16 8 v r) = drops r"
    and "v < 2 ^ 64 \<Longrightarrow> read_seq (with_field 24 8 v r) = v"
    and "v < 2 ^ 64 \<Longrightarrow> write_seq (with_field 24 8 v r) = write_seq r"
    and "v < 2 ^ 64 \<Longrightarrow> drops (with_field 24 8 v r) = drops r"
    and "v < 2 ^ 64 \<Longrightarrow> drops (with_field 32 8 v r) = v"
    and "v < 2 ^ 64 \<Longrightarrow> write_seq (with_field 32 8 v r) = write_seq r"
    and "v < 2 ^ 64 \<Longrightarrow> read_seq (with_field 32 8 v r) = read_seq r"
    and "b < 2 \<Longrightarrow> write_seq (with_field 40 4 b r) = write_seq r"
    and "b < 2 \<Longrightarrow> read_seq (with_field 40 4 b r) = read_seq r"
    and "b < 2 \<Longrightarrow> drops (with_field 40 4 b r) = drops r"
  by (simp_all add: write_seq_def read_seq_def drops_def read_header_with_field [OF assms])

lemma store_slot_seqs [simp]:
  assumes "ring_shape r" and "length rec + 4 \<le> slot_size r"
  shows "write_seq (store_slot (slot_off r q) rec r) = write_seq r"
    and "read_seq (store_slot (slot_off r q) rec r) = read_seq r"
    and "drops (store_slot (slot_off r q) rec r) = drops r"
  by (simp_all add: write_seq_def read_seq_def drops_def read_header_store_slot [OF assms])

text \<open>The layout words of the header: magic, version, slot count and slot size.\<close>

definition layout_fields :: "ring \<Rightarrow> nat list" where
  "layout_fields r = map (\<lambda>off. get_field (mem r) off 4) [0, 4, 8, 12]"

lemma header_ok_layout:
  "header_ok r \<longleftrightarrow> layout_fields r = [RING_MAGIC, RING_VERSION, slot_count r, slot_size r]
     \<and> read_seq r \<le> write_seq r"
  by (auto simp: header_ok_def Let_def write_seq_def read_seq_def layout_fields_def read_header_def)

lemma layout_fields_with_field [simp]:
  "ring_shape r \<Longrightarrow> 16 \<le> off \<Longrightarrow> off + n \<le> 64 \<Longrightarrow> layout_fields (with_field off n v r) = layout_fields r"
  using shape_header [of r] by (simp add: layout_fields_def with_field_def mem_simps)

lemma layout_fields_store_slot [simp]:
  assumes "ring_shape r" and "length rec + 4 \<le> slot_size r"
  shows "layout_fields (store_slot (slot_off r q) rec r) = layout_fields r"
  using read_header_store_slot [OF assms, of q] by (simp add: layout_fields_def read_header_def)

lemma set_backpressure_frame:
  assumes "ring_shape r"
  shows "ring_inv (with_field 40 4 (if b then 1 else 0) r) = ring_inv r"
    and "waiting (with_field 40 4 (if b then 1 else 0) r) = waiting r"
  using assms by (simp_all add: ring_inv_def header_ok_layout waiting_def)

section \<open>Writing\<close>


text \<open>
  A frame that fits is stored at the write position; when the ring is full the oldest waiting
  frame is given up and counted.
\<close>

definition after_write :: "ring \<Rightarrow> bytes \<Rightarrow> ring" where
  "after_write r rec =
     (let w = write_seq r;
          r1 = (if read_seq r + slot_count r \<le> w
                then with_field 32 8 (drops r + 1) (with_field 24 8 (w - slot_count r + 1) r) else r);
          r2 = with_field 16 8 (w + 1) (store_slot (slot_off r w) rec r1)
      in with_field 40 4 (if over_pressure (occupancy r2) (slot_count r2) then 1 else 0) r2)"

lemma ring_write_stores:
  assumes inv: "ring_inv r" and enc: "encode_frame (ring_key r) p sv sid (int (write_seq r)) = Inr rec"
    and fit: "length rec + 4 \<le> slot_size r" and w: "write_seq r + 1 < 2 ^ 64" 
    and d: "read_seq r + slot_count r \<le> write_seq r \<longrightarrow> drops r + 1 < 2 ^ 64"
  shows "ring_write p sv sid r = (after_write r rec, Inr True)"
proof -
  have s: "ring_shape r"
    using inv by (simp add: ring_inv_def)
  show ?thesis
  proof (cases "read_seq r + slot_count r \<le> write_seq r")
    case True
    let ?r0 = "with_field 24 8 (write_seq r - slot_count r + 1) r"
    have v: "write_seq r - slot_count r + 1 < 2 ^ 64"
      using w by simp
    have "advance_read (write_seq r - slot_count r + 1) r = (?r0, Inr ())"
      using v by (simp add: advance_read_def write_field_ok)
    moreover have "bump_drops ?r0 = (with_field 32 8 (drops r + 1) ?r0, Inr ())"
      using d True v s by (simp add: bump_drops_def write_field_ok)
    ultimately show ?thesis
      using True enc fit w
      by (simp add: ring_write_def after_write_def Let_def write_field_ok set_backpressure_def
          of_nat_diff int_ops)
  next
    case False
    then show ?thesis
      using enc fit w
      by (simp add: ring_write_def after_write_def Let_def write_field_ok set_backpressure_def)
  qed
qed

text \<open>The positions and slots a successful write leaves behind.\<close>

lemma after_write_facts:
  assumes inv: "ring_inv r" and enc: "encode_frame (ring_key r) p sv sid (int (write_seq r)) = Inr rec"
    and fit: "length rec + 4 \<le> slot_size r" and w: "write_seq r + 1 < 2 ^ 64" 
    and d: "read_seq r + slot_count r \<le> write_seq r \<longrightarrow> drops r + 1 < 2 ^ 64"
  defines "full \<equiv> read_seq r + slot_count r \<le> write_seq r" and "r' \<equiv> after_write r rec"
  shows "ring_shape r'" and "layout_fields r' = layout_fields r" and "write_seq r' = write_seq r + 1"
    and "read_seq r' = (if full then write_seq r - slot_count r + 1 else read_seq r)"
    and "drops r' = (if full then drops r + 1 else drops r)"
    and "slot_decode r' (write_seq r) = Some \<lparr>f_schema = sv, f_sensor = sid,
           f_seq = int (write_seq r), f_payload = p\<rparr>"
    and "\<And>q. read_seq r' \<le> q \<Longrightarrow> q < write_seq r \<Longrightarrow> slot_decode r' q = slot_decode r q"
    and "slot_count r' = slot_count r" and "slot_size r' = slot_size r" and "ring_key r' = ring_key r"
proof -
  have s: "ring_shape r" and rw: "read_seq r \<le> write_seq r" "write_seq r - read_seq r \<le> slot_count r"
    using inv by (auto simp: ring_inv_def header_ok_layout)
  let ?w = "write_seq r"
  define r1 where "r1 = (if full then with_field 32 8 (drops r + 1) (with_field 24 8 (?w - slot_count r + 1) r) else r)"
  define r2 where "r2 = store_slot (slot_off r ?w) rec r1"
  define r3 where "r3 = with_field 16 8 (?w + 1) r2"
  have v: "?w - slot_count r + 1 < 2 ^ 64"
    using w by simp
  have r1: "ring_shape r1" "layout_fields r1 = layout_fields r" "write_seq r1 = ?w"
      "read_seq r1 = (if full then ?w - slot_count r + 1 else read_seq r)"
      "drops r1 = (if full then drops r + 1 else drops r)" "slot_decode r1 q = slot_decode r q"
      "slot_count r1 = slot_count r" "slot_size r1 = slot_size r" "ring_key r1 = ring_key r" for q
    using s v d by (simp_all add: r1_def full_def)
  have off: "slot_off r ?w = slot_off r1 ?w"
    using r1 by (simp add: slot_off_def)
  have fit1: "length rec + 4 \<le> slot_size r1"
    using fit r1 by simp
  have r2: "ring_shape r2" "layout_fields r2 = layout_fields r" "write_seq r2 = ?w"
      "read_seq r2 = read_seq r1" "drops r2 = drops r1" "slot_count r2 = slot_count r"
      "slot_size r2 = slot_size r" "ring_key r2 = ring_key r"
    using r1 fit1 unfolding r2_def off by simp_all
  have len: "REC_HDR + MAC_SIZE \<le> length rec" "length rec \<le> MAX_SLOT_SIZE - 4"
    using length_encode_frame [OF enc] fit s by (auto simp: ring_shape_def)
  have new: "slot_decode r2 ?w = Some \<lparr>f_schema = sv, f_sensor = sid, f_seq = int ?w, f_payload = p\<rparr>"
    unfolding r2_def off using r1 fit1 len decode_encode_frame [OF enc len(2)]
    by (intro slot_decode_store_same) auto
  have old: "slot_decode r2 q = slot_decode r q" if "read_seq r1 \<le> q" "q < ?w" for q
  proof -
    have "?w < q + slot_count r"
      using that rw s unfolding r1 full_def by (auto simp: ring_shape_def split: if_splits)
    then have "q mod slot_count r \<noteq> ?w mod slot_count r"
      using that by (intro mod_neq_within)
    then show ?thesis
      using r1 fit1 unfolding r2_def off by (simp add: slot_decode_store_other)
  qed
  have r': "r' = with_field 40 4 (if over_pressure (occupancy r3) (slot_count r3) then 1 else 0) r3"
    by (simp add: r'_def after_write_def Let_def r3_def r2_def r1_def full_def)
  have "ring_shape r3"
    using r2 by (simp add: r3_def)
  then show "ring_shape r'" "layout_fields r' = layout_fields r" "write_seq r' = ?w + 1"
      "read_seq r' = (if full then ?w - slot_count r + 1 else read_seq r)"
      "drops r' = (if full then drops r + 1 else drops r)"
      "slot_decode r' ?w = Some \<lparr>f_schema = sv, f_sensor = sid, f_seq = int ?w, f_payload = p\<rparr>"
      "\<And>q. read_seq r' \<le> q \<Longrightarrow> q < ?w \<Longrightarrow> slot_decode r' q = slot_decode r q"
      "slot_count r' = slot_count r" "slot_size r' = slot_size r" "ring_key r' = ring_key r"
    using r1 r2 w new old unfolding r' by (simp_all add: r3_def)
qed

lemma after_write_inv:
  assumes "ring_inv r" and "encode_frame (ring_key r) p sv sid (int (write_seq r)) = Inr rec"
    and "length rec + 4 \<le> slot_size r" and "write_seq r + 1 < 2 ^ 64"
    and "read_seq r + slot_count r \<le> write_seq r \<longrightarrow> drops r + 1 < 2 ^ 64"
  shows "ring_inv (after_write r rec)"
proof -
  note f = after_write_facts [OF assms]
  let ?r = "after_write r rec"
  have "slot_decode ?r q \<noteq> None" if "read_seq ?r \<le> q" "q < write_seq ?r" for q
  proof (cases "q = write_seq r")
    case True
    then show ?thesis by (simp add: f(6))
  next
    case False
    then have "q < write_seq r" "read_seq r \<le> q"
      using that f(3,4) assms(1) by (auto simp: ring_inv_def header_ok_layout split: if_splits)
    then show ?thesis
      using f(7) [OF that(1)] assms(1) by (simp add: ring_inv_def)
  qed
  then show ?thesis
    using f assms(1) by (auto simp: ring_inv_def header_ok_layout ring_shape_def)
qed

lemma waiting_after_write:
  assumes "ring_inv r" and "encode_frame (ring_key r) p sv sid (int (write_seq r)) = Inr rec"
    and "length rec + 4 \<le> slot_size r" and "write_seq r + 1 < 2 ^ 64"
    and "read_seq r + slot_count r \<le> write_seq r \<longrightarrow> drops r + 1 < 2 ^ 64"
  shows "waiting (after_write r rec) =
    (if length (waiting r) < slot_count r then waiting r else tl (waiting r))
    @ [\<lparr>f_schema = sv, f_sensor = sid, f_seq = int (write_seq r), f_payload = p\<rparr>]"
proof -
  note f = after_write_facts [OF assms]
  let ?r = "after_write r rec"
  have rw: "read_seq r \<le> write_seq r" "write_seq r - read_seq r \<le> slot_count r" "0 < slot_count r"
    using assms(1) by (auto simp: ring_inv_def header_ok_layout ring_shape_def)
  have full: "read_seq r + slot_count r \<le> write_seq r \<Longrightarrow> write_seq r - slot_count r = read_seq r"
    using rw by arith
  have le: "read_seq ?r \<le> write_seq r"
    using rw by (auto simp: f(4))
  have "waiting ?r = map (\<lambda>q. the (slot_decode ?r q)) [read_seq ?r..<write_seq r] @ [the (slot_decode ?r (write_seq r))]"
    using le by (simp add: waiting_def f(3))
  also have "map (\<lambda>q. the (slot_decode ?r q)) [read_seq ?r..<write_seq r] = map (\<lambda>q. the (slot_decode r q)) [read_seq ?r..<write_seq r]"
    using f(7) by simp
  also have "[read_seq ?r..<write_seq r] =
      (if length (waiting r) < slot_count r then [read_seq r..<write_seq r] else tl [read_seq r..<write_seq r])"
    using rw full by (auto simp: f(4) tl_upt)
  finally show ?thesis
    by (simp add: f(6) waiting_def flip: map_tl)
qed

section \<open>Reading\<close>

text \<open>The bytes the reader takes from the slot of a sequence number: the record with the length stored before it.\<close>

definition slot_record :: "ring \<Rightarrow> nat \<Rightarrow> bytes" where
  "slot_record r q = mem_read (mem r) (slot_off r q + 4) (get_field (mem r) (slot_off r q) 4)"

lemma slot_decode_record: "slot_decode r q = Some f \<Longrightarrow> decode_frame (ring_key r) (slot_record r q) (int q) = Inr f"
  by (auto simp: slot_decode_def slot_record_def Let_def split: if_splits sum.splits)

text \<open>
  What the loop computes: it visits the positions from \<open>q\<close> to the end of its budget, delivers
  the authentic frames among them in order and counts the others.
\<close>

definition tag_missed :: "int \<Rightarrow> bool \<Rightarrow> frame list \<Rightarrow> (frame \<times> int) list" where
  "tag_missed missed first fs =
     (case fs of [] \<Rightarrow> [] | f # fs' \<Rightarrow> (f, if first then missed else 0) # map (\<lambda>g. (g, 0)) fs')"

lemma map_fst_tag_missed [simp]: "map fst (tag_missed m b fs) = fs"
  by (simp add: tag_missed_def comp_def split: list.split)

lemma length_tag_missed [simp]: "length (tag_missed m b fs) = length fs"
  by (simp add: tag_missed_def split: list.split)

lemma tag_missed_Cons:
  "tag_missed m b (f # fs) = (f, if b then m else 0) # tag_missed m False fs"
  by (simp add: tag_missed_def split: list.split)

lemma scan_eq:
  assumes "q \<le> w"
  shows "scan r n w q missed out fails =
    (min w (q + n),
     out @ tag_missed missed (out = []) (List.map_filter (slot_decode r) [q..<min w (q + n)]),
     fails + length (filter (\<lambda>q. slot_decode r q = None) [q..<min w (q + n)]))"
  using assms
proof (induction n arbitrary: q out fails)
  case 0
  then show ?case
    by (simp add: min_def tag_missed_def)
next
  case (Suc n)
  show ?case
  proof (cases "q < w")
    case True
    then have step: "[q..<min w (q + Suc n)] = q # [q + 1..<min w (q + 1 + n)]" and le: "q + 1 \<le> w"
      by (simp_all add: upt_conv_Cons)
    show ?thesis
      using True by (cases "slot_decode r q") (simp_all only: scan.simps if_True option.case Suc.IH [OF le] step,
          simp_all add: tag_missed_Cons)
  next
    case False
    with Suc.prems show ?thesis
      by (simp add: min_def tag_missed_def)
  qed
qed

lemma scan_authentic:
  assumes "List.map_filter (slot_decode r) qs = fs"
  shows "map f_seq fs = map int (filter (\<lambda>q. slot_decode r q \<noteq> None) qs)
    \<and> (\<forall>f \<in> set fs. encode_frame (ring_key r) (f_payload f) (f_schema f) (f_sensor f) (f_seq f)
          = Inr (slot_record r (nat (f_seq f))))"
  using assms
proof (induction qs arbitrary: fs)
  case Nil
  then show ?case by simp
next
  case (Cons q qs)
  show ?case
  proof (cases "slot_decode r q")
    case None
    with Cons show ?thesis by simp
  next
    case (Some f)
    from decode_frame_authentic [OF slot_decode_record [OF Some]] Some Cons show ?thesis by auto
  qed
qed

section \<open>The ring is a bounded queue of the newest telemetry\<close>

type_synonym entry = "bytes \<times> int" \<comment> \<open>payload and sensor identifier\<close>

definition entries :: "ring \<Rightarrow> entry list" where
  "entries r = map (\<lambda>f. (f_payload f, f_sensor f)) (waiting r)"

definition entry_fits :: "ring \<Rightarrow> entry \<Rightarrow> bool" where
  "entry_fits r x \<longleftrightarrow> REC_HDR + length (fst x) + MAC_SIZE + 4 \<le> slot_size r \<and> 0 \<le> snd x \<and> snd x \<le> 0xFFFF"

definition seq_room :: "ring \<Rightarrow> nat" where
  "seq_room r = min (2 ^ 64 - 1 - write_seq r) (2 ^ 64 - 1 - drops r)"

definition push_entry :: "ring \<Rightarrow> entry \<Rightarrow> ring" where
  "push_entry r x = fst (ring_write (fst x) 1 (snd x) r)"

lemma push_entry_eq:
  assumes "ring_inv r" and "entry_fits r x" and "0 < seq_room r"
  obtains rec where "encode_frame (ring_key r) (fst x) 1 (snd x) (int (write_seq r)) = Inr rec"
    and "length rec + 4 \<le> slot_size r" and "write_seq r + 1 < 2 ^ 64"
    and "drops r + 1 < 2 ^ 64"
    and "push_entry r x = after_write r rec" and "ring_write (fst x) 1 (snd x) r = (after_write r rec, Inr True)"
proof -
  have s: "ring_shape r"
    using assms(1) by (simp add: ring_inv_def)
  have room: "write_seq r + 1 < 2 ^ 64" "drops r + 1 < 2 ^ 64"
    using assms(3) by (auto simp: seq_room_def)
  obtain rec where rec: "encode_frame (ring_key r) (fst x) 1 (snd x) (int (write_seq r)) = Inr rec"
    using assms(2) room(1) s by (simp add: encode_frame_Inr entry_fits_def ring_shape_def)
  have fit: "length rec + 4 \<le> slot_size r"
    using length_encode_frame [OF rec] assms(2) by (simp add: entry_fits_def)
  note w = ring_write_stores [OF assms(1) rec fit room(1)] room(2)
  then have eq: "ring_write (fst x) 1 (snd x) r = (after_write r rec, Inr True)"
    by simp
  then have "push_entry r x = after_write r rec"
    by (simp add: push_entry_def)
  with rec fit room eq that show thesis by blast
qed

interpretation ring: counting_fifo ring_inv entries slot_count seq_room entry_fits push_entry drops
proof
  fix r x y
  assume a: "ring_inv r" "entry_fits r x" "0 < seq_room r"
  then obtain rec where rec: "encode_frame (ring_key r) (fst x) 1 (snd x) (int (write_seq r)) = Inr rec"
      "length rec + 4 \<le> slot_size r" "write_seq r + 1 < 2 ^ 64"
      "read_seq r + slot_count r \<le> write_seq r \<longrightarrow> drops r + 1 < 2 ^ 64"
    and push: "push_entry r x = after_write r rec"
    by (rule push_entry_eq) blast
  note f = after_write_facts [OF a(1) rec]
  show "ring_inv (push_entry r x)"
    unfolding push by (rule after_write_inv [OF a(1) rec])
  show "entries (push_entry r x) =
      (if length (entries r) < slot_count r then entries r else tl (entries r)) @ [x]"
    unfolding push entries_def waiting_after_write [OF a(1) rec] by (simp add: map_tl)
  show "slot_count (push_entry r x) = slot_count r"
    unfolding push by (rule f(8))
  show "drops (push_entry r x) = (if length (entries r) < slot_count r then drops r else Suc (drops r))"
    using a(1) unfolding push f(5) by (auto simp: entries_def ring_inv_def header_ok_layout)
  show "seq_room r \<le> Suc (seq_room (push_entry r x))"
    unfolding push seq_room_def f(3,5) by auto
  show "entry_fits (push_entry r x) y = entry_fits r y"
    unfolding push entry_fits_def f(9) ..
next
  fix r assume "ring_inv r"
  then show "0 < slot_count r" and "length (entries r) \<le> slot_count r"
    by (auto simp: ring_inv_def ring_shape_def entries_def)
qed

section \<open>What a batch returns\<close>

lemma read_batch_eq:
  assumes s: "ring_shape (shared s)" and h: "header_ok (shared s)" and n: "1 \<le> n" "n \<le> int MAX_SLOT_COUNT"
  defines "r \<equiv> shared s"
  defines "q0 \<equiv> max (read_seq r) (write_seq r - slot_count r)"
  defines "q1 \<equiv> min (write_seq r) (q0 + min (nat n) (slot_count r))"
  shows "read_batch n s =
    (s\<lparr>shared := with_field 24 8 q1 r,
       auth_failures := auth_failures s + length (filter (\<lambda>q. slot_decode r q = None) [q0..<q1])\<rparr>,
     Inr (tag_missed (int q0 - int (read_seq r)) True (List.map_filter (slot_decode r) [q0..<q1])))"
proof -
  have rw: "read_seq r \<le> write_seq r" and w64: "write_seq r < 2 ^ 64"
    using h seq_bounds [OF s] by (simp_all add: r_def header_ok_layout)
  have q0: "q0 = (if int (write_seq r) - int (read_seq r) > int (slot_count r)
      then write_seq r - slot_count r else read_seq r)"
    using rw by (auto simp: q0_def)
  have miss: "(if int (write_seq r) - int (read_seq r) > int (slot_count r)
      then int (write_seq r) - int (slot_count r) - int (read_seq r) else 0) = int q0 - int (read_seq r)"
    using rw by (auto simp: q0_def of_nat_diff)
  have le: "q0 \<le> write_seq r"
    using rw by (simp add: q0_def)
  have "q1 < 256 ^ 8"
    using w64 by (simp add: q1_def min_def)
  note wf = write_field_ok [OF this, of 24 r]
  show ?thesis
    using n h unfolding read_batch_def Let_def r_def [symmetric] q0 [symmetric] miss scan_eq [OF le]
    by (simp add: q1_def [symmetric] wf)
qed

text \<open>
  Against an arbitrary memory, one the producer's process may have filled with anything: a batch
  that is returned holds at most the allowed frames, their sequence numbers are the positions they
  were read from in increasing order, every record in the slot of each is exactly the encoding of its frame under the reader's key,
  and every position passed over is accounted for as a failure.
\<close>

lemma read_batch_any_memory:
  assumes s: "ring_shape (shared s)" and ret: "read_batch n s = (s', Inr out)"
  shows "ring_shape (shared s')"
    and "length out \<le> min (nat n) (slot_count (shared s))"
    and "sorted_wrt (<) (map (f_seq \<circ> fst) out)"
    and "\<forall>(f, m) \<in> set out. int (read_seq (shared s)) \<le> f_seq f \<and> f_seq f < int (write_seq (shared s))
          \<and> encode_frame (ring_key (shared s)) (f_payload f) (f_schema f) (f_sensor f) (f_seq f)
              = Inr (slot_record (shared s) (nat (f_seq f)))"
    and "length out + (auth_failures s' - auth_failures s)
          = read_seq (shared s') - max (read_seq (shared s)) (write_seq (shared s) - slot_count (shared s))"
proof -
  have n: "1 \<le> n" "n \<le> int MAX_SLOT_COUNT" and h: "header_ok (shared s)"
    using ret by (auto simp: read_batch_def Let_def split: if_splits)
  define r where "r = shared s"
  define q0 where "q0 = max (read_seq r) (write_seq r - slot_count r)"
  define q1 where "q1 = min (write_seq r) (q0 + min (nat n) (slot_count r))"
  define qs where "qs = [q0..<q1]"
  have "read_batch n s =
    (s\<lparr>shared := with_field 24 8 q1 r,
       auth_failures := auth_failures s + length (filter (\<lambda>q. slot_decode r q = None) qs)\<rparr>,
     Inr (tag_missed (int q0 - int (read_seq r)) True (List.map_filter (slot_decode r) qs)))"
    unfolding qs_def q1_def q0_def r_def by (rule read_batch_eq [OF s h n])
  with ret have out: "map fst out = List.map_filter (slot_decode r) qs"
    and sh: "shared s' = with_field 24 8 q1 r"
    and fails: "auth_failures s' - auth_failures s = length (filter (\<lambda>q. slot_decode r q = None) qs)"
    by auto
  have s: "ring_shape r"
    using s by (simp add: r_def)
  then have "write_seq r < 2 ^ 64"
    using seq_bounds by simp
  then have q1: "q1 < 2 ^ 64"
    by (simp add: q1_def min_def)
  have rng: "set qs \<subseteq> {read_seq r..<write_seq r}"
    by (auto simp: qs_def q0_def q1_def)
  have "q1 \<le> q0 + min (nat n) (slot_count r)"
    unfolding q1_def by (rule min.cobounded2)
  then have lqs: "length qs = q1 - q0" "length qs \<le> min (nat n) (slot_count r)"
    by (simp_all only: qs_def length_upt le_diff_conv add.commute)
  note auth = scan_authentic [OF refl, of r qs]
  have seqs: "map (f_seq \<circ> fst) out = map int (filter (\<lambda>q. slot_decode r q \<noteq> None) qs)"
    using conjunct1 [OF auth] by (simp flip: out map_map)
  have len: "length out = length (filter (\<lambda>q. slot_decode r q \<noteq> None) qs)"
    using arg_cong [OF seqs, of length] by simp
  show "ring_shape (shared s')"
    using s by (simp add: sh)
  show "length out \<le> min (nat n) (slot_count (shared s))"
    using lqs(2) unfolding len r_def [symmetric] by (rule le_trans [OF length_filter_le])
  show "sorted_wrt (<) (map (f_seq \<circ> fst) out)"
    unfolding seqs by (simp add: sorted_wrt_map sorted_wrt_filter qs_def)
  have "\<forall>q \<in> set (map (f_seq \<circ> fst) out). int (read_seq r) \<le> q \<and> q < int (write_seq r)"
    unfolding seqs using rng by auto
  moreover have "\<forall>f \<in> set (map fst out). encode_frame (ring_key r) (f_payload f) (f_schema f) (f_sensor f) (f_seq f)
      = Inr (slot_record r (nat (f_seq f)))"
    using conjunct2 [OF auth] by (simp only: out)
  ultimately show "\<forall>(f, m) \<in> set out. int (read_seq (shared s)) \<le> f_seq f \<and> f_seq f < int (write_seq (shared s))
      \<and> encode_frame (ring_key (shared s)) (f_payload f) (f_schema f) (f_sensor f) (f_seq f)
          = Inr (slot_record (shared s) (nat (f_seq f)))"
    unfolding r_def [symmetric] by (auto simp: image_iff)
  have "length out + (auth_failures s' - auth_failures s) = length qs"
    unfolding len fails by (metis add.commute sum_length_filter_compl)
  then show "length out + (auth_failures s' - auth_failures s)
      = read_seq (shared s') - max (read_seq (shared s)) (write_seq (shared s) - slot_count (shared s))"
    using q1 s lqs(1) unfolding sh r_def [symmetric] q0_def [symmetric] by simp
qed

text \<open>Between cooperating ends nothing is refused: a batch is the oldest waiting frames.\<close>

lemma map_filter_all: "(\<And>x. x \<in> set xs \<Longrightarrow> g x \<noteq> None) \<Longrightarrow> List.map_filter g xs = map (\<lambda>x. the (g x)) xs"
  by (induction xs) (auto split: option.split)

lemma tag_missed_0 [simp]: "tag_missed 0 b fs = map (\<lambda>f. (f, 0)) fs"
  by (simp add: tag_missed_def split: list.split)

lemma read_batch_drains:
  assumes inv: "ring_inv (shared s)" and n: "1 \<le> n" "n \<le> int MAX_SLOT_COUNT"
  obtains s' where "read_batch n s = (s', Inr (map (\<lambda>f. (f, 0)) (take (nat n) (waiting (shared s)))))"
    and "ring_inv (shared s')" and "waiting (shared s') = drop (nat n) (waiting (shared s))"
    and "auth_failures s' = auth_failures s"
proof -
  define r where "r = shared s"
  define q where "q = read_seq r"
  define w where "w = write_seq r"
  define q1 where "q1 = min w (q + min (nat n) (slot_count r))"
  have s: "ring_shape r" and h: "header_ok r" and rw: "q \<le> w" "w - q \<le> slot_count r"
    and ok: "\<And>p. q \<le> p \<Longrightarrow> p < w \<Longrightarrow> slot_decode r p \<noteq> None"
    using inv by (auto simp: ring_inv_def header_ok_layout r_def q_def w_def)
  have q0: "max q (w - slot_count r) = q"
    using rw by arith
  have w64: "w < 2 ^ 64"
    using seq_bounds [OF s] by (simp add: w_def)
  have q1: "q \<le> q1" "q1 \<le> w" "q1 < 2 ^ 64"
    using rw w64 by (auto simp: q1_def)
  have q1n: "q1 = min w (q + nat n)"
    using rw by (auto simp: q1_def)
  have filt: "filter (\<lambda>p. slot_decode r p = None) [q..<q1] = []"
    using ok q1 by (auto simp: filter_empty_conv)
  have frames: "List.map_filter (slot_decode r) [q..<q1] = take (nat n) (waiting r)"
    using ok q1 by (subst map_filter_all)
      (auto simp: waiting_def take_map q_def [symmetric] w_def [symmetric] q1n min_def)
  let ?s = "s\<lparr>shared := with_field 24 8 q1 r, auth_failures := auth_failures s\<rparr>"
  have "read_batch n s = (?s, Inr (map (\<lambda>f. (f, 0)) (take (nat n) (waiting r))))"
    using read_batch_eq [OF s [unfolded r_def] h [unfolded r_def] n]
    by (simp only: r_def [symmetric] q_def [symmetric] w_def [symmetric] q0 q1_def [symmetric] filt frames
        diff_self tag_missed_0 list.size add_0_right)
  moreover have "ring_inv (shared ?s)"
    using s h q1 rw ok by (auto simp: ring_inv_def header_ok_layout q_def [symmetric] w_def [symmetric])
  moreover have "waiting (shared ?s) = drop (nat n) (waiting r)"
    using s q1 by (auto simp: waiting_def drop_map q_def [symmetric] w_def [symmetric] q1n min_def)
  ultimately show thesis
    using that [of ?s] by (simp add: r_def)
qed

section \<open>Every operation keeps the invariant\<close>

lemma ring_inv_drops: "ring_inv r \<Longrightarrow> v < 2 ^ 64 \<Longrightarrow> ring_inv (with_field 32 8 v r)"
  by (auto simp: ring_inv_def header_ok_layout)

lemma ring_inv_advance:
  "ring_inv r \<Longrightarrow> read_seq r \<le> q \<Longrightarrow> q \<le> write_seq r \<Longrightarrow> q < 2 ^ 64 \<Longrightarrow> ring_inv (with_field 24 8 q r)"
  by (auto simp: ring_inv_def header_ok_layout)

lemma ring_inv_store:
  assumes inv: "ring_inv r" and fit: "length rec + 4 \<le> slot_size r"
    and free: "write_seq r < read_seq r + slot_count r"
  shows "ring_inv (store_slot (slot_off r (write_seq r)) rec r)"
proof -
  have s: "ring_shape r"
    using inv by (simp add: ring_inv_def)
  have "slot_decode (store_slot (slot_off r (write_seq r)) rec r) q = slot_decode r q"
    if "read_seq r \<le> q" "q < write_seq r" for q
    using that free by (intro slot_decode_store_other [OF s fit] mod_neq_within) auto
  then show ?thesis
    using inv s fit by (auto simp: ring_inv_def header_ok_layout)
qed

lemma bump_drops_inv: "ring_inv r \<Longrightarrow> ring_inv (fst (bump_drops r))"
  by (auto simp: bump_drops_def write_field_def simp flip: with_field_def intro: ring_inv_drops)

lemma bump_drops_free:
  "ring_shape r \<Longrightarrow> bump_drops r = (r', Inr u) \<Longrightarrow>
   write_seq r' = write_seq r \<and> read_seq r' = read_seq r \<and> slot_count r' = slot_count r
   \<and> slot_size r' = slot_size r \<and> drops r' = drops r + 1"
  by (auto simp: bump_drops_def write_field_def simp flip: with_field_def split: if_splits)

lemma ring_write_inv:
  assumes inv: "ring_inv r"
  shows "ring_inv (fst (ring_write p sv sid r))"
proof (cases "encode_frame (ring_key r) p sv sid (int (write_seq r))")
  case (Inl e)
  with inv show ?thesis by (simp add: ring_write_def)
next
  case (Inr rec)
  have s: "ring_shape r" and rw: "read_seq r \<le> write_seq r" "write_seq r - read_seq r \<le> slot_count r"
    and w64: "write_seq r < 2 ^ 64" and sc: "0 < slot_count r"
    using inv seq_bounds [of r] by (auto simp: ring_inv_def header_ok_layout ring_shape_def)
  show ?thesis
  proof (cases "slot_size r < length rec + 4")
    case True
    with Inr bump_drops_inv [OF inv] show ?thesis
      by (auto simp: ring_write_def op_then_def split: prod.splits sum.splits)
  next
    case fit: False
    show ?thesis
    proof (cases "write_seq r + 1 < 2 ^ 64 \<and> (read_seq r + slot_count r \<le> write_seq r \<longrightarrow> drops r + 1 < 2 ^ 64)")
      case True
      with ring_write_stores [OF inv Inr] after_write_inv [OF inv Inr] fit show ?thesis by simp
    next
      case over: False
      let ?full = "read_seq r + slot_count r \<le> write_seq r"
      let ?r0 = "with_field 24 8 (write_seq r - slot_count r + 1) r"
      let ?r1 = "with_field 32 8 (drops r + 1) ?r0"
      show ?thesis
      proof (cases ?full)
        case True
        have v: "write_seq r - slot_count r + 1 < 2 ^ 64"
          using w64 True sc by linarith
        have r0: "ring_inv ?r0"
          using v rw sc True by (intro ring_inv_advance [OF inv]) arith+
        have adv: "advance_read (write_seq r - slot_count r + 1) r = (?r0, Inr ())"
          using v by (simp add: advance_read_def write_field_ok)
        have off: "slot_off ?r1 (write_seq r) = slot_off r (write_seq r)"
          by simp
        show ?thesis
        proof (cases "drops r + 1 < 2 ^ 64")
          case False
          then have "ring_write p sv sid r = (?r0, Inl StructError)"
            using True Inr fit adv v s
            by (simp add: ring_write_def Let_def of_nat_diff int_ops bump_drops_def write_field_def)
          with r0 show ?thesis by simp
        next
          case d: True
          then have "ring_write p sv sid r = (store_slot (slot_off r (write_seq r)) rec ?r1, Inl StructError)"
            using True Inr fit adv v s over
            by (simp add: ring_write_def Let_def of_nat_diff int_ops bump_drops_def write_field_ok,
                simp add: write_field_def)
          moreover have "ring_inv (store_slot (slot_off ?r1 (write_seq ?r1)) rec ?r1)"
            using fit s v d sc True rw by (intro ring_inv_store ring_inv_drops r0) auto
          ultimately show ?thesis
            using s v d by simp
        qed
      next
        case False
        with over have "ring_write p sv sid r = (store_slot (slot_off r (write_seq r)) rec r, Inl StructError)"
          using Inr fit by (simp add: ring_write_def Let_def, simp add: write_field_def)
        with ring_inv_store [OF inv, of rec] fit False show ?thesis by simp
      qed
    qed
  qed
qed

section \<open>Attaching\<close>

lemma mem_init_header:
  assumes "64 \<le> length (mem r)"
  shows "mem (init_header r) = (header_bytes (slot_count r) (slot_size r) @ replicate 20 0) @ drop 64 (mem r)"
  using assms by (simp add: init_header_def Let_def mem_write_def header_bytes_def)

lemma get_field_init_header:
  assumes "64 \<le> length (mem r)" and "off + n \<le> 64"
  shows "get_field (mem (init_header r)) off n
    = get_field (header_bytes (slot_count r) (slot_size r) @ replicate 20 0) off n"
  unfolding mem_init_header [OF assms(1)]
  using assms(2) by (intro get_field_append) (simp add: header_bytes_def)

lemma init_header_simps [simp]:
  "slot_count (init_header r) = slot_count r" "slot_size (init_header r) = slot_size r"
  "ring_key (init_header r) = ring_key r"
  by (simp_all add: init_header_def Let_def)

lemma ring_shape_init_header [simp]: "ring_shape r \<Longrightarrow> ring_shape (init_header r)"
  using shape_header [of r] mem_init_header [of r] by (simp add: ring_shape_def header_bytes_def)

lemma init_header_empty:
  assumes "ring_shape r"
  shows "ring_inv (init_header r)" and "waiting (init_header r) = []" and "drops (init_header r) = 0"
    and "write_seq (init_header r) = 0"
proof -
  have b: "slot_count r < 256 ^ 4" "slot_size r < 256 ^ 4"
    using assms by (auto simp: ring_shape_def)
  have g: "get_field (mem (init_header r)) off n = get_field (header_bytes (slot_count r) (slot_size r) @ replicate 20 0) off n"
    if "off + n \<le> 64" for off n
    using that shape_header [OF assms] by (rule get_field_init_header [rotated])
  have lay: "layout_fields (init_header r) = [RING_MAGIC, RING_VERSION, slot_count r, slot_size r]"
    using b by (simp add: layout_fields_def g) (simp add: get_field_def mem_read_def header_bytes_def)
  have seqs: "write_seq (init_header r) = 0" "read_seq (init_header r) = 0" "drops (init_header r) = 0"
    by (simp_all add: write_seq_def read_seq_def drops_def read_header_def g,
        simp_all add: get_field_def mem_read_def header_bytes_def)
  show "ring_inv (init_header r)" "waiting (init_header r) = []" "drops (init_header r) = 0"
      "write_seq (init_header r) = 0"
    using lay seqs assms by (simp_all add: ring_inv_def header_ok_layout waiting_def)
qed

text \<open>
  Whatever the file held, an attached ring has the shape of its layout and a header that says so;
  a file that is new, short, forced or of another layout becomes an empty ring.
\<close>

lemma attach_shape:
  assumes "attach create contents slots sz key = Inr r"
  shows "ring_shape r" and "layout_fields r = [RING_MAGIC, RING_VERSION, slot_count r, slot_size r]"
    and "int (slot_count r) = slots" and "int (slot_size r) = sz" and "ring_key r = key"
    and "create \<or> contents = None \<Longrightarrow> ring_inv r \<and> waiting r = [] \<and> drops r = 0 \<and> write_seq r = 0"
proof -
  define total where "total = total_size (nat slots) (nat sz)"
  define old where "old = (case contents of None \<Rightarrow> [] | Some bs \<Rightarrow> bs)"
  define reset where "reset \<longleftrightarrow> create \<or> contents = None \<or> length old < total"
  define r0 where "r0 = \<lparr>mem = take total (if reset then take total old @ replicate (total - length old) 0 else old),
    slot_count = nat slots, slot_size = nat sz, ring_key = key\<rparr>"
  define fresh where "fresh \<longleftrightarrow> reset \<or> h_magic (read_header r0) \<noteq> RING_MAGIC
    \<or> h_version (read_header r0) \<noteq> RING_VERSION \<or> h_slots (read_header r0) \<noteq> nat slots
    \<or> h_size (read_header r0) \<noteq> nat sz"
  have v: "validate_layout slots sz = Inr (nat slots, nat sz)"
  proof (rule ccontr)
    assume "\<not> ?thesis"
    then have "validate_layout slots sz = Inl (ValueError ''layout'')"
      by (auto simp: validate_layout_def split: if_splits)
    with assms show False by (simp add: attach_def)
  qed
  have "validated_key key = Inr key"
  proof (rule ccontr)
    assume "\<not> ?thesis"
    then have "validated_key key = Inl (FrameError ''key'')"
      by (auto simp: validated_key_def)
    with assms show False by (simp add: attach_def v)
  qed
  with v have checks: "validate_layout slots sz = Inr (nat slots, nat sz)" "validated_key key = Inr key"
    by simp_all
  then have lay: "int MIN_SLOT_COUNT \<le> slots" "slots \<le> int MAX_SLOT_COUNT" "int MIN_SLOT_SIZE \<le> sz"
      "sz \<le> int MAX_SLOT_SIZE" and key: "length key = 32"
    by (auto simp: validate_layout_def validated_key_def split: if_splits)
  have "attach create contents slots sz key = Inr (if fresh then init_header r0 else r0)"
    unfolding attach_def checks Let_def sum.case prod.case fresh_def r0_def reset_def total_def old_def
    by (simp only: disj_assoc)
  with assms have r: "r = (if fresh then init_header r0 else r0)"
    by simp
  have s: "ring_shape r0"
    using lay key by (auto simp: r0_def ring_shape_def reset_def total_def)
  show "ring_shape r" "int (slot_count r) = slots" "int (slot_size r) = sz" "ring_key r = key"
    using s lay by (auto simp: r) (auto simp: r0_def)
  have init: "ring_inv (init_header r0)" "waiting (init_header r0) = []" "drops (init_header r0) = 0"
      "write_seq (init_header r0) = 0"
    using init_header_empty [OF s] by blast+
  show "layout_fields r = [RING_MAGIC, RING_VERSION, slot_count r, slot_size r]"
  proof (cases fresh)
    case True
    then show ?thesis
      using init(1) by (simp add: r ring_inv_def header_ok_layout)
  next
    case False
    then have "layout_fields r0 = [RING_MAGIC, RING_VERSION, nat slots, nat sz]"
      by (simp add: fresh_def layout_fields_def read_header_def)
    then show ?thesis
      using False by (simp add: r) (simp add: r0_def)
  qed
  show "ring_inv r \<and> waiting r = [] \<and> drops r = 0 \<and> write_seq r = 0" if "create \<or> contents = None"
  proof -
    have fresh
      using that by (auto simp: fresh_def reset_def)
    with init show ?thesis by (simp add: r)
  qed
qed

section \<open>Runs of the two ends\<close>

datatype ipc_event =
  Produce bytes int int \<comment> \<open>\<open>RingWriter.write\<close>: payload, schema, sensor\<close>
| Refresh \<comment> \<open>\<open>RingWriter.backpressure\<close>\<close>
| Consume int \<comment> \<open>\<open>RingReader.read_batch\<close>\<close>

fun ipc_step :: "reader \<Rightarrow> ipc_event \<Rightarrow> reader" where
  "ipc_step s (Produce p sv sid) = s\<lparr>shared := fst (ring_write p sv sid (shared s))\<rparr>"
| "ipc_step s Refresh = s\<lparr>shared := fst (backpressure (shared s))\<rparr>"
| "ipc_step s (Consume n) = fst (read_batch n s)"

lemma backpressure_inv:
  assumes "ring_inv r"
  shows "ring_inv (fst (backpressure r))"
proof -
  have "ring_shape r"
    using assms by (simp add: ring_inv_def)
  then show ?thesis
    using assms set_backpressure_frame(1) [of r]
    by (simp add: backpressure_def Let_def set_backpressure_def write_field_ok)
qed

text \<open>Between cooperating ends the ring stays well formed and no frame is ever refused.\<close>

definition ipc_inv :: "reader \<Rightarrow> bool" where
  "ipc_inv s \<longleftrightarrow> ring_inv (shared s) \<and> auth_failures s = 0"

lemma ipc_step_inv: "ipc_inv s \<Longrightarrow> ipc_inv (ipc_step s e)"
proof (cases e)
  case (Consume n)
  assume "ipc_inv s"
  then have inv: "ring_inv (shared s)" "auth_failures s = 0"
    by (simp_all add: ipc_inv_def)
  show ?thesis
  proof (cases "1 \<le> n \<and> n \<le> int MAX_SLOT_COUNT")
    case True
    with inv obtain s' where "read_batch n s = (s', Inr (map (\<lambda>f. (f, 0)) (take (nat n) (waiting (shared s)))))"
        "ring_inv (shared s')" "auth_failures s' = auth_failures s"
      using read_batch_drains [of s n] by blast
    with Consume inv show ?thesis by (simp add: ipc_inv_def)
  next
    case False
    then have "fst (read_batch n s) = s"
      by (auto simp: read_batch_def)
    with Consume inv show ?thesis by (simp add: ipc_inv_def)
  qed
qed (simp_all add: ipc_inv_def ring_write_inv backpressure_inv)

interpretation ipc: machine ipc_step ipc_inv
  by unfold_locales (rule ipc_step_inv)

section \<open>Properties\<close>

text \<open>A fresh ring of the smallest layout, for the witnesses.\<close>

definition sample_key :: bytes where
  "sample_key = replicate 32 7"

lemma sample_attach: "\<exists>r. attach False None 2 64 sample_key = Inr r"
  by (simp add: attach_def validate_layout_def validated_key_def sample_key_def)

lemma sample_ring:
  assumes "attach False None 2 64 sample_key = Inr r"
  shows "ring_inv r" and "waiting r = []" and "drops r = 0" and "write_seq r = 0"
    and "slot_count r = 2" and "slot_size r = 64"
  using attach_shape [OF assms] by auto

lemma sample_write:
  assumes "attach False None 2 64 sample_key = Inr r"
  defines "r' \<equiv> fst (ring_write [9] 1 3 r)"
  shows "ring_inv r'" and "waiting r' = [\<lparr>f_schema = 1, f_sensor = 3, f_seq = 0, f_payload = [9]\<rparr>]"
proof -
  note f = sample_ring [OF assms(1)]
  have s: "ring_shape r"
    using f(1) by (simp add: ring_inv_def)
  then obtain rec where rec: "encode_frame (ring_key r) [9] 1 3 (int (write_seq r)) = Inr rec"
    by (simp add: encode_frame_Inr ring_shape_def f(4))
  have fit: "length rec + 4 \<le> slot_size r" and w: "write_seq r + 1 < 2 ^ 64"
      and d: "read_seq r + slot_count r \<le> write_seq r \<longrightarrow> drops r + 1 < 2 ^ 64"
    using length_encode_frame [OF rec] f by simp_all
  have "r' = after_write r rec"
    unfolding r'_def using ring_write_stores [OF f(1) rec fit w d] by simp
  then show "ring_inv r'" "waiting r' = [\<lparr>f_schema = 1, f_sensor = 3, f_seq = 0, f_payload = [9]\<rparr>]"
    using after_write_inv [OF f(1) rec fit w d] waiting_after_write [OF f(1) rec fit w d] f by simp_all
qed

text \<open>
  C1: A frame that fits a slot is decoded exactly when it is the encoding, under the reader's key,
  of the very record the decoder returns, at the expected sequence number: what is written is read
  back, and nothing else (another key, position, schema, length or content) is accepted.
\<close>

theorem decode_accepts_exactly_encodings:
  assumes "length rec \<le> MAX_SLOT_SIZE - 4"
  shows "decode_frame key rec q = Inr f \<longleftrightarrow>
    f_seq f = q \<and> encode_frame key (f_payload f) (f_schema f) (f_sensor f) q = Inr rec"
  using assms by (auto simp: encode_frame_Inr decode_frame_Inr)

theorem decode_accepts_exactly_encodings_witness:
  "\<exists>rec. encode_frame sample_key [1, 2, 3] 1 7 5 = Inr rec
     \<and> decode_frame sample_key rec 5 = Inr \<lparr>f_schema = 1, f_sensor = 7, f_seq = 5, f_payload = [1, 2, 3]\<rparr>"
proof -
  obtain rec where rec: "encode_frame sample_key [1, 2, 3] 1 7 5 = Inr rec"
    by (simp add: encode_frame_Inr sample_key_def)
  have "length rec \<le> MAX_SLOT_SIZE - 4"
    using length_encode_frame [OF rec] by simp
  from decode_accepts_exactly_encodings [OF this, of sample_key 5
      "\<lparr>f_schema = 1, f_sensor = 7, f_seq = 5, f_payload = [1, 2, 3]\<rparr>"] rec
  show ?thesis by auto
qed

text \<open>
  From a freshly created ring, however whole writes, pressure refreshes and whole batches
  interleave, and whatever their arguments, the memory stays well formed: the header matches the
  layout, at most \<open>slot_count\<close> frames wait, each of them authentic in its slot, and the reader
  never counts an authentication failure.
\<close>

theorem ring_runs_keep_invariant:
  assumes "attach create contents slots sz key = Inr r" and "create \<or> contents = None"
  shows "ipc_inv (foldl ipc_step \<lparr>shared = r, auth_failures = 0\<rparr> es)"
  using attach_shape(6) [OF assms] by (intro ipc.inv_run) (simp add: ipc_inv_def)

theorem ring_runs_keep_invariant_witness:
  "\<exists>r. attach False None 2 64 sample_key = Inr r
     \<and> ipc_inv (foldl ipc_step \<lparr>shared = r, auth_failures = 0\<rparr> [Produce [1] 1 1, Consume 5, Refresh])"
  using sample_attach ring_runs_keep_invariant [of False None 2 64 sample_key] by blast

text \<open>
  C3: Writing any list of frames that fit leaves the ring holding exactly the newest
  \<open>slot_count\<close> of the frames waiting before followed by the written ones, in order; the drop
  counter accounts for every other one.
\<close>

theorem ring_keeps_newest:
  assumes "ring_inv r" and "\<forall>x \<in> set xs. entry_fits r x" and "length xs \<le> seq_room r"
  defines "r' \<equiv> foldl (\<lambda>r x. fst (ring_write (fst x) 1 (snd x) r)) r xs"
  shows "ring_inv r' \<and> entries r' = newest (slot_count r) (entries r @ xs)
    \<and> drops r' + length (entries r') = drops r + length (entries r) + length xs"
proof -
  have "r' = foldl push_entry r xs"
    unfolding r'_def by (rule foldl_cong) (simp_all add: push_entry_def)
  then show ?thesis
    using ring.items_pushes [OF assms(1-3)] ring.conserved_pushes [OF assms(1-3)] by simp
qed

theorem ring_keeps_newest_witness:
  "\<exists>r. attach False None 2 64 sample_key = Inr r
     \<and> entries (foldl (\<lambda>r x. fst (ring_write (fst x) 1 (snd x) r)) r [([1], 1), ([2], 1), ([3], 2)])
       = [([2], 1), ([3], 2)]"
proof -
  obtain r where r: "attach False None 2 64 sample_key = Inr r"
    using sample_attach by blast
  note f = sample_ring [OF r]
  have "\<forall>x \<in> set [([1], 1), ([2], 1), ([3], 2)]. entry_fits r x"
    and "length [([1], 1), ([2], 1), ([3 :: byte], 2 :: int)] \<le> seq_room r"
    using f by (simp_all add: entry_fits_def seq_room_def)
  from ring_keeps_newest [OF f(1) this] r f show ?thesis
    by (auto simp: entries_def newest_def)
qed

text \<open>
  C4: Over a well-formed ring a batch of up to \<open>n\<close> frames returns the oldest waiting frames in
  order with nothing missed, removes exactly those, and counts no failure.
\<close>

theorem read_batch_returns_oldest:
  assumes "ring_inv (shared s)" and "1 \<le> n" and "n \<le> int MAX_SLOT_COUNT"
  shows "\<exists>s'. read_batch n s = (s', Inr (map (\<lambda>f. (f, 0)) (take (nat n) (waiting (shared s)))))
    \<and> ring_inv (shared s') \<and> waiting (shared s') = drop (nat n) (waiting (shared s))
    \<and> auth_failures s' = auth_failures s"
  by (rule read_batch_drains [OF assms]) blast

theorem read_batch_returns_oldest_witness:
  "\<exists>r s'. attach False None 2 64 sample_key = Inr r
     \<and> read_batch 4 \<lparr>shared = fst (ring_write [9] 1 3 r), auth_failures = 0\<rparr>
       = (s', Inr [(\<lparr>f_schema = 1, f_sensor = 3, f_seq = 0, f_payload = [9]\<rparr>, 0)])
     \<and> waiting (shared s') = []"
proof -
  obtain r where r: "attach False None 2 64 sample_key = Inr r"
    using sample_attach by blast
  with read_batch_returns_oldest [of "\<lparr>shared = fst (ring_write [9] 1 3 r), auth_failures = 0\<rparr>" 4] sample_write [OF r]
  show ?thesis by auto
qed

text \<open>
  C5: Whatever bytes are in the shared memory, a returned batch holds at most the allowed number
  of frames, their sequence numbers strictly increase and lie between the two header positions, and
  each position passed over without a frame is counted as a failure.  Every frame is authenticated:
  the record the memory holds in the slot of its sequence number, length prefix and tag included, is
  exactly the encoding of the frame under the reader's key at that number.  (The memory is one that does
  not change while the batch runs; C2 lets the producer change it between any two accesses.)
\<close>

theorem read_batch_untrusted_memory:
  assumes "ring_shape (shared s)" and "read_batch n s = (s', Inr out)"
  shows "ring_shape (shared s') \<and> length out \<le> min (nat n) (slot_count (shared s))
    \<and> sorted_wrt (<) (map (f_seq \<circ> fst) out)
    \<and> (\<forall>(f, m) \<in> set out. int (read_seq (shared s)) \<le> f_seq f \<and> f_seq f < int (write_seq (shared s))
         \<and> (let memory = mem (shared s); off = slot_off (shared s) (nat (f_seq f)) in
             encode_frame (ring_key (shared s)) (f_payload f) (f_schema f) (f_sensor f) (f_seq f)
               = Inr (mem_read memory (off + 4) (get_field memory off 4))))
    \<and> length out + (auth_failures s' - auth_failures s)
        = read_seq (shared s') - max (read_seq (shared s)) (write_seq (shared s) - slot_count (shared s))"
  using read_batch_any_memory [OF assms] unfolding slot_record_def Let_def by blast

theorem read_batch_untrusted_memory_witness:
  "\<exists>r s' rec. attach False None 2 64 sample_key = Inr r
     \<and> read_batch 4 \<lparr>shared = fst (ring_write [9] 1 3 r), auth_failures = 0\<rparr>
       = (s', Inr [(\<lparr>f_schema = 1, f_sensor = 3, f_seq = 0, f_payload = [9]\<rparr>, 0)])
     \<and> encode_frame (ring_key (fst (ring_write [9] 1 3 r))) [9] 1 3 0 = Inr rec \<and> ring_shape (shared s')"
proof -
  obtain r where r: "attach False None 2 64 sample_key = Inr r"
    using sample_attach by blast
  let ?r = "fst (ring_write [9] 1 3 r)" and ?f = "\<lparr>f_schema = 1, f_sensor = 3, f_seq = 0, f_payload = [9 :: byte]\<rparr>"
  let ?s = "\<lparr>shared = ?r, auth_failures = 0\<rparr>"
  have inv: "ring_inv (shared ?s)" and w: "waiting (shared ?s) = [?f]"
    using sample_write [OF r] by simp_all
  obtain s' where s': "read_batch 4 ?s = (s', Inr [(?f, 0)])"
    by (rule read_batch_drains [OF inv, of 4]) (use w in auto)
  have "ring_shape (shared ?s)"
    using inv by (simp only: ring_inv_def)
  from read_batch_untrusted_memory [OF this s'] r s' show ?thesis
    by (auto simp: Let_def)
qed



end
