(* ===== verification/Ipc_Interleaving.thy ===== *)
theory Ipc_Interleaving
  imports Ipc_Ring
begin

text \<open>
  The two processes at the ring of \<^verbatim>\<open>src/angerona/resilience/ipc_ring.py\<close>, access by access: nothing
  locks the mapped file, so \<open>RingWriter.write\<close> and \<open>RingReader.read_batch\<close> interleave between any two of their
  accesses.  A step is one load or store of the map (a header, a field, a length, a piece of a record; a record
  is copied in pieces of any size) with the computation up to the next one.  The fields that only the producer
  touches and the reader ignores (the drop counter, the pressure flag) are loaded and stored in one step.  The
  producer's calls follow each other, and so do the consumer's.  That a header field of four or eight aligned bytes is
  never seen half stored is assumed of the machine; a record may be.
\<close>

section \<open>The two processes\<close>

text \<open>Where \<open>write\<close> is: the frame it was called with, numbered \<open>w\<close>, its record, and how much of it is stored.\<close>

datatype writer_pc =
  WIdle
| WOversize \<comment> \<open>before \<open>_bump_drops\<close> of an oversize record\<close>
| WCheck frame bytes \<comment> \<open>before \<open>r = self.read_seq\<close>\<close>
| WAdvance frame bytes \<comment> \<open>before \<open>_advance_read\<close>\<close>
| WDrop frame bytes \<comment> \<open>before \<open>_bump_drops\<close>\<close>
| WLength frame bytes \<comment> \<open>before the length is stored\<close>
| WRecord frame bytes nat \<comment> \<open>while the record is copied\<close>
| WSeq frame bytes \<comment> \<open>before \<open>write_seq\<close> is stored\<close>
| WFlag \<comment> \<open>before \<open>_set_backpressure\<close>\<close>

text \<open>Where \<open>read_batch\<close> is: its local variables, at the head of the loop or while it copies a record.\<close>

record batch_call =
  bc_w :: nat
  bc_pos :: nat
  bc_left :: nat
  bc_missed :: int
  bc_out :: "(frame \<times> int) list"

datatype reader_pc =
  RIdle
| RSlot batch_call
| RRecord batch_call nat bytes \<comment> \<open>the length loaded, the bytes copied\<close>

text \<open>
  The state of both, with a history: \<open>d_log\<close> has the frames whose number was published, \<open>d_visits\<close> each slot
  the reader looked at (its number, the frame if it was authentic, whether the producer had overtaken it), and
  \<open>d_batches\<close> the batches returned.
\<close>

record duo =
  d_ring :: ring
  d_writer :: writer_pc
  d_reader :: reader_pc
  d_fails :: nat
  d_log :: "frame list"
  d_visits :: "(nat \<times> frame option \<times> bool) list"
  d_batches :: "(frame \<times> int) list list"

text \<open>The producer overtakes a number when it starts to store the one that comes a lap later.\<close>

definition frontier :: "duo \<Rightarrow> nat" where
  "frontier d = write_seq (d_ring d) + (case d_writer d of WRecord _ _ _ \<Rightarrow> 1 | WSeq _ _ \<Rightarrow> 1 | _ \<Rightarrow> 0)"

definition overtaken :: "duo \<Rightarrow> nat \<Rightarrow> bool" where
  "overtaken d q \<longleftrightarrow> q + slot_count (d_ring d) < frontier d"

section \<open>The producer\<close>


text \<open>A store that raises ends the call.\<close>

definition store_then :: "(ring, ring_error, unit) oper \<Rightarrow> writer_pc \<Rightarrow> duo \<Rightarrow> duo" where
  "store_then f next d = (case f (d_ring d) of
     (r, Inl e) \<Rightarrow> d\<lparr>d_ring := r, d_writer := WIdle\<rparr>
   | (r, Inr u) \<Rightarrow> d\<lparr>d_ring := r, d_writer := next\<rparr>)"

fun writer_step :: "nat \<Rightarrow> duo \<Rightarrow> duo" where
  "writer_step k d = (let r = d_ring d in case d_writer d of
     WIdle \<Rightarrow> d
   | WOversize \<Rightarrow> store_then bump_drops WIdle d
   | WCheck f rec \<Rightarrow> d\<lparr>d_writer := (if f_seq f - int (read_seq r) \<ge> int (slot_count r) then WAdvance f rec else WLength f rec)\<rparr>
   | WAdvance f rec \<Rightarrow> store_then (advance_read (nat (f_seq f) - slot_count r + 1)) (WDrop f rec) d
   | WDrop f rec \<Rightarrow> store_then bump_drops (WLength f rec) d
   | WLength f rec \<Rightarrow> d\<lparr>d_ring := r\<lparr>mem := put_field (mem r) (slot_off r (nat (f_seq f))) 4 (length rec)\<rparr>, d_writer := WRecord f rec 0\<rparr>
   | WRecord f rec n \<Rightarrow>
       (let piece = take (Suc k) (drop n rec) in
        d\<lparr>d_ring := r\<lparr>mem := mem_write (mem r) (slot_off r (nat (f_seq f)) + 4 + n) piece\<rparr>,
          d_writer := (if n + length piece < length rec then WRecord f rec (n + length piece) else WSeq f rec)\<rparr>)
   | WSeq f rec \<Rightarrow> (case write_field 16 8 (nat (f_seq f) + 1) r of
       (r', Inl e) \<Rightarrow> d\<lparr>d_ring := r', d_writer := WIdle\<rparr>
     | (r', Inr u) \<Rightarrow> d\<lparr>d_ring := r', d_writer := WFlag, d_log := d_log d @ [f]\<rparr>)
   | WFlag \<Rightarrow> store_then (\<lambda>r. set_backpressure (over_pressure (occupancy r) (slot_count r)) r) WIdle d)"


section \<open>The consumer\<close>




section \<open>Interleavings\<close>




section \<open>Stored records\<close>

text \<open>\<open>rec\<close> is the record of frame \<open>f\<close> under number \<open>q\<close>; its length and its first \<open>k\<close> bytes are in the slot of \<open>q\<close>.\<close>

definition frame_record :: "ring \<Rightarrow> nat \<Rightarrow> frame \<Rightarrow> bytes \<Rightarrow> bool" where
  "frame_record r q f rec \<longleftrightarrow> encode_frame (ring_key r) (f_payload f) (f_schema f) (f_sensor f) (int q) = Inr rec
     \<and> f_seq f = int q \<and> length rec + 4 \<le> slot_size r"

definition holds :: "ring \<Rightarrow> nat \<Rightarrow> bytes \<Rightarrow> nat \<Rightarrow> bool" where
  "holds r q rec k \<longleftrightarrow> get_field (mem r) (slot_off r q) 4 = length rec \<and> k \<le> length rec
     \<and> mem_read (mem r) (slot_off r q + 4) k = take k rec"

definition stored :: "ring \<Rightarrow> nat \<Rightarrow> frame \<Rightarrow> bool" where
  "stored r q f \<longleftrightarrow> (\<exists>rec. frame_record r q f rec \<and> holds r q rec (length rec))"




text \<open>A write to the header leaves every slot as it was.\<close>

lemma frame_record_with_field [simp]: "frame_record (with_field off n v r) q f rec = frame_record r q f rec"
  by (simp add: frame_record_def)

lemma holds_with_field [simp]: "ring_shape r \<Longrightarrow> off + n \<le> 64 \<Longrightarrow> holds (with_field off n v r) q rec k = holds r q rec k"
  using slot_off_ge [of r q] by (simp add: holds_def get_field_def mem_read_with_field)

lemma stored_with_field [simp]: "ring_shape r \<Longrightarrow> off + n \<le> 64 \<Longrightarrow> stored (with_field off n v r) q f = stored r q f"
  by (simp add: stored_def)

text \<open>A write inside the slot of \<open>w\<close>.\<close>

definition poke :: "nat \<Rightarrow> bytes \<Rightarrow> ring \<Rightarrow> ring" where
  "poke off bs r = r\<lparr>mem := mem_write (mem r) off bs\<rparr>"


lemma poke_simps [simp]:
  "slot_count (poke off bs r) = slot_count r" "slot_size (poke off bs r) = slot_size r"
  "ring_key (poke off bs r) = ring_key r" "slot_off (poke off bs r) q = slot_off r q"
  "frame_record (poke off bs r) q f rec = frame_record r q f rec"
  by (simp_all add: poke_def slot_off_def frame_record_def)









section \<open>Invariant\<close>

definition pending_out :: "duo \<Rightarrow> (frame \<times> int) list" where
  "pending_out d = (case d_reader d of RIdle \<Rightarrow> [] | RSlot c \<Rightarrow> bc_out c | RRecord c _ _ \<Rightarrow> bc_out c)"

text \<open>
  The slot of \<open>q\<close> was given to the frame a lap later: that frame is published, or the write that
  stores it is past its look at the read position.
\<close>

definition replacing :: "duo \<Rightarrow> bool" where
  "replacing d \<longleftrightarrow> (case d_writer d of WDrop _ _ \<Rightarrow> True | WLength _ _ \<Rightarrow> True | WRecord _ _ _ \<Rightarrow> True | WSeq _ _ \<Rightarrow> True | _ \<Rightarrow> False)"

definition replaced :: "duo \<Rightarrow> nat \<Rightarrow> bool" where
  "replaced d q \<longleftrightarrow> q + slot_count (d_ring d) < length (d_log d) + (if replacing d then 1 else 0)"

text \<open>Every number below \<open>m\<close> was visited or replaced.\<close>

definition gone :: "duo \<Rightarrow> nat \<Rightarrow> bool" where
  "gone d m \<longleftrightarrow> (\<forall>q < m. q \<in> fst ` set (d_visits d) \<or> replaced d q)"

definition ring_ok :: "duo \<Rightarrow> bool" where
  "ring_ok d \<longleftrightarrow> (let r = d_ring d in ring_shape r \<and> layout_fields r = [RING_MAGIC, RING_VERSION, slot_count r, slot_size r]
     \<and> read_seq r \<le> write_seq r \<and> write_seq r = length (d_log d) \<and> gone d (read_seq r))"

definition log_ok :: "duo \<Rightarrow> bool" where
  "log_ok d \<longleftrightarrow> (\<forall>q < length (d_log d). \<not> overtaken d q \<longrightarrow> stored (d_ring d) q (d_log d ! q))"

definition writer_ok :: "duo \<Rightarrow> bool" where
  "writer_ok d \<longleftrightarrow> (let r = d_ring d; w = length (d_log d) in case d_writer d of
     WIdle \<Rightarrow> True | WOversize \<Rightarrow> True | WFlag \<Rightarrow> True
   | WCheck f rec \<Rightarrow> frame_record r w f rec
   | WAdvance f rec \<Rightarrow> frame_record r w f rec \<and> slot_count r \<le> w
   | WDrop f rec \<Rightarrow> frame_record r w f rec
   | WLength f rec \<Rightarrow> frame_record r w f rec
   | WRecord f rec k \<Rightarrow> frame_record r w f rec \<and> holds r w rec k
   | WSeq f rec \<Rightarrow> frame_record r w f rec \<and> holds r w rec (length rec))"

definition call_ok :: "duo \<Rightarrow> batch_call \<Rightarrow> bool" where
  "call_ok d c \<longleftrightarrow> bc_pos c \<le> bc_w c \<and> bc_w c \<le> length (d_log d) \<and> gone d (bc_pos c)"

definition copy_ok :: "duo \<Rightarrow> batch_call \<Rightarrow> nat \<Rightarrow> bytes \<Rightarrow> bool" where
  "copy_ok d c rec_len got \<longleftrightarrow> bc_pos c < bc_w c \<and> length got < rec_len
     \<and> (\<not> overtaken d (bc_pos c) \<longrightarrow> (\<exists>rec. frame_record (d_ring d) (bc_pos c) (d_log d ! bc_pos c) rec
          \<and> length rec = rec_len \<and> got = take (length got) rec))"

definition reader_ok :: "duo \<Rightarrow> bool" where
  "reader_ok d \<longleftrightarrow> (case d_reader d of RIdle \<Rightarrow> True | RSlot c \<Rightarrow> call_ok d c | RRecord c n got \<Rightarrow> call_ok d c \<and> copy_ok d c n got)"

definition visits_ok :: "duo \<Rightarrow> bool" where
  "visits_ok d \<longleftrightarrow> (\<forall>(q, found, late) \<in> set (d_visits d). q < length (d_log d) \<and> (if late then overtaken d q else found = Some (d_log d ! q))
        \<and> (\<forall>f. found = Some f \<longrightarrow> f_seq f = int q))
     \<and> d_fails d = length (filter (\<lambda>(q, found, late). found = None) (d_visits d))
     \<and> map fst (concat (d_batches d) @ pending_out d) = List.map_filter (\<lambda>(q, found, late). found) (d_visits d)"

definition duo_ok :: "duo \<Rightarrow> bool" where
  "duo_ok d \<longleftrightarrow> ring_ok d \<and> log_ok d \<and> writer_ok d \<and> reader_ok d \<and> visits_ok d"

lemmas duo_ok_defs = duo_ok_def ring_ok_def writer_ok_def reader_ok_def Let_def

section \<open>Steps of the producer\<close>






















section \<open>Steps of the consumer\<close>








section \<open>Runs\<close>









section \<open>Calls that nothing interrupts\<close>



text \<open>The producer's run, stage by stage.\<close>

lemma writer_at:
  "d_writer d = WIdle \<Longrightarrow> writer_step k d = d"
  "d_writer d = WOversize \<Longrightarrow> writer_step k d = store_then bump_drops WIdle d"
  "d_writer d = WCheck f rec \<Longrightarrow> writer_step k d = d\<lparr>d_writer :=
     (if f_seq f - int (read_seq (d_ring d)) \<ge> int (slot_count (d_ring d)) then WAdvance f rec else WLength f rec)\<rparr>"
  "d_writer d = WAdvance f rec \<Longrightarrow> writer_step k d = store_then (advance_read (nat (f_seq f) - slot_count (d_ring d) + 1)) (WDrop f rec) d"
  "d_writer d = WDrop f rec \<Longrightarrow> writer_step k d = store_then bump_drops (WLength f rec) d"
  by simp_all

declare writer_step.simps [simp del]















section \<open>Properties\<close>





text \<open>What the missing lock costs: a producer that looked at a full ring moves the read position back, although the
consumer has drained the ring in between; the frames after that position are then delivered again.\<close>

lemma stale_advance_rewinds:
  assumes "duo_ok d" and "d_writer d = WAdvance f rec" and "read_seq (d_ring d) = write_seq (d_ring d)"
  shows "read_seq (d_ring (writer_step k d)) = write_seq (d_ring d) - slot_count (d_ring d) + 1"
    and "write_seq (d_ring (writer_step k d)) = write_seq (d_ring d)"
proof -
  let ?r = "d_ring d" and ?w = "length (d_log d)"
  have s: "ring_shape ?r" "write_seq ?r = ?w" "f_seq f = int ?w" "slot_count ?r \<le> ?w" "0 < slot_count ?r"
    using assms(1,2) by (auto simp: duo_ok_defs frame_record_def ring_shape_def)
  then have v: "?w - slot_count ?r + 1 < 2 ^ 64"
    using seq_bounds [OF s(1)] by simp
  then show "read_seq (d_ring (writer_step k d)) = write_seq ?r - slot_count ?r + 1" "write_seq (d_ring (writer_step k d)) = write_seq ?r"
    using s assms(2) by (simp_all add: writer_at(4) store_then_def advance_read_def write_field_ok)
qed

end
