(* ===== verification/Telemetry_Contracts.thy ===== *)
theory Telemetry_Contracts
  imports Angerona_Prelude
begin

text \<open>
  The expectation engine of \<^verbatim>\<open>src/angerona/core/telemetry_contracts.py\<close>: a probe is armed with
  the set of echoes it must produce before a deadline; observations complete it, the clock
  expires it.  Every operation runs under the engine's lock, so it is one step of the state.
\<close>

section \<open>State\<close>

record contract =
  c_name :: string
  c_required :: "string list"
  c_deadline :: pyfloat

record expectation =
  x_name :: string
  x_required :: "string list"
  x_started :: rat
  x_deadline_at :: rat
  x_observed :: "(string, rat) dict"

record outcome =
  o_probe :: string
  o_contract :: string
  o_status :: string
  o_required :: "string list"
  o_observed :: "string list"
  o_missing :: "string list"
  o_elapsed :: rat

record engine =
  max_pending :: nat
  pending :: "(string, expectation) dict"

definition new_engine :: "int \<Rightarrow> engine" where
  "new_engine n = \<lparr>max_pending = nat (max 1 n), pending = []\<rparr>"

section \<open>Operations\<close>

text \<open>The stripped and truncated name, the distinct non-blank echoes and the deadline, if all are in range.\<close>

definition normalize_contract :: "contract \<Rightarrow> (string \<times> string list \<times> rat) option" where
  "normalize_contract c =
     (let name = take 128 (py_strip (c_name c));
          echoes = first_seen (map (\<lambda>e. take 128 (py_strip e)) (filter (\<lambda>e. py_strip e \<noteq> []) (c_required c)))
      in case c_deadline c of
           Fin d \<Rightarrow>
             if name = [] \<or> echoes = [] \<or> 16 < length echoes \<or> \<not> (1 / 100 \<le> d \<and> d \<le> 3600)
             then None else Some (name, echoes, d)
         | _ \<Rightarrow> None)"

definition probe_key :: "string \<Rightarrow> string" where
  "probe_key s = take 256 (py_strip s)"

definition arm :: "string \<Rightarrow> contract \<Rightarrow> rat \<Rightarrow> engine \<Rightarrow> engine \<times> bool" where
  "arm probe c now s =
     (let key = probe_key probe in
      case normalize_contract c of
        None \<Rightarrow> (s, False)
      | Some (name, echoes, d) \<Rightarrow>
          if key = [] then (s, False)
          else if dict_get (pending s) key \<noteq> None \<or> length (pending s) \<ge> max_pending s then (s, False)
          else (s\<lparr>pending := dict_set key
                  \<lparr>x_name = name, x_required = echoes, x_started = now, x_deadline_at = now + d,
                   x_observed = []\<rparr> (pending s)\<rparr>, True))"

definition outcome_of :: "string \<Rightarrow> expectation \<Rightarrow> string \<Rightarrow> rat \<Rightarrow> outcome" where
  "outcome_of key p status finished =
     \<lparr>o_probe = key, o_contract = x_name p, o_status = status, o_required = x_required p,
      o_observed = filter (\<lambda>e. dict_get (x_observed p) e \<noteq> None) (x_required p),
      o_missing = filter (\<lambda>e. dict_get (x_observed p) e = None) (x_required p),
      o_elapsed = max 0 (finished - x_started p)\<rparr>"

definition observe :: "string \<Rightarrow> string \<Rightarrow> rat \<Rightarrow> engine \<Rightarrow> engine \<times> outcome option" where
  "observe probe echo now s =
     (let key = probe_key probe; echo_name = take 128 (py_strip echo) in
      case dict_get (pending s) key of
        None \<Rightarrow> (s, None)
      | Some p \<Rightarrow>
          if now > x_deadline_at p
          then (s\<lparr>pending := dict_del key (pending s)\<rparr>, Some (outcome_of key p ''missed'' (x_deadline_at p)))
          else if echo_name \<notin> set (x_required p) then (s, None)
          else if dict_get (x_observed p) echo_name \<noteq> None then (s, None)
          else
            let p' = p\<lparr>x_observed := dict_set echo_name now (x_observed p)\<rparr> in
            if length (x_observed p') \<noteq> length (x_required p')
            then (s\<lparr>pending := dict_set key p' (pending s)\<rparr>, None)
            else (s\<lparr>pending := dict_del key (pending s)\<rparr>, Some (outcome_of key p' ''satisfied'' now)))"

definition expire_one :: "rat \<Rightarrow> engine \<times> outcome list \<Rightarrow> string \<times> expectation \<Rightarrow> engine \<times> outcome list" where
  "expire_one now acc item =
     (case acc of (s, outs) \<Rightarrow> case item of (key, p) \<Rightarrow>
        if now \<ge> x_deadline_at p
        then (s\<lparr>pending := dict_del key (pending s)\<rparr>, outs @ [outcome_of key p ''missed'' (x_deadline_at p)])
        else (s, outs))"

definition expire :: "rat \<Rightarrow> engine \<Rightarrow> engine \<times> outcome list" where
  "expire now s = foldl (expire_one now) (s, []) (pending s)"

definition cancel :: "string \<Rightarrow> engine \<Rightarrow> engine \<times> bool" where
  "cancel probe s =
     (let key = probe_key probe
      in (s\<lparr>pending := dict_del key (pending s)\<rparr>, dict_get (pending s) key \<noteq> None))"

definition pending_count :: "engine \<Rightarrow> nat" where
  "pending_count s = length (pending s)"

section \<open>Invariant\<close>

text \<open>A pending expectation still lacks an echo, and holds times of required echoes only.\<close>

definition expectation_ok :: "expectation \<Rightarrow> bool" where
  "expectation_ok p \<longleftrightarrow>
     distinct (x_required p) \<and> x_required p \<noteq> [] \<and> length (x_required p) \<le> 16
     \<and> x_started p < x_deadline_at p
     \<and> dict_wf (x_observed p) \<and> set (dict_keys (x_observed p)) \<subset> set (x_required p)
     \<and> (\<forall>t \<in> set (map snd (x_observed p)). t \<le> x_deadline_at p)"

definition engine_inv :: "engine \<Rightarrow> bool" where
  "engine_inv s \<longleftrightarrow>
     1 \<le> max_pending s \<and> dict_wf (pending s) \<and> length (pending s) \<le> max_pending s
     \<and> (\<forall>(key, p) \<in> set (pending s). key \<noteq> [] \<and> expectation_ok p)"

lemma engine_inv_new: "engine_inv (new_engine n)"
  by (simp add: engine_inv_def new_engine_def)

lemma engine_inv_get: "engine_inv s \<Longrightarrow> dict_get (pending s) key = Some p \<Longrightarrow> key \<noteq> [] \<and> expectation_ok p"
  by (auto simp: engine_inv_def dest: dict_get_in)

lemma set_dict_del: "set (dict_del k d) \<subseteq> set d"
  by (auto simp: AList.delete_eq)

lemma set_dict_set: "set (dict_set k v d) \<subseteq> insert (k, v) (set d)"
  by (induction d) auto

lemma engine_inv_del: "engine_inv s \<Longrightarrow> engine_inv (s\<lparr>pending := dict_del key (pending s)\<rparr>)"
  using set_dict_del [of key "pending s"] length_dict_del_le [of key "pending s"]
  by (auto simp: engine_inv_def)

lemma engine_inv_set:
  assumes "engine_inv s" and "key \<noteq> []" and "expectation_ok p"
    and "dict_get (pending s) key \<noteq> None \<or> length (pending s) < max_pending s"
  shows "engine_inv (s\<lparr>pending := dict_set key p (pending s)\<rparr>)"
  using assms set_dict_set [of key p "pending s"]
  by (auto simp: engine_inv_def length_dict_set)

lemma normalize_contract_Some:
  assumes "normalize_contract c = Some (name, echoes, d)"
  shows "name \<noteq> []" and "echoes \<noteq> []" and "distinct echoes" and "length echoes \<le> 16" and "0 < d"
  using assms by (auto simp: normalize_contract_def Let_def split: pyfloat.splits if_splits)

lemma arm_inv: "engine_inv s \<Longrightarrow> engine_inv (fst (arm probe c now s))"
proof (cases "normalize_contract c")
  case (Some x)
  assume inv: "engine_inv s"
  obtain name echoes d where x: "x = (name, echoes, d)"
    by (cases x)
  note n = normalize_contract_Some [OF Some [unfolded x]]
  have "expectation_ok \<lparr>x_name = name, x_required = echoes, x_started = now, x_deadline_at = now + d,
      x_observed = []\<rparr>"
    using n by (auto simp: expectation_ok_def)
  then show ?thesis
    using inv Some x by (auto simp: arm_def Let_def intro!: engine_inv_set)
qed (simp add: arm_def Let_def)

lemma keys_dict_set: "set (dict_keys (dict_set k v d)) = insert k (set (dict_keys d))"
  using dom_update [of k v d] by simp

lemma vals_dict_set: "set (map snd (dict_set k v d)) \<subseteq> insert v (set (map snd d))"
  by (induction d) auto

lemma full_iff:
  assumes "distinct ks" and "distinct rs" and "set ks \<subseteq> set rs"
  shows "length ks = length rs \<longleftrightarrow> set ks = set rs"
  using assms by (metis card_subset_eq distinct_card finite_set)

text \<open>What recording one more required echo does to a pending expectation.\<close>

definition record_echo :: "string \<Rightarrow> rat \<Rightarrow> expectation \<Rightarrow> expectation" where
  "record_echo e t p = p\<lparr>x_observed := dict_set e t (x_observed p)\<rparr>"

lemma record_echo_complete:
  assumes "expectation_ok p" and "e \<in> set (x_required p)"
  shows "length (x_observed (record_echo e t p)) = length (x_required p)
    \<longleftrightarrow> insert e (set (dict_keys (x_observed p))) = set (x_required p)"
proof -
  let ?d = "x_observed (record_echo e t p)"
  have "distinct (dict_keys ?d)" "set (dict_keys ?d) = insert e (set (dict_keys (x_observed p)))"
    using assms keys_dict_set [of e t "x_observed p"] dict_wf_set [of "x_observed p" e t]
    by (auto simp: record_echo_def expectation_ok_def dict_wf_def)
  with full_iff [of "dict_keys ?d" "x_required p"] assms show ?thesis
    by (auto simp: expectation_ok_def)
qed

lemma record_echo_ok:
  assumes "expectation_ok p" and "e \<in> set (x_required p)" and "t \<le> x_deadline_at p"
    and "length (x_observed (record_echo e t p)) \<noteq> length (x_required p)"
  shows "expectation_ok (record_echo e t p)"
proof -
  have "insert e (set (dict_keys (x_observed p))) \<noteq> set (x_required p)"
    using assms record_echo_complete by blast
  then have "set (dict_keys (x_observed (record_echo e t p))) \<subset> set (x_required p)"
    using assms(1,2) keys_dict_set [of e t "x_observed p"]
    by (auto simp: record_echo_def expectation_ok_def)
  moreover have "u \<le> x_deadline_at p" if "u \<in> set (map snd (x_observed (record_echo e t p)))" for u
  proof -
    have "u \<in> insert t (set (map snd (x_observed p)))"
      using that vals_dict_set [of e t "x_observed p"] unfolding record_echo_def by auto
    then show ?thesis
      using assms(1,3) by (auto simp: expectation_ok_def)
  qed
  ultimately show ?thesis
    using assms(1) unfolding expectation_ok_def by (simp add: record_echo_def)
qed

lemma observe_cases:
  "observe probe echo now s =
     (case dict_get (pending s) (probe_key probe) of
        None \<Rightarrow> (s, None)
      | Some p \<Rightarrow>
          let key = probe_key probe; e = take 128 (py_strip echo); p' = record_echo e now p in
          if x_deadline_at p < now
          then (s\<lparr>pending := dict_del key (pending s)\<rparr>, Some (outcome_of key p ''missed'' (x_deadline_at p)))
          else if e \<notin> set (x_required p) \<or> dict_get (x_observed p) e \<noteq> None then (s, None)
          else if length (x_observed p') \<noteq> length (x_required p)
          then (s\<lparr>pending := dict_set key p' (pending s)\<rparr>, None)
          else (s\<lparr>pending := dict_del key (pending s)\<rparr>, Some (outcome_of key p' ''satisfied'' now)))"
  by (auto simp: observe_def Let_def record_echo_def split: option.split)

lemma observe_inv:
  assumes "engine_inv s"
  shows "engine_inv (fst (observe probe echo now s))"
proof (cases "dict_get (pending s) (probe_key probe)")
  case (Some p)
  note ok = engine_inv_get [OF assms Some]
  show ?thesis
    using ok Some assms record_echo_ok [of p "take 128 (py_strip echo)" now]
    by (auto simp: observe_cases Let_def intro!: engine_inv_del engine_inv_set)
qed (simp add: observe_cases assms)

lemma expire_one_pair:
  "expire_one now (s, outs) (k, p) =
     (if x_deadline_at p \<le> now
      then (s\<lparr>pending := dict_del k (pending s)\<rparr>, outs @ [outcome_of k p ''missed'' (x_deadline_at p)])
      else (s, outs))"
  by (simp add: expire_one_def)

lemma expire_fold:
  "foldl (expire_one now) (s, outs) items =
     (s\<lparr>pending := filter (\<lambda>(k, _). k \<notin> fst ` set (filter (\<lambda>(_, p). x_deadline_at p \<le> now) items)) (pending s)\<rparr>,
      outs @ map (\<lambda>(k, p). outcome_of k p ''missed'' (x_deadline_at p)) (filter (\<lambda>(_, p). x_deadline_at p \<le> now) items))"
proof (induction items arbitrary: s outs)
  case Nil
  then show ?case by simp
next
  case (Cons x items)
  obtain k p where x: "x = (k, p)"
    by (cases x)
  show ?case
  proof (cases "x_deadline_at p \<le> now")
    case True
    have "filter (\<lambda>(k', _). k' \<notin> K) (dict_del k d) = filter (\<lambda>(k', _). k' \<notin> insert k K) d"
      for K and d :: "(string, expectation) dict"
      by (auto simp: AList.delete_eq intro!: filter_cong)
    then show ?thesis
      using True by (simp add: x expire_one_pair Cons)
  next
    case False
    then show ?thesis
      by (simp add: x expire_one_pair Cons)
  qed
qed

text \<open>The loop over a snapshot of the items is a partition of the pending expectations.\<close>

lemma expire_eq:
  assumes "dict_wf (pending s)"
  shows "expire now s =
    (s\<lparr>pending := filter (\<lambda>(_, p). now < x_deadline_at p) (pending s)\<rparr>,
     map (\<lambda>(k, p). outcome_of k p ''missed'' (x_deadline_at p)) (filter (\<lambda>(_, p). x_deadline_at p \<le> now) (pending s)))"
proof -
  have "(k \<notin> fst ` set (filter (\<lambda>(_, p). x_deadline_at p \<le> now) (pending s))) = (now < x_deadline_at p)"
    if k: "(k, p) \<in> set (pending s)" for k p
  proof -
    have uniq: "p' = p" if "(k, p') \<in> set (pending s)" for p'
      using dict_get_wf [OF assms that] dict_get_wf [OF assms k] by simp
    have "k \<in> fst ` set (filter (\<lambda>(_, p). x_deadline_at p \<le> now) (pending s)) \<longleftrightarrow>
        (\<exists>p'. (k, p') \<in> set (pending s) \<and> x_deadline_at p' \<le> now)"
      by (auto simp: image_iff)
    also have "\<dots> \<longleftrightarrow> x_deadline_at p \<le> now"
      using uniq k by blast
    finally show ?thesis
      by (simp only: not_le)
  qed
  then have "filter (\<lambda>(k, _). k \<notin> fst ` set (filter (\<lambda>(_, p). x_deadline_at p \<le> now) (pending s))) (pending s)
      = filter (\<lambda>(_, p). now < x_deadline_at p) (pending s)"
    by (intro filter_cong) auto
  then show ?thesis
    unfolding expire_def expire_fold by (simp only: append_Nil)
qed

lemma dict_wf_filter: "dict_wf d \<Longrightarrow> dict_wf (filter P d)"
  by (simp add: dict_wf_def distinct_map_filter)

lemma expire_inv:
  assumes "engine_inv s"
  shows "engine_inv (fst (expire now s))"
proof -
  have wf: "dict_wf (pending s)"
    using assms by (simp add: engine_inv_def)
  have "length (filter (\<lambda>(_, p). now < x_deadline_at p) (pending s)) \<le> max_pending s"
    using assms by (intro le_trans [OF length_filter_le]) (simp add: engine_inv_def)
  with assms show ?thesis
    unfolding expire_eq [OF wf] engine_inv_def by (auto simp: dict_wf_filter)
qed

datatype engine_event =
  Arm string contract rat | Observe string string rat | Expire rat | Cancel string

fun engine_step :: "engine \<Rightarrow> engine_event \<Rightarrow> engine" where
  "engine_step s (Arm i c now) = fst (arm i c now s)"
| "engine_step s (Observe i e now) = fst (observe i e now s)"
| "engine_step s (Expire now) = fst (expire now s)"
| "engine_step s (Cancel i) = fst (cancel i s)"

lemma engine_step_inv: "engine_inv s \<Longrightarrow> engine_inv (engine_step s e)"
  by (cases e) (simp_all add: arm_inv observe_inv expire_inv cancel_def Let_def engine_inv_del)

interpretation expectations: machine engine_step engine_inv
  by unfold_locales (rule engine_step_inv)

section \<open>Outcomes\<close>

lemma record_echo_missing:
  assumes "expectation_ok p" and "insert e (set (dict_keys (x_observed p))) = set (x_required p)"
  shows "o_missing (outcome_of k (record_echo e t p) st u) = []"
    and "o_observed (outcome_of k (record_echo e t p) st u) = x_required p"
proof -
  have "dict_get (x_observed (record_echo e t p)) x \<noteq> None" if "x \<in> set (x_required p)" for x
    using that assms(2) by (auto simp: record_echo_def dict_get_set dict_get_dom)
  then show "o_missing (outcome_of k (record_echo e t p) st u) = []"
    and "o_observed (outcome_of k (record_echo e t p) st u) = x_required p"
    by (auto simp: outcome_of_def record_echo_def filter_empty_conv intro!: filter_True)
qed

lemma observe_Some:
  assumes "engine_inv s" and "dict_get (pending s) (probe_key i) = Some p"
    and "e = take 128 (py_strip echo)" and "now \<le> x_deadline_at p"
  shows "insert e (set (dict_keys (x_observed p))) = set (x_required p) \<Longrightarrow>
      observe i echo now s = (s\<lparr>pending := dict_del (probe_key i) (pending s)\<rparr>,
        Some (outcome_of (probe_key i) (record_echo e now p) ''satisfied'' now))"
    and "insert e (set (dict_keys (x_observed p))) \<noteq> set (x_required p) \<Longrightarrow>
      \<exists>s'. observe i echo now s = (s', None) \<and> (\<exists>p'. dict_get (pending s') (probe_key i) = Some p'
        \<and> x_required p' = x_required p \<and> x_deadline_at p' = x_deadline_at p \<and> x_name p' = x_name p
        \<and> set (x_required p) \<inter> insert e (set (dict_keys (x_observed p))) \<subseteq> set (dict_keys (x_observed p')))"
proof -
  note ok = conjunct2 [OF engine_inv_get [OF assms(1,2)]]
  have strict: "set (dict_keys (x_observed p)) \<subset> set (x_required p)"
    using ok by (simp add: expectation_ok_def)
  {
    assume full: "insert e (set (dict_keys (x_observed p))) = set (x_required p)"
    then have "e \<in> set (x_required p)" "dict_get (x_observed p) e = None"
      using strict by (auto simp: map_of_eq_None_iff)
    then show "observe i echo now s = (s\<lparr>pending := dict_del (probe_key i) (pending s)\<rparr>,
        Some (outcome_of (probe_key i) (record_echo e now p) ''satisfied'' now))"
      using full assms record_echo_complete [OF ok] by (auto simp: observe_cases Let_def)
  }
  {
    assume part: "insert e (set (dict_keys (x_observed p))) \<noteq> set (x_required p)"
    show "\<exists>s'. observe i echo now s = (s', None) \<and> (\<exists>p'. dict_get (pending s') (probe_key i) = Some p'
        \<and> x_required p' = x_required p \<and> x_deadline_at p' = x_deadline_at p \<and> x_name p' = x_name p
        \<and> set (x_required p) \<inter> insert e (set (dict_keys (x_observed p))) \<subseteq> set (dict_keys (x_observed p')))"
    proof (cases "e \<notin> set (x_required p) \<or> dict_get (x_observed p) e \<noteq> None")
      case True
      then have "observe i echo now s = (s, None)"
        using assms by (auto simp: observe_cases Let_def)
      then show ?thesis
        using True assms(2) by (auto simp: map_of_eq_None_iff dest: dict_get_in)
    next
      case False
      then have "observe i echo now s = (s\<lparr>pending := dict_set (probe_key i) (record_echo e now p) (pending s)\<rparr>, None)"
        using assms part record_echo_complete [OF ok] by (auto simp: observe_cases Let_def)
      then show ?thesis
        using keys_dict_set [of e now "x_observed p"] by (auto simp: dict_get_set record_echo_def)
    qed
  }
qed

lemma observe_late:
  assumes "dict_get (pending s) (probe_key i) = Some p" and "x_deadline_at p < now"
  shows "observe i echo now s = (s\<lparr>pending := dict_del (probe_key i) (pending s)\<rparr>,
    Some (outcome_of (probe_key i) p ''missed'' (x_deadline_at p)))"
  using assms by (simp add: observe_cases Let_def)

text \<open>The outcomes of a sequence of observations of one probe.\<close>

fun observe_list :: "string \<Rightarrow> engine \<Rightarrow> (string \<times> rat) list \<Rightarrow> outcome list" where
  "observe_list i s [] = []"
| "observe_list i s ((e, t) # es) =
     (case observe i e t s of (s', r) \<Rightarrow> (case r of None \<Rightarrow> [] | Some o' \<Rightarrow> [o']) @ observe_list i s' es)"

lemma observe_list_unknown: "dict_get (pending s) (probe_key i) = None \<Longrightarrow> observe_list i s es = []"
  by (induction es) (auto simp: observe_cases)

lemma observe_list_completes:
  assumes "engine_inv s" and "dict_get (pending s) (probe_key i) = Some p"
    and "\<forall>(e, t) \<in> set es. t \<le> x_deadline_at p"
    and "set (x_required p) \<subseteq> set (dict_keys (x_observed p)) \<union> (\<lambda>(e, t). take 128 (py_strip e)) ` set es"
  shows "\<exists>out. observe_list i s es = [out] \<and> o_status out = ''satisfied'' \<and> o_missing out = []
    \<and> o_observed out = x_required p \<and> o_contract out = x_name p"
  using assms
proof (induction es arbitrary: s p)
  case Nil
  then show ?case
    using engine_inv_get [OF Nil(1,2)] by (auto simp: expectation_ok_def)
next
  case (Cons et es)
  obtain e t where et: "et = (e, t)"
    by (cases et)
  let ?e = "take 128 (py_strip e)"
  have t: "t \<le> x_deadline_at p"
    using Cons.prems(3) by (simp add: et)
  note ok = conjunct2 [OF engine_inv_get [OF Cons.prems(1,2)]]
  show ?case
  proof (cases "insert ?e (set (dict_keys (x_observed p))) = set (x_required p)")
    case True
    note obs = observe_Some(1) [OF Cons.prems(1,2) refl t True]
    have "observe_list i (s\<lparr>pending := dict_del (probe_key i) (pending s)\<rparr>) es = []"
      by (rule observe_list_unknown) (simp add: dict_get_del)
    then show ?thesis
      using record_echo_missing [OF ok True] by (simp add: et obs) (simp add: outcome_of_def record_echo_def)
  next
    case False
    obtain s' p' where s': "observe i e t s = (s', None)" and p': "dict_get (pending s') (probe_key i) = Some p'"
      and eqs: "x_required p' = x_required p" "x_deadline_at p' = x_deadline_at p" "x_name p' = x_name p"
      and sub: "set (x_required p) \<inter> insert ?e (set (dict_keys (x_observed p))) \<subseteq> set (dict_keys (x_observed p'))"
      using observe_Some(2) [OF Cons.prems(1,2) refl t False] by blast
    have inv: "engine_inv s'"
      using observe_inv [OF Cons.prems(1), of i e t] by (simp add: s')
    have "set (x_required p') \<subseteq> set (dict_keys (x_observed p')) \<union> (\<lambda>(e, t). take 128 (py_strip e)) ` set es"
      using Cons.prems(4) sub unfolding eqs et by auto
    with Cons.IH [OF inv p'] Cons.prems(3) eqs show ?thesis
      by (simp add: et s')
  qed
qed

section \<open>Properties\<close>

text \<open>
  C37: Whatever operations run on a new engine, in any order and with any arguments, the number of
  pending expectations never exceeds the configured bound, keys are unique, and every pending
  expectation is still incomplete, with observations of required echoes made by its deadline.
\<close>

theorem engine_runs_bounded:
  "engine_inv (foldl engine_step (new_engine n) es)
   \<and> pending_count (foldl engine_step (new_engine n) es) \<le> max_pending (foldl engine_step (new_engine n) es)"
  using expectations.inv_run [OF engine_inv_new, of n es] by (simp add: engine_inv_def pending_count_def)

text \<open>
  Once a probe is armed, observing every required echo by its deadline, in any order and mixed
  with repeated or unrelated echoes, reports the probe satisfied exactly once, with nothing missing.
\<close>

theorem armed_probe_completes:
  assumes "engine_inv s" and "normalize_contract c = Some (name, echoes, d)" and "arm i c now s = (s', True)"
    and "\<forall>(e, t) \<in> set es. t \<le> now + d" and "set echoes \<subseteq> (\<lambda>(e, t). take 128 (py_strip e)) ` set es"
  shows "\<exists>out. observe_list i s' es = [out] \<and> o_status out = ''satisfied'' \<and> o_missing out = []
    \<and> o_observed out = echoes \<and> o_contract out = name"
proof -
  let ?p = "\<lparr>x_name = name, x_required = echoes, x_started = now, x_deadline_at = now + d, x_observed = []\<rparr>"
  have "dict_get (pending s') (probe_key i) = Some ?p"
    using assms(2,3) by (auto simp: arm_def Let_def dict_get_set split: if_splits)
  moreover have "engine_inv s'"
    using arm_inv [OF assms(1), of i c now] by (simp add: assms(3))
  ultimately show ?thesis
    using observe_list_completes [of s' i ?p es] assms(4,5) by simp
qed

theorem armed_probe_completes_witness:
  "let c = \<lparr>c_name = ''p'', c_required = [''a'', ''b''], c_deadline = Fin 5\<rparr>;
       s' = fst (arm ''x'' c 10 (new_engine 2))
   in \<exists>out. observe_list ''x'' s' [(''b'', 11), (''z'', 12), (''b'', 12), (''a'', 13)] = [out]
        \<and> o_status out = ''satisfied'' \<and> o_observed out = [''a'', ''b'']"
proof -
  let ?c = "\<lparr>c_name = ''p'', c_required = [''a'', ''b''], c_deadline = Fin 5\<rparr>"
  have n: "normalize_contract ?c = Some (''p'', [''a'', ''b''], 5)"
    by (simp add: normalize_contract_def py_strip_def py_space_def first_seen_def)
  have a: "arm ''x'' ?c 10 (new_engine 2) = (fst (arm ''x'' ?c 10 (new_engine 2)), True)"
    by (simp add: arm_def n new_engine_def probe_key_def py_strip_def py_space_def)
  have "set [''a'', ''b''] \<subseteq> (\<lambda>(e, t). take 128 (py_strip e)) ` set [(''b'', 11), (''z'', 12), (''b'', 12), (''a'', 13)]"
    by (simp add: py_strip_def py_space_def)
  with armed_probe_completes [OF engine_inv_new n a, of "[(''b'', 11), (''z'', 12), (''b'', 12), (''a'', 13)]"]
  show ?thesis by auto
qed

text \<open>
  A single observation reports \<open>satisfied\<close> only by the deadline and only when it is the
  last missing required echo; after the deadline it reports \<open>missed\<close>, whatever the echo.
\<close>

theorem observe_outcome_exact:
  assumes "engine_inv s" and "dict_get (pending s) (probe_key i) = Some p" and "e = take 128 (py_strip echo)"
  shows "((\<exists>out. snd (observe i echo now s) = Some out \<and> o_status out = ''satisfied'')
      \<longleftrightarrow> now \<le> x_deadline_at p \<and> e \<notin> set (dict_keys (x_observed p))
          \<and> insert e (set (dict_keys (x_observed p))) = set (x_required p))
    \<and> (x_deadline_at p < now \<longrightarrow> observe i echo now s
         = (s\<lparr>pending := dict_del (probe_key i) (pending s)\<rparr>,
            Some (outcome_of (probe_key i) p ''missed'' (x_deadline_at p))))"
proof (cases "now \<le> x_deadline_at p")
  case True
  have strict: "set (dict_keys (x_observed p)) \<subset> set (x_required p)"
    using engine_inv_get [OF assms(1,2)] by (simp add: expectation_ok_def)
  show ?thesis
  proof (cases "insert e (set (dict_keys (x_observed p))) = set (x_required p)")
    case full: True
    with strict True show ?thesis
      using observe_Some(1) [OF assms True full] by (auto simp: outcome_of_def insert_absorb)
  next
    case part: False
    with True show ?thesis
      using observe_Some(2) [OF assms True part] by auto
  qed
next
  case False
  then show ?thesis
    using observe_late [OF assms(2), of now echo] by (auto simp: outcome_of_def)
qed

theorem observe_outcome_exact_witness:
  "let s = fst (arm ''x'' \<lparr>c_name = ''p'', c_required = [''a''], c_deadline = Fin 5\<rparr> 10 (new_engine 2))
   in (\<exists>out. snd (observe ''x'' '' a '' 15 s) = Some out \<and> o_status out = ''satisfied'')
      \<and> (\<exists>out. snd (observe ''x'' ''a'' 16 s) = Some out \<and> o_status out = ''missed'')"
proof -
  let ?c = "\<lparr>c_name = ''p'', c_required = [''a''], c_deadline = Fin 5\<rparr>"
  let ?p = "\<lparr>x_name = ''p'', x_required = [''a''], x_started = 10, x_deadline_at = 15, x_observed = []\<rparr>"
  let ?s = "fst (arm ''x'' ?c 10 (new_engine 2))"
  have strip: "py_strip ''a'' = ''a''" "py_strip '' a '' = ''a''" "probe_key ''x'' = ''x''"
    by (simp_all add: py_strip_def py_space_def probe_key_def)
  have s: "dict_get (pending ?s) (probe_key ''x'') = Some ?p"
    by (simp add: arm_def normalize_contract_def new_engine_def py_strip_def py_space_def probe_key_def first_seen_def)
  have inv: "engine_inv ?s"
    by (rule arm_inv [OF engine_inv_new])
  show ?thesis
    using observe_outcome_exact [OF inv s, of "''a''" "'' a ''" 15] observe_outcome_exact [OF inv s, of "''a''" "''a''" 16] strip
    by (auto simp: Let_def outcome_of_def)
qed

text \<open>
  Expiry reports and removes exactly the expectations whose deadline has been reached, in the
  order they were armed, and leaves every other one as it was.
\<close>

theorem expire_exact:
  assumes "engine_inv s"
  shows "expire now s =
    (s\<lparr>pending := filter (\<lambda>(_, p). now < x_deadline_at p) (pending s)\<rparr>,
     map (\<lambda>(k, p). outcome_of k p ''missed'' (x_deadline_at p))
       (filter (\<lambda>(_, p). x_deadline_at p \<le> now) (pending s)))"
  using assms by (intro expire_eq) (simp add: engine_inv_def)

theorem expire_exact_witness:
  "let s = fst (arm ''x'' \<lparr>c_name = ''p'', c_required = [''a''], c_deadline = Fin 5\<rparr> 10 (new_engine 2))
   in map o_probe (snd (expire 15 s)) = [''x''] \<and> pending (fst (expire 15 s)) = []"
proof -
  let ?c = "\<lparr>c_name = ''p'', c_required = [''a''], c_deadline = Fin 5\<rparr>"
  let ?s = "fst (arm ''x'' ?c 10 (new_engine 2))"
  have "map o_probe (snd (expire 15 ?s)) = [''x''] \<and> pending (fst (expire 15 ?s)) = []"
    unfolding expire_exact [OF arm_inv [OF engine_inv_new]]
    by (simp add: arm_def normalize_contract_def new_engine_def py_strip_def py_space_def probe_key_def
        first_seen_def outcome_of_def)
  then show ?thesis by (simp add: Let_def)
qed

end
