(* ===== verification/Chill_Policy.thy ===== *)
theory Chill_Policy
  imports Angerona_Prelude
begin

text \<open>
  The low-impact monitoring policy of \<^verbatim>\<open>src/angerona/core/chill_mode.py\<close>: which modules it
  pauses or slows, the operator's latch on local AI, and the escalation and cooldown state
  machine \<open>ChillPolicy\<close>.  Each operation runs under the policy's lock and reads the clock at most
  once; the reading is an argument.
\<close>

section \<open>The profile\<close>

definition chill_paused_modules :: "string list" where
  "chill_paused_modules =
  [''Shadow Shield'',
   ''File Integrity Monitor'',
   ''Memory Time-Machine'',
   ''Memory Injection Scanner'',
   ''YARA Scanner'',
   ''AI Model Integrity Guard'',
   ''Packet Sniffer'',
   ''API Patch / Anti-Blinding Detector'',
   ''Persistence Sweep'',
   ''Data Provenance Graph'',
   ''Hardware-Rooted Integrity'',
   ''Kernel-Boundary Posture Ledger'',
   ''Compliance Mapper'',
   ''CHAOS'',
   ''AI Triage (Ollama)'',
   ''Speculative Triage Pre-Warm'',
   ''Scheduled AI Security Briefing'',
   ''Smart Deception'']"

definition chill_throttle_floors :: "(string, rat) dict" where
  "chill_throttle_floors =
  [(''Posture Hardening'', 8),
   (''HEAL'', 6),
   (''TUNE'', 8),
   (''In-Memory Flight Cache'', 8),
   (''Evidence Lattice Fusion'', 8),
   (''Storage Hygiene Enforcer'', 8),
   (''Ransomware Heuristics'', 4),
   (''Process Monitor'', 2),
   (''WLAN Monitor'', 2),
   (''ARP Watchdog'', 2),
   (''Network Protocol Deep Decoder'', 2),
   (''Self-Integrity Monitor'', 4)]"

section \<open>The AI latch\<close>

text \<open>The configuration attribute (absent at first) and the environment variable.\<close>

record ai_latch =
  runtime_blocked :: "bool option"
  env_blocked :: "string option"

definition set_chill_ai_blocked :: "bool \<Rightarrow> ai_latch \<Rightarrow> ai_latch" where
  "set_chill_ai_blocked blocked c =
     c\<lparr>runtime_blocked := Some blocked, env_blocked := (if blocked then Some ''1'' else None)\<rparr>"

definition chill_ai_blocked :: "ai_latch \<Rightarrow> bool" where
  "chill_ai_blocked c \<longleftrightarrow>
     (case runtime_blocked c of None \<Rightarrow> False | Some b \<Rightarrow> b)
     \<or> py_casefold (py_strip (case env_blocked c of None \<Rightarrow> ''0'' | Some s \<Rightarrow> s))
         \<in> {''1'', ''true'', ''yes'', ''on''}"

section \<open>Escalation and cooldown\<close>

record chill =
  quiet_seconds :: rat
  enabled :: bool
  escalated :: bool
  awake_until :: rat

record transition =
  t_action :: string
  t_reason :: string
  t_active_count :: nat

definition new_chill :: "rat \<Rightarrow> chill option" where
  "new_chill quiet =
     (if \<not> (1 \<le> quiet \<and> quiet \<le> 24 * 60 * 60) then None
      else Some \<lparr>quiet_seconds = quiet, enabled = False, escalated = False, awake_until = 0\<rparr>)"

definition enable :: "chill \<Rightarrow> chill" where
  "enable c = c\<lparr>enabled := True, escalated := False, awake_until := 0\<rparr>"

definition disable :: "chill \<Rightarrow> chill" where
  "disable c = c\<lparr>enabled := False, escalated := False, awake_until := 0\<rparr>"

definition observe_active :: "'e list \<Rightarrow> rat \<Rightarrow> chill \<Rightarrow> chill \<times> transition option" where
  "observe_active active now c =
     (if active = [] then (c, None)
      else if \<not> enabled c then (c, None)
      else
        let c1 = c\<lparr>awake_until := max (awake_until c) (now + quiet_seconds c)\<rparr> in
        if escalated c1
        then (c1, Some \<lparr>t_action = ''extend'',
               t_reason = ''additional live hostile evidence extended the awake window'',
               t_active_count = length active\<rparr>)
        else (c1\<lparr>escalated := True\<rparr>, Some \<lparr>t_action = ''escalate'',
               t_reason = ''live hostile evidence requires deep verification'',
               t_active_count = length active\<rparr>))"

definition force_escalate :: "string \<Rightarrow> rat \<Rightarrow> chill \<Rightarrow> chill \<times> transition option" where
  "force_escalate reason now c =
     (if \<not> enabled c then (c, None)
      else
        let c1 = c\<lparr>awake_until := max (awake_until c) (now + quiet_seconds c)\<rparr> in
        if escalated c1
        then (c1, Some \<lparr>t_action = ''extend'', t_reason = reason, t_active_count = 0\<rparr>)
        else (c1\<lparr>escalated := True\<rparr>,
              Some \<lparr>t_action = ''escalate'', t_reason = reason, t_active_count = 0\<rparr>))"

definition tick :: "rat \<Rightarrow> chill \<Rightarrow> chill \<times> transition option" where
  "tick now c =
     (if \<not> enabled c \<or> \<not> escalated c then (c, None)
      else if now < awake_until c then (c, None)
      else (c\<lparr>escalated := False, awake_until := 0\<rparr>,
            Some \<lparr>t_action = ''cooldown'',
              t_reason = ''quiet window completed with no new active threat'', t_active_count = 0\<rparr>))"

definition remaining_seconds :: "rat \<Rightarrow> chill \<Rightarrow> rat" where
  "remaining_seconds now c =
     (if \<not> enabled c \<or> \<not> escalated c then 0 else max 0 (awake_until c - now))"

section \<open>Runs\<close>

datatype chill_event = Enable | Disable | Active nat rat | Force string rat | Tick rat

fun chill_step :: "chill \<Rightarrow> chill_event \<Rightarrow> chill" where
  "chill_step c Enable = enable c"
| "chill_step c Disable = disable c"
| "chill_step c (Active n now) = fst (observe_active (replicate n ()) now c)"
| "chill_step c (Force reason now) = fst (force_escalate reason now c)"
| "chill_step c (Tick now) = fst (tick now c)"

definition chill_inv :: "chill \<Rightarrow> bool" where
  "chill_inv c \<longleftrightarrow> 1 \<le> quiet_seconds c \<and> quiet_seconds c \<le> 86400
     \<and> (escalated c \<longrightarrow> enabled c) \<and> (\<not> escalated c \<longrightarrow> awake_until c = 0)"

lemmas chill_defs = enable_def disable_def observe_active_def force_escalate_def tick_def Let_def

lemma chill_step_inv: "chill_inv c \<Longrightarrow> chill_inv (chill_step c e)"
  by (cases e) (auto simp: chill_inv_def chill_defs)

interpretation chill: machine chill_step chill_inv
  by unfold_locales (rule chill_step_inv)

text \<open>Events that neither switch the mode nor reach the time \<open>limit\<close>.\<close>

fun quiet_event :: "rat \<Rightarrow> chill_event \<Rightarrow> bool" where
  "quiet_event limit Enable = False"
| "quiet_event limit Disable = False"
| "quiet_event limit (Active n now) = True"
| "quiet_event limit (Force reason now) = True"
| "quiet_event limit (Tick now) = (now < limit)"

definition awake_for :: "rat \<Rightarrow> chill \<Rightarrow> bool" where
  "awake_for limit c \<longleftrightarrow> enabled c \<and> escalated c \<and> limit \<le> awake_until c"

lemma awake_for_step: "awake_for limit c \<Longrightarrow> quiet_event limit e \<Longrightarrow> awake_for limit (chill_step c e)"
  by (cases e) (auto simp: awake_for_def chill_defs)

lemma awake_for_run: "awake_for limit c \<Longrightarrow> \<forall>e \<in> set es. quiet_event limit e \<Longrightarrow> awake_for limit (foldl chill_step c es)"
  by (induction es arbitrary: c) (auto intro: awake_for_step)

lemma quiet_seconds_step [simp]: "quiet_seconds (chill_step c e) = quiet_seconds c"
  by (cases e) (auto simp: chill_defs)

lemma quiet_seconds_run [simp]: "quiet_seconds (foldl chill_step c es) = quiet_seconds c"
  by (induction es arbitrary: c) auto

section \<open>Properties\<close>

text \<open>
  C38: After hostile evidence at time \<open>t\<close> in an enabled policy, the sensors stay awake at least
  until \<open>t\<close> plus the quiet period: no sequence of further evidence, forced wakes and ticks before
  that time cools the policy down, and the first tick that does reports \<open>cooldown\<close> at or after it.
\<close>

theorem awake_for_quiet_window:
  assumes "enabled c" and "0 < n" and "\<forall>e \<in> set es. quiet_event (t + quiet_seconds c) e"
  defines "c' \<equiv> foldl chill_step c (Active n t # es)"
  shows "escalated c' \<and> (\<forall>now. snd (tick now c') \<noteq> None \<longrightarrow> t + quiet_seconds c \<le> now)"
proof -
  have "awake_for (t + quiet_seconds c) (chill_step c (Active n t))"
    using assms(1,2) by (auto simp: awake_for_def chill_defs)
  then have "awake_for (t + quiet_seconds c) c'"
    using awake_for_run assms(3) by (simp add: c'_def)
  then show ?thesis
    by (auto simp: awake_for_def tick_def)
qed

theorem awake_for_quiet_window_witness:
  "let c = \<lparr>quiet_seconds = 600, enabled = True, escalated = False, awake_until = 0\<rparr>
   in escalated (foldl chill_step c [Active 2 100, Tick 300, Force ''drill'' 400, Tick 699])"
  using awake_for_quiet_window [of "\<lparr>quiet_seconds = 600, enabled = True, escalated = False, awake_until = 0\<rparr>"
      2 "[Tick 300, Force ''drill'' 400, Tick 699]" 100]
  by simp

text \<open>
  In every run of a policy that the constructor accepts, an escalated policy is enabled, a
  policy that is not escalated holds no awake deadline, and the remaining time is zero exactly when
  a tick at that moment would not keep it awake.
\<close>

theorem chill_runs_consistent:
  fixes es :: "chill_event list"
  assumes "new_chill quiet = Some c0"
  defines "c \<equiv> foldl chill_step c0 es"
  shows "chill_inv c \<and> (remaining_seconds now c = 0 \<longleftrightarrow> \<not> escalated (fst (tick now c)))"
proof -
  have "chill_inv c0"
    using assms(1) by (auto simp: new_chill_def chill_inv_def split: if_splits)
  then have "chill_inv c"
    unfolding c_def by (rule chill.inv_run)
  then show ?thesis
    by (auto simp: remaining_seconds_def tick_def chill_inv_def)
qed

theorem chill_runs_consistent_witness:
  "\<exists>c0. new_chill 600 = Some c0 \<and> chill_inv (foldl chill_step c0 [Enable, Active 1 5, Tick 700])"
proof -
  obtain c0 where "new_chill 600 = Some c0"
    by (simp add: new_chill_def)
  with chill_runs_consistent [of 600 c0 "[Enable, Active 1 5, Tick 700]"] show ?thesis by blast
qed

text \<open>
  The profile never both pauses and slows a module, names each once, every floor is at least
  2, and the operator's latch reads back what was set.
\<close>

theorem chill_profile_consistent:
  "set chill_paused_modules \<inter> set (dict_keys chill_throttle_floors) = {}
   \<and> distinct chill_paused_modules \<and> dict_wf chill_throttle_floors
   \<and> list_all (\<lambda>v. 2 \<le> v) (map snd chill_throttle_floors)
   \<and> chill_ai_blocked (set_chill_ai_blocked b c) = b"
proof (intro conjI)
  show "chill_ai_blocked (set_chill_ai_blocked b c) = b"
    by (cases b) (simp_all add: chill_ai_blocked_def set_chill_ai_blocked_def py_casefold_def
        lower_char_def py_strip_def py_space_def)
qed (simp_all add: chill_paused_modules_def chill_throttle_floors_def dict_wf_def)

end
