(* ===== verification/Usb_Policy.thy ===== *)
theory Usb_Policy
  imports Angerona_Prelude
begin

text \<open>
  The removable-media approval gate of \<^verbatim>\<open>src/angerona/core/usb_policy.py\<close>: PIN enrollment and
  reset, one approval record per mounted volume, PIN verification, denial, cancellation, removal,
  and the authorization lookup of a scan target.  The policy's operations run under its lock.

  Outside the sources, and arguments here: \<open>npath\<close>, the platform's path normalisation
  (\<open>normcase\<close> of \<open>normpath\<close>), \<open>inside\<close>, its lexical containment test, the clock, the random
  tokens, whether the credential store accepts a write, and what the identity provider answers.
\<close>

section \<open>PIN format and the credential store\<close>

definition digit :: "char \<Rightarrow> bool" where
  "digit c \<longleftrightarrow> (let n = (of_char c :: nat) in 48 \<le> n \<and> n \<le> 57)"

definition pin_ok :: "string \<Rightarrow> bool" where
  "pin_ok s \<longleftrightarrow> 4 \<le> length s \<and> length s \<le> 12 \<and> list_all digit s"

definition pin_configured :: "string option \<Rightarrow> bool" where
  "pin_configured stored \<longleftrightarrow> (case stored of None \<Rightarrow> False | Some s \<Rightarrow> pin_ok s)"

text \<open>The candidate and the empty reason, or no candidate and the reason of the refusal.\<close>

definition validate_pin_change :: "string \<Rightarrow> string \<Rightarrow> string \<times> string" where
  "validate_pin_change candidate repeated =
     (if \<not> pin_ok candidate then ('''', ''invalid_format'')
      else if \<not> pin_ok repeated \<or> candidate \<noteq> repeated then ('''', ''confirmation_mismatch'')
      else (candidate, ''''))"

section \<open>State\<close>

datatype usb_state = Pending | Trusted | Denied | Locked | EnrollmentRequired | IdentityUnavailable | Untrusted

record approval =
  approval_id :: string
  mountpoint :: string
  detected_at :: rat
  autorun_present :: bool
  state :: usb_state
  attempts_remaining :: nat
  locked_until :: rat
  policy_enforced :: bool
  volume_id :: string
  cancelled :: bool

record usb_view =
  v_approval_id :: string
  v_mountpoint :: string
  v_detected_at :: rat
  v_autorun_present :: bool
  v_state :: usb_state
  v_attempts_remaining :: nat
  v_locked_until :: rat
  v_policy_enforced :: bool

definition view_of :: "approval \<Rightarrow> usb_view" where
  "view_of r = \<lparr>v_approval_id = approval_id r, v_mountpoint = mountpoint r, v_detected_at = detected_at r,
     v_autorun_present = autorun_present r, v_state = state r,
     v_attempts_remaining = attempts_remaining r, v_locked_until = locked_until r,
     v_policy_enforced = policy_enforced r\<rparr>"

record decision =
  d_approved :: bool
  d_state :: usb_state
  d_reason :: string
  d_approval_id :: string
  d_mountpoint :: string
  d_attempts_remaining :: nat
  d_locked_until :: rat

definition decision_of :: "approval \<Rightarrow> bool \<Rightarrow> string \<Rightarrow> decision" where
  "decision_of r approved reason = \<lparr>d_approved = approved, d_state = state r, d_reason = reason,
     d_approval_id = approval_id r, d_mountpoint = mountpoint r,
     d_attempts_remaining = attempts_remaining r, d_locked_until = locked_until r\<rparr>"

definition unknown_decision :: decision where
  "unknown_decision = \<lparr>d_approved = False, d_state = Untrusted, d_reason = ''unknown_approval'',
     d_approval_id = '''', d_mountpoint = '''', d_attempts_remaining = 0, d_locked_until = 0\<rparr>"

record policy =
  max_mounts :: nat
  require_identity :: bool
  by_id :: "(string, approval) dict"
  by_mount :: "(string, string) dict"
  pin_reset_required :: bool

definition new_policy :: "int \<Rightarrow> rat \<Rightarrow> int \<Rightarrow> bool \<Rightarrow> policy option" where
  "new_policy max_attempts lockout_seconds mounts need_identity =
     (if \<not> (1 \<le> max_attempts \<and> max_attempts \<le> 10) then None
      else if \<not> (1 \<le> lockout_seconds \<and> lockout_seconds \<le> 86400) then None
      else if \<not> (1 \<le> mounts \<and> mounts \<le> 512) then None
      else Some \<lparr>max_mounts = nat mounts, require_identity = need_identity, by_id = [],
             by_mount = [], pin_reset_required = False\<rparr>)"

section \<open>Requests\<close>

datatype usb_error = UsbValueError string | UsbTypeError

definition mount_key :: "(string \<Rightarrow> string) \<Rightarrow> string \<Rightarrow> string option" where
  "mount_key npath m =
     (let t = py_strip m in
      if t = [] \<or> 512 < length t \<or> (\<exists>c \<in> set t. (of_char c :: nat) < 32) then None else Some (npath t))"

definition volume_key :: "string \<Rightarrow> string option" where
  "volume_key v =
     (let t = py_casefold (py_strip v) in
      if 256 < length t \<or> (\<exists>c \<in> set t. (of_char c :: nat) < 32) then None else Some t)"

definition put_record :: "approval \<Rightarrow> policy \<Rightarrow> policy" where
  "put_record r p = p\<lparr>by_id := dict_set (approval_id r) r (by_id p)\<rparr>"

definition remove_locked :: "string \<Rightarrow> policy \<Rightarrow> policy \<times> bool" where
  "remove_locked m p =
     (case dict_get (by_mount p) m of
        None \<Rightarrow> (p, False)
      | Some token \<Rightarrow>
          (p\<lparr>by_mount := dict_del m (by_mount p), by_id := dict_del token (by_id p)\<rparr>, True))"

text \<open>\<open>min(values, key=detected_at)\<close>: the first of the earliest records.\<close>

fun oldest :: "approval list \<Rightarrow> approval option" where
  "oldest [] = None"
| "oldest (r # rs) =
     (case oldest rs of None \<Rightarrow> Some r
      | Some r' \<Rightarrow> Some (if detected_at r' < detected_at r then r' else r))"

definition add_request :: "string \<Rightarrow> bool \<Rightarrow> bool \<Rightarrow> string \<Rightarrow> rat \<Rightarrow> bool \<Rightarrow> string \<Rightarrow> (policy, usb_error, usb_view) oper" where
  "add_request key autorun enforced identity now pin_ready token p =
     (let finish = (\<lambda>p1.
        let r = \<lparr>approval_id = token, mountpoint = key, detected_at = now, autorun_present = autorun,
              state = (if pin_reset_required p1 then Locked else Pending),
              attempts_remaining = (if \<not> pin_reset_required p1 \<and> pin_ready then 1 else 0),
              locked_until = 0, policy_enforced = enforced, volume_id = identity, cancelled = False\<rparr>
        in ((put_record r p1)\<lparr>by_mount := dict_set key token (by_mount p1)\<rparr>, Inr (view_of r)))
      in if max_mounts p \<le> length (by_mount p)
         then case oldest (map snd (by_id p)) of
                None \<Rightarrow> (p, Inl (UsbValueError ''min of an empty sequence''))
              | Some old \<Rightarrow> finish (fst (remove_locked (mountpoint old) p))
         else finish p)"

definition request :: "(string \<Rightarrow> string) \<Rightarrow> string \<Rightarrow> bool \<Rightarrow> bool \<Rightarrow> string \<Rightarrow> rat \<Rightarrow> bool \<Rightarrow> string
    \<Rightarrow> (policy, usb_error, usb_view) oper" where
  "request npath m autorun enforced volume now pin_ready token p =
     (case mount_key npath m of
        None \<Rightarrow> (p, Inl (UsbValueError ''mount point''))
      | Some key \<Rightarrow>
        case volume_key volume of
          None \<Rightarrow> (p, Inl (UsbValueError ''volume identity''))
        | Some identity \<Rightarrow>
          let add = add_request key autorun enforced identity now pin_ready token in
          case dict_get (by_mount p) key of
            None \<Rightarrow> add p
          | Some existing_id \<Rightarrow>
              if existing_id = [] then add p
              else case dict_get (by_id p) existing_id of
                None \<Rightarrow> add p
              | Some existing \<Rightarrow>
                  if identity \<noteq> [] \<and> volume_id existing \<noteq> identity
                  then if volume_id existing \<noteq> [] \<or> state existing = Trusted
                       then add (fst (remove_locked key p))
                       else let r = existing\<lparr>volume_id := identity\<rparr>
                            in (p\<lparr>by_id := dict_set existing_id r (by_id p)\<rparr>, Inr (view_of r))
                  else (p, Inr (view_of existing)))"

section \<open>Decisions\<close>

definition lock_record :: "approval \<Rightarrow> approval" where
  "lock_record r = r\<lparr>state := Locked, attempts_remaining := 0, locked_until := 0\<rparr>"

definition lock_all :: "policy \<Rightarrow> policy" where
  "lock_all p = p\<lparr>by_id := map (\<lambda>(t, r). (t, lock_record r)) (by_id p), pin_reset_required := True\<rparr>"

text \<open>
  \<open>expected\<close> is what the credential loader returned (\<open>None\<close> also when it raised).  The
  comparison is always carried out, against a dummy where the stored or presented value is not
  a PIN.
\<close>

definition dummy_pin :: string where "dummy_pin = ''000000''"

definition verify :: "string \<Rightarrow> string \<Rightarrow> string option \<Rightarrow> policy \<Rightarrow> policy \<times> decision" where
  "verify token presented expected p =
     (let candidate = py_strip presented;
          valid_expected = pin_configured expected;
          compare_target = (if valid_expected then the expected else dummy_pin);
          candidate_for_compare = (if pin_ok candidate then candidate else dummy_pin);
          matched = (candidate_for_compare = compare_target)
      in case dict_get (by_id p) token of
           None \<Rightarrow> (p, unknown_decision)
         | Some r \<Rightarrow>
             if cancelled r then (p, decision_of r False ''operator_denied'')
             else if state r = Trusted then (p, decision_of r True ''already_approved'')
             else if state r = Denied then (p, decision_of r False ''operator_denied'')
             else if pin_reset_required p \<or> state r = Locked
             then let r' = lock_record r
                  in (p\<lparr>by_id := dict_set token r' (by_id p)\<rparr>, decision_of r' False ''locked'')
             else if \<not> valid_expected
             then let r' = r\<lparr>state := EnrollmentRequired, attempts_remaining := 0\<rparr>
                  in (p\<lparr>by_id := dict_set token r' (by_id p)\<rparr>, decision_of r' False ''pin_not_configured'')
             else if require_identity p \<and> volume_id r = []
             then let r' = r\<lparr>state := IdentityUnavailable, attempts_remaining := 1\<rparr>
                  in (p\<lparr>by_id := dict_set token r' (by_id p)\<rparr>, decision_of r' False ''identity_unavailable'')
             else if matched \<and> pin_ok candidate
             then let r' = r\<lparr>state := Trusted, attempts_remaining := 1, locked_until := 0\<rparr>
                  in (p\<lparr>by_id := dict_set token r' (by_id p)\<rparr>, decision_of r' True ''approved'')
             else (lock_all p, decision_of (lock_record r) False ''locked''))"

definition deny :: "string \<Rightarrow> policy \<Rightarrow> policy \<times> decision" where
  "deny token p =
     (case dict_get (by_id p) token of
        None \<Rightarrow> (p, unknown_decision)
      | Some r \<Rightarrow> let r' = r\<lparr>state := Denied, locked_until := 0\<rparr>
          in (p\<lparr>by_id := dict_set token r' (by_id p)\<rparr>, decision_of r' False ''operator_denied''))"

definition cancel :: "string \<Rightarrow> policy \<Rightarrow> policy \<times> decision" where
  "cancel token p =
     (case dict_get (by_id p) token of
        None \<Rightarrow> (p, unknown_decision)
      | Some r \<Rightarrow> let r' = r\<lparr>cancelled := True, state := Denied, locked_until := 0\<rparr>
          in (p\<lparr>by_id := dict_set token r' (by_id p)\<rparr>, decision_of r' False ''operator_denied''))"

definition pending_states :: "usb_state set" where
  "pending_states = {EnrollmentRequired, Pending, Locked, IdentityUnavailable}"

definition pending :: "policy \<Rightarrow> usb_view list" where
  "pending p = sort_key v_detected_at
     (map view_of (filter (\<lambda>r. state r \<in> pending_states) (map snd (by_id p))))"

definition trust_state :: "(string \<Rightarrow> string) \<Rightarrow> string \<Rightarrow> policy \<Rightarrow> usb_state" where
  "trust_state npath m p =
     (case mount_key npath m of
        None \<Rightarrow> Untrusted
      | Some key \<Rightarrow>
          (case dict_get (by_id p) (dict_get_or (by_mount p) key '''') of
             None \<Rightarrow> Untrusted | Some r \<Rightarrow> state r))"

definition approval_binding :: "string \<Rightarrow> policy \<Rightarrow> (string \<times> string) option" where
  "approval_binding token p =
     (case dict_get (by_id p) token of None \<Rightarrow> None | Some r \<Rightarrow> Some (mountpoint r, volume_id r))"

section \<open>Removal and reset\<close>

definition remove :: "(string \<Rightarrow> string) \<Rightarrow> string \<Rightarrow> policy \<Rightarrow> policy \<times> bool" where
  "remove npath m p = (case mount_key npath m of None \<Rightarrow> (p, False) | Some key \<Rightarrow> remove_locked key p)"

definition retain_mounts :: "(string \<Rightarrow> string) \<Rightarrow> string list \<Rightarrow> policy \<Rightarrow> policy" where
  "retain_mounts npath ms p =
     (let current = set (List.map_filter (mount_key npath) ms)
      in foldl (\<lambda>q key. if key \<notin> current then fst (remove_locked key q) else q) p (dict_keys (by_mount p)))"

text \<open>\<open>fresh\<close> gives the token that replaces a cancelled request's token.\<close>

definition reset_record :: "(string \<Rightarrow> string) \<Rightarrow> policy \<Rightarrow> approval \<Rightarrow> policy" where
  "reset_record fresh p r =
     (if cancelled r
      then let r' = r\<lparr>approval_id := fresh (approval_id r), state := Pending, attempts_remaining := 1,
                      locked_until := 0, cancelled := False\<rparr>
           in p\<lparr>by_id := dict_set (approval_id r') r' (dict_del (approval_id r) (by_id p)),
                by_mount := dict_set (mountpoint r) (approval_id r') (by_mount p)\<rparr>
      else put_record (r\<lparr>state := Pending, attempts_remaining := 1, locked_until := 0\<rparr>) p)"

definition on_pin_reset :: "(string \<Rightarrow> string) \<Rightarrow> policy \<Rightarrow> policy" where
  "on_pin_reset fresh p =
     foldl (reset_record fresh) (p\<lparr>pin_reset_required := False\<rparr>) (map snd (by_id p))"

section \<open>Scan targets\<close>

text \<open>\<open>max(matches, key=len)\<close>: the first of the longest mount points.\<close>

fun longest :: "string list \<Rightarrow> string option" where
  "longest [] = None"
| "longest (m # ms) =
     (case longest ms of None \<Rightarrow> Some m | Some m' \<Rightarrow> Some (if length m < length m' then m' else m))"

datatype target_answer =
  NotOwned \<comment> \<open>no mount of this policy contains the target\<close>
| Answer usb_state
| AskIdentity string string string \<comment> \<open>mount point, approval token and expected identity\<close>

text \<open>The part of \<open>_trust_state_for_target\<close> before the identity query.\<close>

definition target_lookup :: "(string \<Rightarrow> bool) \<Rightarrow> bool \<Rightarrow> policy \<Rightarrow> target_answer" where
  "target_lookup inside has_provider p =
     (case longest (filter inside (dict_keys (by_mount p))) of
        None \<Rightarrow> NotOwned
      | Some m \<Rightarrow>
          let token = dict_get_or (by_mount p) m '''' in
          (case dict_get (by_id p) token of
             None \<Rightarrow> Answer Untrusted
           | Some r \<Rightarrow> if state r \<noteq> Trusted \<or> \<not> has_provider then Answer (state r)
               else AskIdentity m token (volume_id r)))"

text \<open>
  The part after it, in the state the policy has by then.  A record is the same object exactly when
  it carries the same token.  \<open>compare_digest\<close> refuses strings that are not ASCII.
\<close>

definition target_recheck :: "string \<Rightarrow> string \<Rightarrow> string \<Rightarrow> string option \<Rightarrow> (policy, usb_error, usb_state) oper" where
  "target_recheck m token expected answered p =
     (let current_identity = (case answered of None \<Rightarrow> '''' | Some s \<Rightarrow> py_casefold (py_strip s)) in
      case dict_get (by_id p) (dict_get_or (by_mount p) m '''') of
        None \<Rightarrow> (p, Inr Untrusted)
      | Some r \<Rightarrow>
          if approval_id r \<noteq> token then (p, Inr Untrusted)
          else if state r \<noteq> Trusted then (p, Inr (state r))
          else if current_identity \<noteq> [] \<and> \<not> (ascii_only current_identity \<and> ascii_only expected)
          then (p, Inl UsbTypeError)
          else if current_identity \<noteq> [] \<and> current_identity = expected then (p, Inr Trusted)
          else (put_record (r\<lparr>state := IdentityUnavailable, attempts_remaining := 1\<rparr>) p,
                Inr IdentityUnavailable))"

text \<open>
  \<open>active_usb_scan_authorization\<close>, from the answers of the live policies: \<open>Inl\<close> where the
  lookup raised, \<open>Inr None\<close> where the policy does not own the target.
\<close>

definition scan_authorization :: "(usb_error + usb_state option) list \<Rightarrow> bool option \<times> usb_state option" where
  "scan_authorization answers =
     (let states = List.map_filter (\<lambda>a. case a of Inl _ \<Rightarrow> None | Inr s \<Rightarrow> s) answers in
      if states = [] then (None, None)
      else case find (\<lambda>s. s \<noteq> Trusted) states of
             Some s \<Rightarrow> (Some False, Some s)
           | None \<Rightarrow> (Some True, Some Trusted))"

section \<open>PIN changes\<close>

record pin_change =
  updated :: bool
  change_reason :: string

text \<open>
  The stored credential, a policy that loads it, and the verifications under way: \<open>verify\<close> loads
  the credential before it takes the lock, so each carries its token, the presented PIN and what
  the loader returned.
\<close>

record usb_system =
  stored_pin :: "string option"
  usb :: policy
  in_flight :: "(string \<times> string \<times> string option) list"

definition configure_usb_pin :: "string \<Rightarrow> string \<Rightarrow> bool \<Rightarrow> (string \<Rightarrow> string) \<Rightarrow> usb_system \<Rightarrow> usb_system \<times> pin_change" where
  "configure_usb_pin pin confirmation store_ok fresh s =
     (case validate_pin_change pin confirmation of (candidate, reason) \<Rightarrow>
        if reason \<noteq> [] then (s, \<lparr>updated = False, change_reason = reason\<rparr>)
        else if \<not> store_ok then (s, \<lparr>updated = False, change_reason = ''protected_store_unavailable''\<rparr>)
        else (s\<lparr>stored_pin := Some candidate, usb := on_pin_reset fresh (usb s)\<rparr>,
              \<lparr>updated = True, change_reason = ''pin_configured''\<rparr>))"

definition enroll_usb_pin :: "string \<Rightarrow> string \<Rightarrow> bool \<Rightarrow> usb_system \<Rightarrow> usb_system \<times> pin_change" where
  "enroll_usb_pin pin confirmation store_ok s =
     (case validate_pin_change pin confirmation of (candidate, reason) \<Rightarrow>
        if reason \<noteq> [] then (s, \<lparr>updated = False, change_reason = reason\<rparr>)
        else if \<not> store_ok then (s, \<lparr>updated = False, change_reason = ''protected_store_unavailable''\<rparr>)
        else case stored_pin s of
               None \<Rightarrow> (s\<lparr>stored_pin := Some candidate\<rparr>, \<lparr>updated = True, change_reason = ''pin_configured''\<rparr>)
             | Some existing \<Rightarrow>
                 if pin_ok existing then (s, \<lparr>updated = False, change_reason = ''pin_already_configured''\<rparr>)
                 else (s, \<lparr>updated = False, change_reason = ''stored_pin_invalid''\<rparr>))"

section \<open>Structure of the two dictionaries\<close>

text \<open>Records and mount points refer to each other one to one.\<close>

definition linked :: "policy \<Rightarrow> bool" where
  "linked p \<longleftrightarrow> dict_wf (by_id p) \<and> dict_wf (by_mount p)
     \<and> (\<forall>t r. dict_get (by_id p) t = Some r \<longrightarrow>
          approval_id r = t \<and> t \<noteq> [] \<and> dict_get (by_mount p) (mountpoint r) = Some t)
     \<and> (\<forall>m t. dict_get (by_mount p) m = Some t \<longrightarrow>
          (\<exists>r. dict_get (by_id p) t = Some r \<and> mountpoint r = m))"

lemma linkedD:
  assumes "linked p"
  shows "dict_wf (by_id p)" and "dict_wf (by_mount p)"
    and "dict_get (by_id p) t = Some r \<Longrightarrow> approval_id r = t"
    and "dict_get (by_id p) t = Some r \<Longrightarrow> t \<noteq> []"
    and "dict_get (by_id p) t = Some r \<Longrightarrow> dict_get (by_mount p) (mountpoint r) = Some t"
    and "dict_get (by_mount p) m = Some t \<Longrightarrow> \<exists>r. dict_get (by_id p) t = Some r \<and> mountpoint r = m"
  using assms by (auto simp: linked_def)

lemma linkedI:
  assumes "dict_wf (by_id p)" and "dict_wf (by_mount p)"
    and "\<And>t r. dict_get (by_id p) t = Some r \<Longrightarrow>
      approval_id r = t \<and> t \<noteq> [] \<and> dict_get (by_mount p) (mountpoint r) = Some t"
    and "\<And>m t. dict_get (by_mount p) m = Some t \<Longrightarrow> \<exists>r. dict_get (by_id p) t = Some r \<and> mountpoint r = m"
  shows "linked p"
  using assms by (simp add: linked_def)

lemma linked_update:
  assumes "linked p" and "dict_get (by_id p) t = Some r" and "approval_id r' = approval_id r" and "mountpoint r' = mountpoint r"
  shows "linked (p\<lparr>by_id := dict_set t r' (by_id p)\<rparr>)"
proof (rule linkedI)
  fix m t'
  assume "dict_get (by_mount (p\<lparr>by_id := dict_set t r' (by_id p)\<rparr>)) m = Some t'"
  then obtain r0 where "dict_get (by_id p) t' = Some r0" "mountpoint r0 = m"
    using linkedD(6) [OF assms(1)] by auto
  then show "\<exists>r0. dict_get (by_id (p\<lparr>by_id := dict_set t r' (by_id p)\<rparr>)) t' = Some r0 \<and> mountpoint r0 = m"
    using assms(2,4) by (cases "t' = t") (auto simp: dict_get_set)
qed (use assms(2-4) linkedD [OF assms(1)] in \<open>auto simp: dict_get_set split: if_splits\<close>)

lemma linked_remove:
  assumes "linked p"
  shows "linked (fst (remove_locked m p))"
proof (cases "dict_get (by_mount p) m")
  case None
  with assms show ?thesis by (simp add: remove_locked_def)
next
  case (Some t)
  with linkedD(6) [OF assms] obtain r where r: "dict_get (by_id p) t = Some r" "mountpoint r = m"
    by blast
  have "mountpoint r' \<noteq> m" if "dict_get (by_id p) t' = Some r'" "t' \<noteq> t" for t' r'
    using that linkedD(5) [OF assms that(1)] Some by auto
  moreover have "t' \<noteq> t" if "dict_get (by_mount p) m' = Some t'" "m' \<noteq> m" for m' t'
    using that r linkedD(6) [OF assms that(1)] by auto
  ultimately show ?thesis
    using assms Some by (auto simp: linked_def remove_locked_def dict_get_del)
qed

lemma remove_locked_get:
  assumes "linked p" and "dict_get (by_mount p) m = Some t"
  shows "dict_get (by_mount (fst (remove_locked m p))) m = None"
    and "dict_get (by_id (fst (remove_locked m p))) t' = (if t' = t then None else dict_get (by_id p) t')"
    and "Suc (length (by_mount (fst (remove_locked m p)))) = length (by_mount p)"
  using assms by (auto simp: remove_locked_def dict_get_del length_dict_del dest: linkedD(2))

lemma remove_locked_frame [simp]:
  "max_mounts (fst (remove_locked m p)) = max_mounts p"
  "require_identity (fst (remove_locked m p)) = require_identity p"
  "pin_reset_required (fst (remove_locked m p)) = pin_reset_required p"
  by (simp_all add: remove_locked_def split: option.split)

lemma remove_locked_sub:
  "dict_get (by_id (fst (remove_locked m p))) t = Some r \<Longrightarrow> dict_get (by_id p) t = Some r"
  "dict_get (by_mount (fst (remove_locked m p))) m' = Some t' \<Longrightarrow> dict_get (by_mount p) m' = Some t'"
  by (auto simp: remove_locked_def dict_get_del split: option.splits if_splits)

lemma remove_locked_None:
  "dict_get (by_id p) t = None \<Longrightarrow> dict_get (by_id (fst (remove_locked m p))) t = None"
  "dict_get (by_mount p) m' = None \<Longrightarrow> dict_get (by_mount (fst (remove_locked m p))) m' = None"
  by (auto simp: remove_locked_def dict_get_del split: option.split)

lemma remove_locked_length: "length (by_mount (fst (remove_locked m p))) \<le> length (by_mount p)"
  by (simp add: remove_locked_def length_dict_del_le split: option.split)

lemma linked_add:
  assumes "linked p" and "t \<noteq> []" and "dict_get (by_id p) t = None" and "dict_get (by_mount p) (mountpoint r) = None"
    and "approval_id r = t"
  shows "linked ((put_record r p)\<lparr>by_mount := dict_set (mountpoint r) t (by_mount p)\<rparr>)"
proof (rule linkedI)
  let ?q = "(put_record r p)\<lparr>by_mount := dict_set (mountpoint r) t (by_mount p)\<rparr>"
  {
    fix t' r'
    assume a: "dict_get (by_id ?q) t' = Some r'"
    show "approval_id r' = t' \<and> t' \<noteq> [] \<and> dict_get (by_mount ?q) (mountpoint r') = Some t'"
    proof (cases "t' = t")
      case True
      with a assms(2,5) show ?thesis by (auto simp: put_record_def dict_get_set)
    next
      case False
      with a assms(5) have get: "dict_get (by_id p) t' = Some r'" by (auto simp: put_record_def dict_get_set)
      with linkedD(3-5) [OF assms(1) get] assms(4) show ?thesis by (auto simp: put_record_def dict_get_set)
    qed
  next
    fix m t'
    assume a: "dict_get (by_mount ?q) m = Some t'"
    show "\<exists>r'. dict_get (by_id ?q) t' = Some r' \<and> mountpoint r' = m"
    proof (cases "m = mountpoint r")
      case True
      with a assms(5) show ?thesis by (auto simp: put_record_def dict_get_set)
    next
      case False
      with a have "dict_get (by_mount p) m = Some t'" by (simp add: put_record_def dict_get_set)
      then obtain r' where "dict_get (by_id p) t' = Some r'" "mountpoint r' = m"
        using linkedD(6) [OF assms(1)] by blast
      with assms(3,5) show ?thesis by (auto simp: put_record_def dict_get_set)
    qed
  }
qed (use assms(1) linkedD(1,2) in \<open>auto simp: put_record_def\<close>)

lemma dict_get_map: "dict_get (map (\<lambda>(k, v). (k, f v)) d) k = map_option f (dict_get d k)"
  by (induction d) auto

lemma dict_wf_map: "dict_wf (map (\<lambda>(k, v). (k, f v)) d) = dict_wf d"
  by (simp add: dict_wf_def comp_def case_prod_beta)

lemma lock_record_simps [simp]:
  "approval_id (lock_record r) = approval_id r" "mountpoint (lock_record r) = mountpoint r"
  "state (lock_record r) = Locked" "volume_id (lock_record r) = volume_id r" "cancelled (lock_record r) = cancelled r"
  by (simp_all add: lock_record_def)

lemma lock_all_get: "dict_get (by_id (lock_all p)) t = map_option lock_record (dict_get (by_id p) t)"
  by (simp add: lock_all_def dict_get_map)

lemma linked_lock_all: "linked p \<Longrightarrow> linked (lock_all p)"
proof (rule linkedI)
  assume l: "linked p"
  show "dict_wf (by_id (lock_all p))" "dict_wf (by_mount (lock_all p))"
    using linkedD(1,2) [OF l] by (simp_all add: lock_all_def dict_wf_map)
  {
    fix t r
    assume "dict_get (by_id (lock_all p)) t = Some r"
    then obtain r0 where "dict_get (by_id p) t = Some r0" "r = lock_record r0"
      by (auto simp: lock_all_get)
    with linkedD(3-5) [OF l this(1)]
    show "approval_id r = t \<and> t \<noteq> [] \<and> dict_get (by_mount (lock_all p)) (mountpoint r) = Some t"
      by (simp add: lock_all_def)
  next
    fix m t
    assume "dict_get (by_mount (lock_all p)) m = Some t"
    then have "dict_get (by_mount p) m = Some t"
      by (simp add: lock_all_def)
    from linkedD(6) [OF l this] show "\<exists>r. dict_get (by_id (lock_all p)) t = Some r \<and> mountpoint r = m"
      by (auto simp: lock_all_get)
  }
qed

lemma oldest_in: "oldest rs = Some r \<Longrightarrow> r \<in> set rs"
  by (induction rs arbitrary: r) (auto split: option.splits if_splits)

lemma oldest_None: "oldest rs = None \<longleftrightarrow> rs = []"
  by (cases rs) (auto split: option.split)

section \<open>Invariant\<close>

text \<open>
  What may be trusted: not a cancelled request, nothing while a reset is required, and, where an
  identity is required, nothing without one.
\<close>

definition record_ok :: "policy \<Rightarrow> approval \<Rightarrow> bool" where
  "record_ok p r \<longleftrightarrow> (state r = Trusted \<longrightarrow>
     \<not> cancelled r \<and> \<not> pin_reset_required p \<and> (require_identity p \<longrightarrow> volume_id r \<noteq> []))"

definition usb_inv :: "policy \<Rightarrow> bool" where
  "usb_inv p \<longleftrightarrow> linked p \<and> 1 \<le> max_mounts p \<and> length (by_mount p) \<le> max_mounts p
     \<and> (\<forall>t r. dict_get (by_id p) t = Some r \<longrightarrow> record_ok p r)"

lemma usb_inv_update:
  assumes "usb_inv p" and "dict_get (by_id p) t = Some r" and "approval_id r' = approval_id r"
    and "mountpoint r' = mountpoint r" and "record_ok p r'"
  shows "usb_inv (p\<lparr>by_id := dict_set t r' (by_id p)\<rparr>)"
  using assms linked_update [of p t r r']
  by (auto simp: usb_inv_def dict_get_set record_ok_def)

lemma usb_inv_put:
  assumes "usb_inv p" and "dict_get (by_id p) t = Some r" and "approval_id r' = approval_id r"
    and "mountpoint r' = mountpoint r" and "record_ok p r'"
  shows "usb_inv (put_record r' p)"
  using usb_inv_update [OF assms] assms(1,2,3) linkedD(3) [of p t r] by (simp add: put_record_def usb_inv_def)

lemma usb_inv_remove: "usb_inv p \<Longrightarrow> usb_inv (fst (remove_locked m p))"
  using remove_locked_length [of m p] by (auto simp: usb_inv_def linked_remove record_ok_def dest: remove_locked_sub)

lemma usb_inv_lock_all: "usb_inv p \<Longrightarrow> usb_inv (lock_all p)"
  by (auto simp: usb_inv_def linked_lock_all record_ok_def) (auto simp: lock_all_def dict_get_map)

lemma verify_inv: "usb_inv p \<Longrightarrow> usb_inv (fst (verify token presented expected p))"
  by (auto simp: verify_def Let_def usb_inv_lock_all record_ok_def split: option.split
      intro!: usb_inv_update)

lemma deny_inv: "usb_inv p \<Longrightarrow> usb_inv (fst (deny token p))"
  by (auto simp: deny_def Let_def record_ok_def split: option.split intro!: usb_inv_update)

lemma cancel_inv: "usb_inv p \<Longrightarrow> usb_inv (fst (cancel token p))"
  by (auto simp: cancel_def Let_def record_ok_def split: option.split intro!: usb_inv_update)

lemma remove_inv: "usb_inv p \<Longrightarrow> usb_inv (fst (remove npath m p))"
  by (auto simp: remove_def usb_inv_remove split: option.split)

lemma retain_inv: "usb_inv p \<Longrightarrow> usb_inv (retain_mounts npath ms p)"
proof -
  have "usb_inv (foldl (\<lambda>q key. if key \<notin> cur then fst (remove_locked key q) else q) p ks)" if "usb_inv p" for cur ks
    using that by (induction ks arbitrary: p) (auto intro: usb_inv_remove)
  then show "usb_inv p \<Longrightarrow> usb_inv (retain_mounts npath ms p)"
    by (simp add: retain_mounts_def Let_def)
qed

text \<open>The parts of \<open>add_request\<close>: evict if full, then add.\<close>

lemma add_request_cases:
  assumes "usb_inv p" and "dict_get (by_mount p) key = None" and "token \<noteq> []" and "dict_get (by_id p) token = None"
  obtains q where "usb_inv q" and "max_mounts q = max_mounts p" and "require_identity q = require_identity p"
    and "pin_reset_required q = pin_reset_required p" and "length (by_mount q) < max_mounts q"
    and "dict_get (by_mount q) key = None" and "dict_get (by_id q) token = None"
    and "\<And>t r. dict_get (by_id q) t = Some r \<Longrightarrow> dict_get (by_id p) t = Some r"
    and "add_request key autorun enforced identity now pin_ready token p =
      (let r = \<lparr>approval_id = token, mountpoint = key, detected_at = now, autorun_present = autorun,
              state = (if pin_reset_required q then Locked else Pending),
              attempts_remaining = (if \<not> pin_reset_required q \<and> pin_ready then 1 else 0),
              locked_until = 0, policy_enforced = enforced, volume_id = identity, cancelled = False\<rparr>
       in ((put_record r q)\<lparr>by_mount := dict_set key token (by_mount q)\<rparr>, Inr (view_of r)))"
proof (cases "max_mounts p \<le> length (by_mount p)")
  case True
  have l: "linked p" and pos: "1 \<le> max_mounts p"
    using assms(1) by (auto simp: usb_inv_def)
  then obtain m t where "(m, t) \<in> set (by_mount p)"
    using True by (cases "by_mount p") auto
  then have "dict_get (by_mount p) m = Some t"
    using linkedD(2) [OF l] by (rule dict_get_wf [rotated])
  then obtain r0 where "dict_get (by_id p) t = Some r0"
    using linkedD(6) [OF l] by blast
  then have "by_id p \<noteq> []"
    by auto
  then obtain old where old: "oldest (map snd (by_id p)) = Some old"
    using oldest_None [of "map snd (by_id p)"] by auto
  then obtain t' where "(t', old) \<in> set (by_id p)"
    by (auto dest!: oldest_in)
  then have old': "dict_get (by_id p) t' = Some old"
    using linkedD(1) [OF l] by (rule dict_get_wf [rotated])
  let ?q = "fst (remove_locked (mountpoint old) p)"
  have "length (by_mount ?q) < max_mounts ?q"
    using remove_locked_get(3) [OF l linkedD(5) [OF l old']] assms(1) by (simp add: usb_inv_def)
  moreover have "dict_get (by_mount ?q) key = None" "dict_get (by_id ?q) token = None"
    using assms(2,4) by (simp_all add: remove_locked_None)
  ultimately show thesis
    using True old by (intro that [of ?q]) (auto simp: usb_inv_remove assms(1) add_request_def Let_def dest: remove_locked_sub)
next
  case False
  then show thesis
    using assms by (intro that [of p]) (auto simp: add_request_def Let_def)
qed

lemma add_request_inv:
  assumes "usb_inv p" and "dict_get (by_mount p) key = None" and "token \<noteq> []" and "dict_get (by_id p) token = None"
  shows "usb_inv (fst (add_request key autorun enforced identity now pin_ready token p))"
proof -
  obtain q where q: "usb_inv q" "length (by_mount q) < max_mounts q" "dict_get (by_mount q) key = None"
      "dict_get (by_id q) token = None"
    and eq: "add_request key autorun enforced identity now pin_ready token p =
      (let r = \<lparr>approval_id = token, mountpoint = key, detected_at = now, autorun_present = autorun,
              state = (if pin_reset_required q then Locked else Pending),
              attempts_remaining = (if \<not> pin_reset_required q \<and> pin_ready then 1 else 0),
              locked_until = 0, policy_enforced = enforced, volume_id = identity, cancelled = False\<rparr>
       in ((put_record r q)\<lparr>by_mount := dict_set key token (by_mount q)\<rparr>, Inr (view_of r)))"
    by (rule add_request_cases [OF assms]) blast
  let ?r = "\<lparr>approval_id = token, mountpoint = key, detected_at = now, autorun_present = autorun,
              state = (if pin_reset_required q then Locked else Pending),
              attempts_remaining = (if \<not> pin_reset_required q \<and> pin_ready then 1 else 0),
              locked_until = 0, policy_enforced = enforced, volume_id = identity, cancelled = False\<rparr>"
  have "linked ((put_record ?r q)\<lparr>by_mount := dict_set key token (by_mount q)\<rparr>)"
    using linked_add [of q token ?r] q assms(3) by (simp add: usb_inv_def)
  then show ?thesis
    using q unfolding eq Let_def
    by (auto simp: usb_inv_def put_record_def dict_get_set length_dict_set record_ok_def split: if_splits)
qed

lemma request_inv:
  assumes inv: "usb_inv p" and "token \<noteq> []" and "dict_get (by_id p) token = None"
  shows "usb_inv (fst (request npath m autorun enforced volume now pin_ready token p))"
proof -
  have l: "linked p"
    using inv by (simp add: usb_inv_def)
  show ?thesis
  proof (cases "mount_key npath m"; cases "volume_key volume")
    fix key identity
    assume k: "mount_key npath m = Some key" "volume_key volume = Some identity"
    show ?thesis
    proof (cases "dict_get (by_mount p) key")
      case None
      with k add_request_inv [OF inv None assms(2,3)] show ?thesis
        by (simp add: request_def Let_def)
    next
      case (Some t)
      then obtain r where r: "dict_get (by_id p) t = Some r" "t \<noteq> []"
        using linkedD(4,6) [OF l] by blast
      have rm: "dict_get (by_mount (fst (remove_locked key p))) key = None"
          "dict_get (by_id (fst (remove_locked key p))) token = None"
        using remove_locked_get [OF l Some] assms(3) by auto
      have "record_ok p r"
        using inv r by (auto simp: usb_inv_def)
      then show ?thesis
        using k Some r add_request_inv [OF usb_inv_remove [OF inv] rm(1) assms(2) rm(2)] inv
        by (auto simp: request_def Let_def record_ok_def intro!: usb_inv_update)
    qed
  qed (simp_all add: request_def inv)
qed

lemma target_recheck_inv: "usb_inv p \<Longrightarrow> usb_inv (fst (target_recheck m token expected answered p))"
  by (auto simp: target_recheck_def Let_def record_ok_def split: option.split intro!: usb_inv_put)

section \<open>PIN reset\<close>

definition renewed :: "string \<Rightarrow> approval \<Rightarrow> approval" where
  "renewed t r = r\<lparr>approval_id := t, state := Pending, attempts_remaining := 1, locked_until := 0, cancelled := False\<rparr>"

lemma renewed_simps [simp]:
  "approval_id (renewed t r) = t" "mountpoint (renewed t r) = mountpoint r" "state (renewed t r) = Pending"
  "cancelled (renewed t r) = False" "volume_id (renewed t r) = volume_id r"
  by (simp_all add: renewed_def)

text \<open>The fresh tokens are new, not empty and different from each other.\<close>

definition fresh_tokens :: "(string \<Rightarrow> string) \<Rightarrow> policy \<Rightarrow> bool" where
  "fresh_tokens fresh p \<longleftrightarrow> inj_on fresh (set (dict_keys (by_id p)))
     \<and> (\<forall>t \<in> set (dict_keys (by_id p)). fresh t \<noteq> [] \<and> fresh t \<notin> set (dict_keys (by_id p)))"

lemma linked_replace:
  assumes l: "linked q" and r: "dict_get (by_id q) t = Some r" and t': "t' \<noteq> []" "dict_get (by_id q) t' = None"
    and r': "approval_id r' = t'" "mountpoint r' = mountpoint r"
  shows "linked (q\<lparr>by_id := dict_set t' r' (dict_del t (by_id q)), by_mount := dict_set (mountpoint r) t' (by_mount q)\<rparr>)"
    (is "linked ?q")
proof (rule linkedI)
  show "dict_wf (by_id ?q)" "dict_wf (by_mount ?q)"
    using linkedD(1,2) [OF l] by auto
  {
    fix x y
    assume a: "dict_get (by_id ?q) x = Some y"
    show "approval_id y = x \<and> x \<noteq> [] \<and> dict_get (by_mount ?q) (mountpoint y) = Some x"
    proof (cases "x = t'")
      case True
      with a t' r' show ?thesis by (simp add: dict_get_set)
    next
      case False
      with a have y: "dict_get (by_id q) x = Some y" "x \<noteq> t"
        by (auto simp: dict_get_set dict_get_del split: if_splits)
      then have "mountpoint y \<noteq> mountpoint r"
        using linkedD(5) [OF l y(1)] linkedD(5) [OF l r] by auto
      with linkedD(3-5) [OF l y(1)] show ?thesis by (simp add: dict_get_set)
    qed
  next
    fix m x
    assume a: "dict_get (by_mount ?q) m = Some x"
    show "\<exists>y. dict_get (by_id ?q) x = Some y \<and> mountpoint y = m"
    proof (cases "m = mountpoint r")
      case True
      with a r' show ?thesis by (simp add: dict_get_set)
    next
      case False
      with a obtain y where "dict_get (by_id q) x = Some y" "mountpoint y = m"
        using linkedD(6) [OF l] by (auto simp: dict_get_set)
      with False r t'(2) show ?thesis
        by (intro exI [of _ y]) (auto simp: dict_get_set dict_get_del)
    qed
  }
qed

text \<open>The state of the reset loop: \<open>rs\<close> are the records of the snapshot still to come.\<close>

definition reset_loop :: "(string \<Rightarrow> string) \<Rightarrow> policy \<Rightarrow> policy \<Rightarrow> approval list \<Rightarrow> bool" where
  "reset_loop fresh p q rs \<longleftrightarrow> linked q \<and> \<not> pin_reset_required q \<and> max_mounts q = max_mounts p
     \<and> require_identity q = require_identity p \<and> dict_keys (by_mount q) = dict_keys (by_mount p)
     \<and> (\<forall>t r. dict_get (by_id p) t = Some r \<longrightarrow>
          (if r \<in> set rs then dict_get (by_id q) t = Some r
           else if cancelled r then dict_get (by_id q) t = None \<and> dict_get (by_id q) (fresh t) = Some (renewed (fresh t) r)
           else dict_get (by_id q) t = Some (renewed t r)))
     \<and> (\<forall>t. dict_get (by_id p) t = None \<longrightarrow> dict_get (by_id q) t \<noteq> None \<longrightarrow>
          (\<exists>t0 r. dict_get (by_id p) t0 = Some r \<and> cancelled r \<and> r \<notin> set rs \<and> t = fresh t0))"

lemma dict_keys_known: "dict_get d k \<noteq> None \<Longrightarrow> dict_keys (dict_set k v d) = dict_keys d"
  by (induction d) auto

lemma reset_record_frame [simp]:
  "max_mounts (reset_record fresh q r) = max_mounts q"
  "require_identity (reset_record fresh q r) = require_identity q"
  "pin_reset_required (reset_record fresh q r) = pin_reset_required q"
  by (simp_all add: reset_record_def Let_def put_record_def)

lemma reset_record_get:
  "dict_get (by_id (reset_record fresh q r)) x =
     (if cancelled r
      then (if x = fresh (approval_id r) then Some (renewed (fresh (approval_id r)) r)
            else if x = approval_id r then None else dict_get (by_id q) x)
      else (if x = approval_id r then Some (renewed x r) else dict_get (by_id q) x))"
  by (auto simp: reset_record_def Let_def put_record_def renewed_def dict_get_set dict_get_del)

lemma reset_record_mounts:
  assumes "linked q" and "dict_get (by_id q) (approval_id r) = Some r"
  shows "dict_keys (by_mount (reset_record fresh q r)) = dict_keys (by_mount q)"
  using linkedD(5) [OF assms] by (simp add: reset_record_def Let_def put_record_def dict_keys_known)

lemma reset_record_linked:
  assumes "linked q" and "dict_get (by_id q) (approval_id r) = Some r"
    and "fresh (approval_id r) \<noteq> []" and "dict_get (by_id q) (fresh (approval_id r)) = None"
  shows "linked (reset_record fresh q r)"
proof (cases "cancelled r")
  case True
  then show ?thesis
    by (simp add: reset_record_def Let_def linked_replace [OF assms])
next
  case False
  then show ?thesis
    by (simp add: reset_record_def put_record_def linked_update [OF assms(1,2)])
qed

lemma reset_loop_step:
  assumes j: "reset_loop fresh p q (r # rs)" and l: "linked p" and fr: "fresh_tokens fresh p"
    and pt: "dict_get (by_id p) (approval_id r) = Some r" and d: "r \<notin> set rs"
  shows "reset_loop fresh p (reset_record fresh q r) rs"
proof -
  define t where "t = approval_id r"
  define q' where "q' = reset_record fresh q r"
  have pt: "dict_get (by_id p) t = Some r"
    using pt by (simp add: t_def)
  have lq: "linked q" and qt: "dict_get (by_id q) t = Some r"
    using j pt by (auto simp: reset_loop_def)
  have other: "r' \<in> set (r # rs) \<longleftrightarrow> r' \<in> set rs" if "dict_get (by_id p) x = Some r'" "x \<noteq> t" for x r'
    using that linkedD(3) [OF l that(1)] t_def by auto
  have old: "fresh x \<noteq> y" if "dict_get (by_id p) x \<noteq> None" "dict_get (by_id p) y \<noteq> None" for x y
    using fr that [unfolded dict_get_keys] unfolding fresh_tokens_def by blast
  have inj: "fresh t \<noteq> fresh x" if "dict_get (by_id p) x \<noteq> None" "x \<noteq> t" for x
  proof -
    have "x \<in> set (dict_keys (by_id p))" "t \<in> set (dict_keys (by_id p))"
      using that(1) pt dict_get_keys [of "by_id p" x] dict_get_keys [of "by_id p" t] by simp_all
    then show ?thesis
      using fr that(2) inj_on_eq_iff [of fresh "set (dict_keys (by_id p))" t x] unfolding fresh_tokens_def by blast
  qed
  have frt: "fresh t \<noteq> []" "dict_get (by_id p) (fresh t) = None"
    using fr pt dict_get_keys [of "by_id p" t] old [of t "fresh t"] unfolding fresh_tokens_def by blast+
  have frq: "dict_get (by_id q) (fresh t) = None"
  proof (rule ccontr)
    assume "dict_get (by_id q) (fresh t) \<noteq> None"
    with j frt(2) obtain t0 r0 where "dict_get (by_id p) t0 = Some r0" "r0 \<notin> set (r # rs)" "fresh t = fresh t0"
      unfolding reset_loop_def by blast
    then show False
      using inj [of t0] pt by (cases "t0 = t") auto
  qed
  note get = reset_record_get [of fresh q r, folded q'_def t_def]
  have 1: "if r' \<in> set rs then dict_get (by_id q') x = Some r'
     else if cancelled r' then dict_get (by_id q') x = None \<and> dict_get (by_id q') (fresh x) = Some (renewed (fresh x) r')
     else dict_get (by_id q') x = Some (renewed x r')" if x: "dict_get (by_id p) x = Some r'" for x r'
  proof (cases "x = t")
    case True
    with x pt d old [of t t] show ?thesis by (auto simp: get)
  next
    case False
    have "x \<noteq> fresh t" "fresh x \<noteq> t" "fresh x \<noteq> fresh t"
      using old [of t x] old [of x t] inj [of x] x pt False by auto
    moreover have "if r' \<in> set (r # rs) then dict_get (by_id q) x = Some r'
       else if cancelled r' then dict_get (by_id q) x = None \<and> dict_get (by_id q) (fresh x) = Some (renewed (fresh x) r')
       else dict_get (by_id q) x = Some (renewed x r')"
      using j x unfolding reset_loop_def by blast
    ultimately show ?thesis
      using False unfolding other [OF x False] by (simp add: get)
  qed
  have 2: "\<exists>t0 r0. dict_get (by_id p) t0 = Some r0 \<and> cancelled r0 \<and> r0 \<notin> set rs \<and> x = fresh t0"
    if x: "dict_get (by_id p) x = None" "dict_get (by_id q') x \<noteq> None" for x
  proof (cases "cancelled r \<and> x = fresh t")
    case True
    with pt d show ?thesis by blast
  next
    case False
    with x pt have "dict_get (by_id q) x \<noteq> None" by (auto simp: get split: if_splits)
    with j x(1) obtain t0 r0 where "dict_get (by_id p) t0 = Some r0" "cancelled r0" "r0 \<notin> set (r # rs)" "x = fresh t0"
      unfolding reset_loop_def by blast
    then show ?thesis by auto
  qed
  have lq': "linked q'" and mq': "dict_keys (by_mount q') = dict_keys (by_mount q)"
    using reset_record_linked [OF lq, of r fresh] reset_record_mounts [OF lq, of r fresh] qt frt frq
    by (simp_all add: q'_def t_def)
  have "reset_loop fresh p q' rs"
    using j 1 2 unfolding reset_loop_def by (simp add: lq' mq') (simp add: q'_def)
  then show ?thesis
    by (simp add: q'_def)
qed

lemma reset_loop_run:
  assumes "reset_loop fresh p q rs" and "linked p" and "fresh_tokens fresh p"
    and "\<forall>r \<in> set rs. dict_get (by_id p) (approval_id r) = Some r" and "distinct rs"
  shows "reset_loop fresh p (foldl (reset_record fresh) q rs) []"
  using assms
proof (induction rs arbitrary: q)
  case Nil
  then show ?case by simp
next
  case (Cons r rs)
  with reset_loop_step [of fresh p q r rs] show ?case by simp
qed

lemma on_pin_reset_loop:
  assumes l: "linked p" and fr: "fresh_tokens fresh p"
  shows "reset_loop fresh p (on_pin_reset fresh p) []"
proof -
  let ?rs = "map snd (by_id p)"
  have mem: "dict_get (by_id p) (approval_id r) = Some r" if "r \<in> set ?rs" for r
  proof -
    from that obtain t where "(t, r) \<in> set (by_id p)" by auto
    with linkedD(1) [OF l] have "dict_get (by_id p) t = Some r" by (rule dict_get_wf)
    with linkedD(3) [OF l this] show ?thesis by simp
  qed
  have "map approval_id ?rs = dict_keys (by_id p)"
    using linkedD(1,3) [OF l] by (auto simp: dict_get_wf)
  with linkedD(1) [OF l] have "distinct (map approval_id ?rs)"
    by (simp only: dict_wf_def)
  then have "distinct ?rs"
    by (rule distinct_map [THEN iffD1, THEN conjunct1])
  moreover have "linked (p\<lparr>pin_reset_required := False\<rparr>)"
    using l by (simp add: linked_def)
  then have "reset_loop fresh p (p\<lparr>pin_reset_required := False\<rparr>) ?rs"
    using dict_get_in [of "by_id p"] by (force simp: reset_loop_def)
  ultimately show ?thesis
    unfolding on_pin_reset_def using mem by (intro reset_loop_run [OF _ l fr]) auto
qed

lemma reset_loop_done:
  assumes "reset_loop fresh p q []"
  shows "dict_get (by_id p) t = Some r \<Longrightarrow> cancelled r \<Longrightarrow> dict_get (by_id q) t = None"
    and "dict_get (by_id p) t = Some r \<Longrightarrow> cancelled r \<Longrightarrow> dict_get (by_id q) (fresh t) = Some (renewed (fresh t) r)"
    and "dict_get (by_id p) t = Some r \<Longrightarrow> \<not> cancelled r \<Longrightarrow> dict_get (by_id q) t = Some (renewed t r)"
    and "dict_get (by_id p) t = None \<Longrightarrow> dict_get (by_id q) t \<noteq> None \<Longrightarrow>
      \<exists>t0 r. dict_get (by_id p) t0 = Some r \<and> cancelled r \<and> t = fresh t0"
  using assms by (auto simp: reset_loop_def)

lemma on_pin_reset_inv:
  assumes "usb_inv p" and "fresh_tokens fresh p"
  shows "usb_inv (on_pin_reset fresh p)"
    and "dict_get (by_id (on_pin_reset fresh p)) t = Some r \<Longrightarrow> state r = Pending \<and> \<not> cancelled r"
proof -
  let ?q = "on_pin_reset fresh p"
  have j: "reset_loop fresh p ?q []"
    using assms by (intro on_pin_reset_loop) (auto simp: usb_inv_def)
  show st: "state r = Pending \<and> \<not> cancelled r" if r: "dict_get (by_id ?q) t = Some r" for t r
  proof (cases "dict_get (by_id p) t")
    case None
    with reset_loop_done(4) [OF j None] r obtain t0 r0
      where "dict_get (by_id p) t0 = Some r0" "cancelled r0" "t = fresh t0" by auto
    with reset_loop_done(2) [OF j] r show ?thesis by auto
  next
    case (Some r0)
    with reset_loop_done(1,3) [OF j Some] r show ?thesis by (cases "cancelled r0") auto
  qed
  have "length (by_mount ?q) = length (by_mount p)"
    using j by (metis length_map reset_loop_def)
  moreover have "record_ok ?q r" if "dict_get (by_id ?q) t = Some r" for t r
    using st [OF that] by (simp add: record_ok_def)
  moreover have "linked ?q" "max_mounts ?q = max_mounts p"
    using j by (simp_all add: reset_loop_def)
  ultimately show "usb_inv ?q"
    using assms by (simp add: usb_inv_def)
qed

section \<open>Steps of the system\<close>

datatype usb_label =
  Requested string
| VerifyBegin string string
| VerifyEnd string string
| Denying string
| Cancelling string
| Removing string
| Retaining "string list"
| Rechecking string
| Configuring string string
| Enrolling string string

text \<open>
  The locked sections of concurrent callers in any order.  The loader may also fail, which the code
  treats as no credential; the random tokens are new.
\<close>

inductive usb_step :: "(string \<Rightarrow> string) \<Rightarrow> usb_system \<Rightarrow> usb_label \<Rightarrow> usb_system \<Rightarrow> bool" for npath where
  step_request: "loaded = stored_pin s \<or> loaded = None \<Longrightarrow> token \<noteq> [] \<Longrightarrow> dict_get (by_id (usb s)) token = None \<Longrightarrow>
    usb_step npath s (Requested token)
      (s\<lparr>usb := fst (request npath m autorun enforced volume now (pin_configured loaded) token (usb s))\<rparr>)"
| step_verify_begin: "loaded = stored_pin s \<or> loaded = None \<Longrightarrow>
    usb_step npath s (VerifyBegin token presented) (s\<lparr>in_flight := (token, presented, loaded) # in_flight s\<rparr>)"
| step_verify_end: "(token, presented, loaded) \<in> set (in_flight s) \<Longrightarrow>
    usb_step npath s (VerifyEnd token presented)
      (s\<lparr>in_flight := remove1 (token, presented, loaded) (in_flight s),
         usb := fst (verify token presented loaded (usb s))\<rparr>)"
| step_deny: "usb_step npath s (Denying token) (s\<lparr>usb := fst (deny token (usb s))\<rparr>)"
| step_cancel: "usb_step npath s (Cancelling token) (s\<lparr>usb := fst (cancel token (usb s))\<rparr>)"
| step_remove: "usb_step npath s (Removing m) (s\<lparr>usb := fst (remove npath m (usb s))\<rparr>)"
| step_retain: "usb_step npath s (Retaining ms) (s\<lparr>usb := retain_mounts npath ms (usb s)\<rparr>)"
| step_recheck: "usb_step npath s (Rechecking m) (s\<lparr>usb := fst (target_recheck m token expected answered (usb s))\<rparr>)"
| step_configure: "fresh_tokens fresh (usb s) \<Longrightarrow>
    usb_step npath s (Configuring pin confirmation) (fst (configure_usb_pin pin confirmation store_ok fresh s))"
| step_enroll: "usb_step npath s (Enrolling pin confirmation) (fst (enroll_usb_pin pin confirmation store_ok s))"

inductive_cases usb_stepE: "usb_step npath s l s'"

lemma configure_usb:
  "usb (fst (configure_usb_pin pin confirmation store_ok fresh s)) = usb s \<or>
   usb (fst (configure_usb_pin pin confirmation store_ok fresh s)) = on_pin_reset fresh (usb s)"
  by (simp add: configure_usb_pin_def split: prod.split)

lemma enroll_usb [simp]: "usb (fst (enroll_usb_pin pin confirmation store_ok s)) = usb s"
  by (simp add: enroll_usb_pin_def split: prod.split option.split)

lemma usb_step_inv:
  assumes "usb_inv (usb s)" and "usb_step npath s l s'"
  shows "usb_inv (usb s')"
  using assms(2)
proof (cases rule: usb_step.cases)
  case (step_configure fresh pin confirmation store_ok)
  with assms(1) configure_usb [of pin confirmation store_ok fresh s] show ?thesis
    by (auto intro: on_pin_reset_inv(1))
qed (use assms(1) in \<open>simp_all add: request_inv verify_inv deny_inv cancel_inv remove_inv retain_inv target_recheck_inv\<close>)

section \<open>The session latch\<close>

lemma add_request_latch:
  "pin_reset_required (fst (add_request key autorun enforced identity now pin_ready token p)) = pin_reset_required p"
  by (simp add: add_request_def Let_def put_record_def split: option.split)

lemma request_latch:
  "pin_reset_required (fst (request npath m autorun enforced volume now pin_ready token p)) = pin_reset_required p"
  by (simp add: request_def Let_def add_request_latch split: option.split)

lemma verify_latch: "pin_reset_required p \<Longrightarrow> pin_reset_required (fst (verify token presented loaded p))"
  by (simp add: verify_def Let_def split: option.split)

lemma deny_latch: "pin_reset_required (fst (deny token p)) = pin_reset_required p"
  by (simp add: deny_def Let_def split: option.split)

lemma cancel_latch: "pin_reset_required (fst (cancel token p)) = pin_reset_required p"
  by (simp add: cancel_def Let_def split: option.split)

lemma remove_latch: "pin_reset_required (fst (remove npath m p)) = pin_reset_required p"
  by (simp add: remove_def split: option.split)

lemma retain_latch: "pin_reset_required (retain_mounts npath ms p) = pin_reset_required p"
proof -
  have "pin_reset_required (foldl (\<lambda>q key. if key \<notin> cur then fst (remove_locked key q) else q) p ks) = pin_reset_required p" for cur ks
    by (induction ks arbitrary: p) auto
  then show ?thesis by (simp add: retain_mounts_def Let_def)
qed

lemma recheck_latch: "pin_reset_required (fst (target_recheck m token expected answered p)) = pin_reset_required p"
  by (simp add: target_recheck_def Let_def put_record_def split: option.split)

lemmas usb_latches = request_latch verify_latch deny_latch cancel_latch remove_latch retain_latch recheck_latch

definition configuring :: "usb_label \<Rightarrow> bool" where
  "configuring l \<longleftrightarrow> (case l of Configuring _ _ \<Rightarrow> True | _ \<Rightarrow> False)"

lemma usb_step_latch:
  "pin_reset_required (usb s) \<Longrightarrow> usb_step npath s l s' \<Longrightarrow> \<not> configuring l \<Longrightarrow> pin_reset_required (usb s')"
  by (erule usb_stepE) (simp_all add: configuring_def usb_latches)

interpretation usb: latched_system "usb_step npath" "\<lambda>s. usb_inv (usb s)" "\<lambda>s. pin_reset_required (usb s)" configuring
  for npath
  by unfold_locales (auto intro: usb_step_inv usb_step_latch)

lemma new_policy_inv: "new_policy a b c d = Some p \<Longrightarrow> usb_inv p"
  by (auto simp: new_policy_def usb_inv_def linked_def split: if_splits)

section \<open>What makes a volume trusted\<close>

definition trusted_at :: "policy \<Rightarrow> string \<Rightarrow> bool" where
  "trusted_at p t \<longleftrightarrow> (case dict_get (by_id p) t of None \<Rightarrow> False | Some r \<Rightarrow> state r = Trusted)"

lemma trusted_atE: "trusted_at p t \<Longrightarrow> (\<And>r. dict_get (by_id p) t = Some r \<Longrightarrow> state r = Trusted \<Longrightarrow> thesis) \<Longrightarrow> thesis"
  by (auto simp: trusted_at_def split: option.splits)

lemma trusted_remove: "trusted_at (fst (remove_locked m p)) t \<Longrightarrow> trusted_at p t"
  by (erule trusted_atE) (auto dest: remove_locked_sub simp: trusted_at_def)

lemma trusted_add: "trusted_at (fst (add_request key autorun enforced identity now pin_ready token p)) t \<Longrightarrow> trusted_at p t"
proof -
  have fin: "trusted_at q t" if "trusted_at ((put_record r q)\<lparr>by_mount := bm\<rparr>) t" "state r \<noteq> Trusted" for q r bm
    using that by (auto simp: trusted_at_def put_record_def dict_get_set split: if_splits)
  assume "trusted_at (fst (add_request key autorun enforced identity now pin_ready token p)) t"
  then show ?thesis
    by (auto simp: add_request_def Let_def split: if_splits option.splits dest!: fin intro: trusted_remove)
qed

lemma trusted_request: "trusted_at (fst (request npath m autorun enforced volume now pin_ready token p)) t \<Longrightarrow> trusted_at p t"
  by (auto simp: request_def Let_def split: if_splits option.splits dest!: trusted_add dest: trusted_remove)
    (auto simp: trusted_at_def dict_get_set split: if_splits)

lemma trusted_deny: "trusted_at (fst (deny token p)) t \<Longrightarrow> trusted_at p t"
  by (auto simp: trusted_at_def deny_def Let_def dict_get_set split: if_splits option.splits)

lemma trusted_cancel: "trusted_at (fst (cancel token p)) t \<Longrightarrow> trusted_at p t"
  by (auto simp: trusted_at_def cancel_def Let_def dict_get_set split: if_splits option.splits)

lemma trusted_remove_mount: "trusted_at (fst (remove npath m p)) t \<Longrightarrow> trusted_at p t"
  by (auto simp: remove_def split: option.splits intro: trusted_remove)

lemma trusted_retain: "trusted_at (retain_mounts npath ms p) t \<Longrightarrow> trusted_at p t"
proof -
  have "trusted_at (foldl (\<lambda>q key. if key \<notin> cur then fst (remove_locked key q) else q) p ks) t \<Longrightarrow> trusted_at p t" for cur ks
    by (induction ks arbitrary: p) (auto dest: trusted_remove split: if_splits)
  then show "trusted_at (retain_mounts npath ms p) t \<Longrightarrow> trusted_at p t" by (simp add: retain_mounts_def Let_def)
qed

lemma trusted_recheck: "trusted_at (fst (target_recheck m token expected answered p)) t \<Longrightarrow> trusted_at p t"
  by (auto simp: trusted_at_def target_recheck_def put_record_def Let_def dict_get_set split: if_splits option.splits)

lemma trusted_verify:
  assumes "trusted_at (fst (verify token presented loaded p)) t" and "\<not> trusted_at p t"
  shows "t = token \<and> loaded = Some (py_strip presented) \<and> pin_ok (py_strip presented) \<and> \<not> pin_reset_required p
    \<and> (\<exists>r. dict_get (by_id p) t = Some r \<and> \<not> cancelled r \<and> state r \<notin> {Trusted, Denied, Locked}
        \<and> (require_identity p \<longrightarrow> volume_id r \<noteq> []))"
proof -
  have lock: "\<not> trusted_at (lock_all p) t"
    by (simp add: trusted_at_def lock_all_get split: option.split)
  show ?thesis
  proof (cases "dict_get (by_id p) token")
    case None
    with assms show ?thesis by (simp add: verify_def Let_def)
  next
    case (Some r)
    show ?thesis
      using assms Some lock unfolding verify_def Let_def
      by (auto simp: trusted_at_def dict_get_set pin_configured_def split: if_splits option.splits)
  qed
qed

lemma trusted_reset:
  assumes "usb_inv p" and "fresh_tokens fresh p"
  shows "\<not> trusted_at (on_pin_reset fresh p) t"
  using on_pin_reset_inv(2) [OF assms] by (auto elim!: trusted_atE)

lemma trusted_step:
  assumes inv: "usb_inv (usb s)" and "usb_step npath s l s'" and new: "trusted_at (usb s') t" "\<not> trusted_at (usb s) t"
  shows "\<exists>presented. l = VerifyEnd t presented \<and> (t, presented, Some (py_strip presented)) \<in> set (in_flight s)
    \<and> pin_ok (py_strip presented) \<and> \<not> pin_reset_required (usb s)
    \<and> (\<exists>r. dict_get (by_id (usb s)) t = Some r \<and> \<not> cancelled r \<and> state r \<notin> {Trusted, Denied, Locked}
        \<and> (require_identity (usb s) \<longrightarrow> volume_id r \<noteq> []))"
  using assms(2)
proof (cases rule: usb_step.cases)
  case (step_verify_end token presented loaded)
  with new trusted_verify [of token presented loaded "usb s" t] show ?thesis by auto
next
  case (step_configure fresh pin confirmation store_ok)
  with inv new configure_usb [of pin confirmation store_ok fresh s] trusted_reset show ?thesis by auto
qed (use new in \<open>auto dest: trusted_request trusted_deny trusted_cancel trusted_remove_mount trusted_retain trusted_recheck\<close>)

section \<open>Properties\<close>

text \<open>
  C35: Whatever sequence of requests, verifications, denials, removals, scan lookups, PIN changes
  and enrollments a new policy goes through, it never tracks more volumes than its bound, its two
  dictionaries stay in one-to-one correspondence, and a volume it records as trusted was not
  cancelled, has an identity where one is required, and is not trusted while a PIN reset is due.
\<close>

theorem usb_runs_safe:
  assumes "new_policy max_attempts lockout_seconds mounts need_identity = Some p"
    and "run (usb_step npath) \<lparr>stored_pin = pin, usb = p, in_flight = []\<rparr> ls s"
  shows "length (by_mount (usb s)) \<le> max_mounts (usb s) \<and> linked (usb s)
    \<and> (\<forall>t r. dict_get (by_id (usb s)) t = Some r \<and> state r = Trusted \<longrightarrow>
         \<not> cancelled r \<and> \<not> pin_reset_required (usb s) \<and> (require_identity (usb s) \<longrightarrow> volume_id r \<noteq> []))"
proof -
  have "usb_inv (usb s)"
    using usb.inv_run [OF assms(2)] new_policy_inv [OF assms(1)] by simp
  then show ?thesis
    by (auto simp: usb_inv_def record_ok_def)
qed

text \<open>
  C31: A volume becomes trusted in no other way than by the end of a verification of its own
  request, whose presented PIN, stripped, is a well-formed PIN equal to the one its loader
  returned, while no reset is due, the request is neither cancelled nor denied nor locked, and
  the volume has an identity where one is required.
\<close>

theorem trusted_only_by_pin:
  assumes "usb_inv (usb s)" and "usb_step npath s l s'"
    and "dict_get (by_id (usb s')) t = Some r'" and "state r' = Trusted"
    and "\<forall>r. dict_get (by_id (usb s)) t = Some r \<longrightarrow> state r \<noteq> Trusted"
  shows "\<exists>presented r. l = VerifyEnd t presented \<and> (t, presented, Some (py_strip presented)) \<in> set (in_flight s)
    \<and> pin_ok (py_strip presented) \<and> \<not> pin_reset_required (usb s)
    \<and> dict_get (by_id (usb s)) t = Some r \<and> \<not> cancelled r \<and> state r \<notin> {Trusted, Denied, Locked}
    \<and> (require_identity (usb s) \<longrightarrow> volume_id r \<noteq> [])"
proof -
  have "trusted_at (usb s') t" "\<not> trusted_at (usb s) t"
    using assms(3-5) by (auto simp: trusted_at_def split: option.split)
  from trusted_step [OF assms(1,2) this] show ?thesis
    by blast
qed

lemma wrong_pin_latches:
  assumes "dict_get (by_id p) token = Some r" and "\<not> cancelled r" and "state r \<notin> {Trusted, Denied, Locked}"
    and "\<not> pin_reset_required p" and "pin_ok pin" and "require_identity p \<longrightarrow> volume_id r \<noteq> []"
    and "py_strip presented \<noteq> pin"
  shows "verify token presented (Some pin) p = (lock_all p, decision_of (lock_record r) False ''locked'')"
  using assms by (auto simp: verify_def pin_configured_def Let_def)

lemma reset_required_refuses:
  assumes "usb_inv p" and "pin_reset_required p"
  shows "\<not> d_approved (snd (verify t presented loaded p))" and "\<not> trusted_at p t"
proof -
  show no: "\<not> trusted_at p t" for t
    using assms by (auto elim!: trusted_atE simp: usb_inv_def record_ok_def)
  show "\<not> d_approved (snd (verify t presented loaded p))"
    using no [of t] assms(2)
    by (auto simp: verify_def Let_def decision_of_def unknown_decision_def trusted_at_def split: option.splits)
qed

text \<open>
  C34: One wrong PIN on an open request closes the whole session: until an operator configures a
  new PIN, no later sequence of operations leaves any volume trusted, and no verification, of
  whatever request and with whatever PIN, is approved.
\<close>

theorem wrong_pin_closes_session:
  assumes "usb_inv (usb s)" and "dict_get (by_id (usb s)) token = Some r" and "\<not> cancelled r"
    and "state r \<notin> {Trusted, Denied, Locked}" and "pin_ok pin"
    and "require_identity (usb s) \<longrightarrow> volume_id r \<noteq> []" and "py_strip presented \<noteq> pin"
    and "run (usb_step npath) (s\<lparr>usb := fst (verify token presented (Some pin) (usb s))\<rparr>) ls s'"
    and "\<forall>l \<in> set ls. \<not> configuring l"
  shows "(\<forall>t r. dict_get (by_id (usb s')) t = Some r \<longrightarrow> state r \<noteq> Trusted)
    \<and> (\<forall>t presented loaded. \<not> d_approved (snd (verify t presented loaded (usb s'))))"
proof -
  let ?s = "s\<lparr>usb := fst (verify token presented (Some pin) (usb s))\<rparr>"
  have "pin_reset_required (usb ?s)"
  proof (cases "pin_reset_required (usb s)")
    case True
    then show ?thesis by (simp add: verify_latch)
  next
    case False
    with wrong_pin_latches [OF assms(2-4) False assms(5-7)] show ?thesis by (simp add: lock_all_def)
  qed
  moreover have "usb_inv (usb ?s)"
    using assms(1) by (simp add: verify_inv)
  ultimately have "usb_inv (usb s')" "pin_reset_required (usb s')"
    using usb.latch_run [OF assms(8)] usb.inv_run [OF assms(8)] assms(9) by simp_all
  note closed = reset_required_refuses [OF this]
  have "state r \<noteq> Trusted" if "dict_get (by_id (usb s')) t = Some r" for t r
    using closed(2) [of t] that by (simp add: trusted_at_def)
  with closed(1) show ?thesis
    by blast
qed

text \<open>
  Configuring a PIN revokes trust and reopens the session without reviving anything: the new
  PIN is stored, no reset is due, the same volumes stay under the gate, every record waits for a
  PIN again, and the token of a cancelled request is no longer known, so that a verification
  still running for it can approve nothing.
\<close>

theorem configure_revokes:
  assumes inv: "usb_inv (usb s)" and fr: "fresh_tokens fresh (usb s)"
    and conf: "configure_usb_pin pin confirmation store_ok fresh s = (s', res)" and "updated res"
  shows "stored_pin s' = Some pin \<and> pin_ok pin \<and> confirmation = pin \<and> \<not> pin_reset_required (usb s')
    \<and> dict_keys (by_mount (usb s')) = dict_keys (by_mount (usb s))
    \<and> (\<forall>t r. dict_get (by_id (usb s')) t = Some r \<longrightarrow> state r = Pending \<and> \<not> cancelled r)
    \<and> (\<forall>t r. dict_get (by_id (usb s)) t = Some r \<longrightarrow>
         dict_get (by_id (usb s')) t = (if cancelled r then None else Some (renewed t r)))"
proof -
  have "pin_ok pin \<and> confirmation = pin \<and> store_ok"
  proof (rule ccontr)
    assume "\<not> ?thesis"
    then have "\<not> updated (snd (configure_usb_pin pin confirmation store_ok fresh s))"
      by (auto simp: configure_usb_pin_def validate_pin_change_def)
    with conf \<open>updated res\<close> show False by simp
  qed
  then have eq: "s' = s\<lparr>stored_pin := Some pin, usb := on_pin_reset fresh (usb s)\<rparr>" "pin_ok pin" "confirmation = pin"
    using conf by (auto simp: configure_usb_pin_def validate_pin_change_def)
  have j: "reset_loop fresh (usb s) (on_pin_reset fresh (usb s)) []"
    using inv fr by (intro on_pin_reset_loop) (simp_all add: usb_inv_def)
  have "\<not> pin_reset_required (on_pin_reset fresh (usb s))"
    "dict_keys (by_mount (on_pin_reset fresh (usb s))) = dict_keys (by_mount (usb s))"
    using j by (simp_all add: reset_loop_def)
  moreover have "dict_get (by_id (on_pin_reset fresh (usb s))) t = (if cancelled r then None else Some (renewed t r))"
    if "dict_get (by_id (usb s)) t = Some r" for t r
    using reset_loop_done(1,3) [OF j that] by simp
  moreover have "stored_pin s' = Some pin" "usb s' = on_pin_reset fresh (usb s)"
    using eq(1) by simp_all
  ultimately show ?thesis
    using eq(2,3) on_pin_reset_inv(2) [OF inv fr] by metis
qed

lemma validate_reason: "validate_pin_change c r = (p, []) \<longleftrightarrow> p = c \<and> pin_ok c \<and> r = c"
  by (auto simp: validate_pin_change_def)

text \<open>
  Enrollment is not a reset: it stores the PIN exactly when the two entries agree, are well
  formed, the store accepts the write and nothing was stored before; in every other case the stored credential
  stays, and in no case do approvals or the session lock change.
\<close>

theorem enroll_only_first:
  "usb (fst (enroll_usb_pin pin confirmation store_ok s)) = usb s
   \<and> stored_pin (fst (enroll_usb_pin pin confirmation store_ok s)) =
       (if pin_ok pin \<and> confirmation = pin \<and> store_ok \<and> stored_pin s = None then Some pin else stored_pin s)
   \<and> updated (snd (enroll_usb_pin pin confirmation store_ok s)) =
       (pin_ok pin \<and> confirmation = pin \<and> store_ok \<and> stored_pin s = None)"
  by (cases "pin_ok pin"; cases "confirmation = pin"; cases store_ok; cases "stored_pin s")
    (simp_all add: enroll_usb_pin_def validate_pin_change_def)

text \<open>
  The second half of a scan lookup answers trusted exactly for the very record the first half
  saw, still trusted, when the identity the provider reports, stripped and lower-cased, is not
  empty and equals the expected one, which the comparison admits only when it is ASCII.
\<close>

theorem recheck_trusts_exactly:
  "snd (target_recheck m token expected answered p) = Inr Trusted \<longleftrightarrow>
     (\<exists>r a. dict_get (by_id p) (dict_get_or (by_mount p) m '''') = Some r \<and> approval_id r = token
        \<and> state r = Trusted \<and> answered = Some a \<and> py_casefold (py_strip a) \<noteq> []
        \<and> py_casefold (py_strip a) = expected \<and> ascii_only expected)"
  by (auto simp: target_recheck_def Let_def split: option.split)

text \<open>
  A scan of a target is authorized exactly when some live policy owns it and every policy
  that owns it and answers records it as trusted; a single other answer denies.
\<close>

theorem scan_authorization_exact:
  "fst (scan_authorization answers) =
     (if \<forall>s. Inr (Some s) \<notin> set answers then None
      else Some (\<forall>s. Inr (Some s) \<in> set answers \<longrightarrow> s = Trusted))"
proof -
  define st where "st = List.map_filter (\<lambda>a. case a of Inl _ \<Rightarrow> None | Inr s \<Rightarrow> s) answers"
  have mem: "s \<in> set st \<longleftrightarrow> Inr (Some s) \<in> set answers" for s
    unfolding st_def by (induction answers) (auto simp: List.map_filter_simps split: sum.splits option.splits)
  have "st = [] \<longleftrightarrow> (\<forall>s. s \<notin> set st)"
    by (cases st) auto
  moreover have "find (\<lambda>s. s \<noteq> Trusted) st = None \<longleftrightarrow> (\<forall>s. s \<in> set st \<longrightarrow> s = Trusted)"
    by (auto simp: find_None_iff)
  ultimately show ?thesis
    unfolding scan_authorization_def st_def [symmetric] Let_def mem
    by (auto split: option.split)
qed

section \<open>A session\<close>

definition demo_policy :: policy where
  "demo_policy = \<lparr>max_mounts = 64, require_identity = True, by_id = [], by_mount = [], pin_reset_required = False\<rparr>"

definition demo_record :: "usb_state \<Rightarrow> approval" where
  "demo_record st = \<lparr>approval_id = ''t'', mountpoint = ''E:'', detected_at = 5, autorun_present = False,
     state = st, attempts_remaining = 1, locked_until = 0, policy_enforced = True, volume_id = ''v1'', cancelled = False\<rparr>"

definition demo_usb :: "usb_state \<Rightarrow> (string \<times> string \<times> string option) list \<Rightarrow> usb_system" where
  "demo_usb st fl = \<lparr>stored_pin = Some ''1234'', usb = demo_policy\<lparr>by_id := [(''t'', demo_record st)], by_mount := [(''E:'', ''t'')]\<rparr>,
     in_flight = fl\<rparr>"

lemma demo_new: "new_policy 3 300 64 True = Some demo_policy"
  by (simp add: new_policy_def demo_policy_def)

lemma pin_1234 [simp]: "pin_ok ''1234''"
  by code_simp

lemma pin_2222 [simp]: "pin_ok ''2222''"
  by code_simp

lemma strip_demo [simp]: "py_strip ''1234'' = ''1234''" "py_strip ''1111'' = ''1111''" "py_strip ''E:'' = ''E:''"
  "py_casefold (py_strip ''v1'') = ''v1''"
  by code_simp+

lemma keys_demo: "mount_key (\<lambda>x. x) ''E:'' = Some ''E:''" "volume_key ''v1'' = Some ''v1''"
  by code_simp+

lemma demo_request:
  "request (\<lambda>x. x) ''E:'' False True ''v1'' 5 True ''t'' demo_policy
   = (usb (demo_usb Pending []), Inr (view_of (demo_record Pending)))"
  by (simp add: request_def keys_demo add_request_def demo_policy_def demo_usb_def demo_record_def put_record_def Let_def)

lemma demo_verify: "fst (verify ''t'' ''1234'' (Some ''1234'') (usb (demo_usb Pending fl))) = usb (demo_usb Trusted [])"
  by (simp add: verify_def demo_usb_def demo_policy_def demo_record_def pin_configured_def Let_def)

lemma demo_run:
  "run (usb_step (\<lambda>x. x)) \<lparr>stored_pin = Some ''1234'', usb = demo_policy, in_flight = []\<rparr>
     [Requested ''t'', VerifyBegin ''t'' ''1234''] (demo_usb Pending [(''t'', ''1234'', Some ''1234'')])"
  "usb_step (\<lambda>x. x) (demo_usb Pending [(''t'', ''1234'', Some ''1234'')]) (VerifyEnd ''t'' ''1234'') (demo_usb Trusted [])"
proof -
  let ?s = "\<lparr>stored_pin = Some ''1234'', usb = demo_policy, in_flight = []\<rparr>"
  have "usb_step (\<lambda>x. x) ?s (Requested ''t'')
      (?s\<lparr>usb := fst (request (\<lambda>x. x) ''E:'' False True ''v1'' 5 (pin_configured (Some ''1234'')) ''t'' (usb ?s))\<rparr>)"
    by (rule step_request) (simp_all add: demo_policy_def)
  moreover have "?s\<lparr>usb := fst (request (\<lambda>x. x) ''E:'' False True ''v1'' 5 (pin_configured (Some ''1234'')) ''t'' (usb ?s))\<rparr>
      = demo_usb Pending []"
    by (simp add: demo_request pin_configured_def) (simp add: demo_usb_def)
  ultimately have 1: "usb_step (\<lambda>x. x) ?s (Requested ''t'') (demo_usb Pending [])"
    by simp
  have "usb_step (\<lambda>x. x) (demo_usb Pending []) (VerifyBegin ''t'' ''1234'')
      ((demo_usb Pending [])\<lparr>in_flight := (''t'', ''1234'', Some ''1234'') # in_flight (demo_usb Pending [])\<rparr>)"
    by (rule step_verify_begin) (simp add: demo_usb_def)
  then have 2: "usb_step (\<lambda>x. x) (demo_usb Pending []) (VerifyBegin ''t'' ''1234'') (demo_usb Pending [(''t'', ''1234'', Some ''1234'')])"
    by (simp add: demo_usb_def)
  show "run (usb_step (\<lambda>x. x)) ?s [Requested ''t'', VerifyBegin ''t'' ''1234''] (demo_usb Pending [(''t'', ''1234'', Some ''1234'')])"
    using 1 2 by (auto simp: run_Cons_iff)
  let ?s2 = "demo_usb Pending [(''t'', ''1234'', Some ''1234'')]"
  have "usb_step (\<lambda>x. x) ?s2 (VerifyEnd ''t'' ''1234'')
      (?s2\<lparr>in_flight := remove1 (''t'', ''1234'', Some ''1234'') (in_flight ?s2),
           usb := fst (verify ''t'' ''1234'' (Some ''1234'') (usb ?s2))\<rparr>)"
    by (rule step_verify_end) (simp add: demo_usb_def)
  then show "usb_step (\<lambda>x. x) ?s2 (VerifyEnd ''t'' ''1234'') (demo_usb Trusted [])"
    unfolding demo_verify by (simp add: demo_usb_def)
qed

lemma demo_inv: "st = Pending \<or> st = Trusted \<Longrightarrow> usb_inv (usb (demo_usb st fl))"
  by (auto simp: usb_inv_def linked_def demo_usb_def demo_policy_def demo_record_def record_ok_def dict_wf_def split: if_splits)

lemma demo_wrong: "fst (verify ''t'' ''1111'' (Some ''1234'') (usb (demo_usb Pending fl))) = lock_all (usb (demo_usb Pending fl))"
  by (simp add: verify_def demo_usb_def demo_policy_def demo_record_def pin_configured_def Let_def)

theorem usb_runs_safe_witness:
  "length (by_mount (usb (demo_usb Pending [(''t'', ''1234'', Some ''1234'')]))) \<le> max_mounts demo_policy"
  using usb_runs_safe [OF demo_new demo_run(1)] by (simp add: demo_usb_def)

theorem trusted_only_by_pin_witness:
  "(''t'', ''1234'', Some ''1234'') \<in> set (in_flight (demo_usb Pending [(''t'', ''1234'', Some ''1234'')])) \<and> pin_ok ''1234''"
  using trusted_only_by_pin [OF demo_inv demo_run(2), of "''t''" "demo_record Trusted"]
  by (auto simp: demo_usb_def demo_record_def)

theorem wrong_pin_closes_session_witness:
  "\<not> d_approved (snd (verify ''t'' ''1234'' (Some ''1234'') (usb (demo_usb Pending [])\<lparr>pin_reset_required := True,
      by_id := [(''t'', lock_record (demo_record Pending))]\<rparr>)))"
proof -
  note c = wrong_pin_closes_session [where s = "demo_usb Pending []" and token = "''t''" and r = "demo_record Pending"
      and pin = "''1234''" and presented = "''1111''" and ls = "[]" and npath = "\<lambda>x. x", OF demo_inv _ _ _ pin_1234 _ _ run_nil]
  have "dict_get (by_id (usb (demo_usb Pending []))) ''t'' = Some (demo_record Pending)"
    by (simp add: demo_usb_def)
  with c show ?thesis
    unfolding demo_wrong by (simp add: demo_record_def demo_usb_def lock_all_def demo_policy_def)
qed

theorem configure_revokes_witness:
  "\<exists>s'. fst (configure_usb_pin ''2222'' ''2222'' True (\<lambda>t. CHR ''n'' # t) (demo_usb Trusted [])) = s'
     \<and> stored_pin s' = Some ''2222'' \<and> dict_get (by_id (usb s')) ''t'' = Some (renewed ''t'' (demo_record Trusted))"
proof -
  let ?fr = "\<lambda>t. CHR ''n'' # t" and ?s = "demo_usb Trusted []"
  have fr: "fresh_tokens ?fr (usb ?s)"
    by (simp add: fresh_tokens_def demo_usb_def)
  have "configure_usb_pin ''2222'' ''2222'' True ?fr ?s
      = (fst (configure_usb_pin ''2222'' ''2222'' True ?fr ?s), \<lparr>updated = True, change_reason = ''pin_configured''\<rparr>)"
    by (simp add: configure_usb_pin_def validate_pin_change_def)
  from configure_revokes [OF demo_inv fr this] show ?thesis
    by (simp add: demo_usb_def demo_record_def)
qed

text \<open>
  \<open>verify\<close> compares with the credential it loaded before taking the lock: a verification begun
  before a reset and ending after it approves its volume with the PIN that was just replaced.
\<close>

lemma stale_pin_trusts:
  "\<exists>s. run (usb_step (\<lambda>x. x)) (demo_usb Pending []) [VerifyBegin ''t'' ''1234'', Configuring ''2222'' ''2222'', VerifyEnd ''t'' ''1234''] s
     \<and> trusted_at (usb s) ''t'' \<and> stored_pin s = Some ''2222''"
proof -
  let ?fl = "[(''t'', ''1234'', Some ''1234'')]" and ?fr = "\<lambda>t. CHR ''n'' # t"
  have "usb_step (\<lambda>x. x) (demo_usb Pending []) (VerifyBegin ''t'' ''1234'')
      ((demo_usb Pending [])\<lparr>in_flight := (''t'', ''1234'', Some ''1234'') # in_flight (demo_usb Pending [])\<rparr>)"
    by (rule step_verify_begin) (simp add: demo_usb_def)
  then have 1: "usb_step (\<lambda>x. x) (demo_usb Pending []) (VerifyBegin ''t'' ''1234'') (demo_usb Pending ?fl)"
    by (simp add: demo_usb_def)
  have "usb_step (\<lambda>x. x) (demo_usb Pending ?fl) (Configuring ''2222'' ''2222'')
      (fst (configure_usb_pin ''2222'' ''2222'' True ?fr (demo_usb Pending ?fl)))"
    by (rule step_configure) (simp add: fresh_tokens_def demo_usb_def)
  then have 2: "usb_step (\<lambda>x. x) (demo_usb Pending ?fl) (Configuring ''2222'' ''2222'') ((demo_usb Pending ?fl)\<lparr>stored_pin := Some ''2222''\<rparr>)"
    by (simp add: configure_usb_pin_def validate_pin_change_def demo_usb_def on_pin_reset_def reset_record_def
        put_record_def demo_record_def demo_policy_def)
  let ?s = "(demo_usb Pending ?fl)\<lparr>stored_pin := Some ''2222''\<rparr>"
  define s3 where "s3 = ?s\<lparr>in_flight := [], usb := fst (verify ''t'' ''1234'' (Some ''1234'') (usb ?s))\<rparr>"
  have "usb_step (\<lambda>x. x) ?s (VerifyEnd ''t'' ''1234'')
      (?s\<lparr>in_flight := remove1 (''t'', ''1234'', Some ''1234'') (in_flight ?s),
          usb := fst (verify ''t'' ''1234'' (Some ''1234'') (usb ?s))\<rparr>)"
    by (rule step_verify_end) (simp add: demo_usb_def)
  moreover have "remove1 (''t'', ''1234'', Some ''1234'') (in_flight ?s) = []"
    by (simp add: demo_usb_def)
  ultimately have 3: "usb_step (\<lambda>x. x) ?s (VerifyEnd ''t'' ''1234'') s3"
    unfolding s3_def by (simp only:)
  have "trusted_at (usb (demo_usb Trusted [])) ''t''"
    by (simp add: demo_usb_def trusted_at_def demo_record_def)
  moreover have "usb s3 = usb (demo_usb Trusted [])" "stored_pin s3 = Some ''2222''"
    using demo_verify [of ?fl] by (simp_all add: s3_def)
  moreover have "run (usb_step (\<lambda>x. x)) (demo_usb Pending []) [VerifyBegin ''t'' ''1234'', Configuring ''2222'' ''2222'', VerifyEnd ''t'' ''1234''] s3"
    using 1 2 3 unfolding run_Cons_iff run_Nil_iff by blast
  ultimately show ?thesis
    by metis
qed

theorem scan_authorization_exact_witness:
  "fst (scan_authorization [Inr None, Inr (Some Trusted)]) = Some True
   \<and> fst (scan_authorization [Inr (Some Trusted), Inr (Some Locked)]) = Some False"
  unfolding scan_authorization_exact by auto

end
