(* ===== verification/Canonical_Json.thy ===== *)
theory Canonical_Json
  imports Angerona_Prelude "HOL-Library.Char_ord" "HOL-Library.List_Lexorder"
begin

text \<open>
  The canonical JSON that the suite signs and hashes: \<open>json.dumps\<close> with sorted keys, no spaces and
  no non-finite numbers, as \<open>_canonical\<close> of \<^verbatim>\<open>core/response_capability.py\<close>,
  \<^verbatim>\<open>core/response_broker.py\<close>, \<^verbatim>\<open>core/authorization.py\<close> and \<open>canonical\<close> of
  \<^verbatim>\<open>core/approval_identity.py\<close> call it.

  \<open>repr\<close> of a finite float (the shortest decimal that reads back) is the parameter \<open>flt\<close>; what the
  uniqueness theorem needs of it is \<open>float_printer\<close>.  Encoding is total on finite values: \<open>None\<close> is
  the \<open>ValueError\<close> of \<open>allow_nan=False\<close>.
\<close>

section \<open>Numbers and strings\<close>

fun show_nat :: "nat \<Rightarrow> string" where
  "show_nat n = (if n < 10 then [char_of (48 + n)] else show_nat (n div 10) @ [char_of (48 + n mod 10)])"

declare show_nat.simps [simp del]

definition show_int :: "int \<Rightarrow> string" where
  "show_int i = (if i < 0 then CHR ''-'' # show_nat (nat (- i)) else show_nat (nat i))"

definition hex_digit :: "nat \<Rightarrow> char" where
  "hex_digit n = (if n < 10 then char_of (48 + n) else char_of (87 + n))"

text \<open>With \<open>ascii\<close> everything outside the printable ASCII range is escaped.\<close>

definition json_char :: "bool \<Rightarrow> char \<Rightarrow> string" where
  "json_char ascii c =
     (let n = (of_char c :: nat) in
      if n = 34 then [CHR 0x5C, CHR 0x22]
      else if n = 92 then [CHR 0x5C, CHR 0x5C]
      else if n = 10 then [CHR 0x5C, CHR ''n'']
      else if n = 13 then [CHR 0x5C, CHR ''r'']
      else if n = 9 then [CHR 0x5C, CHR ''t'']
      else if n = 8 then [CHR 0x5C, CHR ''b'']
      else if n = 12 then [CHR 0x5C, CHR ''f'']
      else if n < 32 \<or> ascii \<and> 126 < n
      then [CHR 0x5C, CHR ''u'', CHR ''0'', CHR ''0'', hex_digit (n div 16), hex_digit (n mod 16)]
      else [c])"

definition json_string :: "bool \<Rightarrow> string \<Rightarrow> string" where
  "json_string ascii s = CHR 0x22 # concat (map (json_char ascii) s) @ [CHR 0x22]"

section \<open>Values\<close>

fun join :: "string list \<Rightarrow> string" where
  "join [] = []"
| "join [s] = s"
| "join (s # t # ts) = s @ CHR '','' # join (t # ts)"

primrec json_finite :: "pyval \<Rightarrow> bool" where
  "json_finite PNone = True"
| "json_finite (PBool b) = True"
| "json_finite (PInt i) = True"
| "json_finite (PFloat f) = (case f of Fin _ \<Rightarrow> True | _ \<Rightarrow> False)"
| "json_finite (PStr s) = True"
| "json_finite (PList vs) = list_all (\<lambda>x. x) (map json_finite vs)"
| "json_finite (PDict kvs) = list_all snd (map (map_prod id json_finite) kvs)"

primrec json_sorted :: "pyval \<Rightarrow> pyval" where
  "json_sorted PNone = PNone"
| "json_sorted (PBool b) = PBool b"
| "json_sorted (PInt i) = PInt i"
| "json_sorted (PFloat f) = PFloat f"
| "json_sorted (PStr s) = PStr s"
| "json_sorted (PList vs) = PList (map json_sorted vs)"
| "json_sorted (PDict kvs) = PDict (sort_key fst (map (map_prod id json_sorted) kvs))"

primrec json_text :: "bool \<Rightarrow> (rat \<Rightarrow> string) \<Rightarrow> pyval \<Rightarrow> string" where
  "json_text ascii flt PNone = ''null''"
| "json_text ascii flt (PBool b) = (if b then ''true'' else ''false'')"
| "json_text ascii flt (PInt i) = show_int i"
| "json_text ascii flt (PFloat f) = (case f of Fin r \<Rightarrow> flt r | PosInf \<Rightarrow> ''Infinity'' | NegInf \<Rightarrow> ''-Infinity'' | Nan \<Rightarrow> ''NaN'')"
| "json_text ascii flt (PStr s) = json_string ascii s"
| "json_text ascii flt (PList vs) = CHR ''['' # join (map (json_text ascii flt) vs) @ '']''"
| "json_text ascii flt (PDict kvs) = CHR ''{'' # join (map (\<lambda>(k, t). json_string ascii k @ CHR '':'' # t)
     (map (map_prod id (json_text ascii flt)) kvs)) @ ''}''"

text \<open>\<open>str.encode("utf-8")\<close> of code points below 256.\<close>

definition utf8_char :: "char \<Rightarrow> bytes" where
  "utf8_char c = (let n = (of_char c :: nat) in
     if n < 128 then [of_nat n] else [of_nat (192 + n div 64), of_nat (128 + n mod 64)])"

definition utf8 :: "string \<Rightarrow> bytes" where
  "utf8 s = concat (map utf8_char s)"

definition canonical :: "bool \<Rightarrow> (rat \<Rightarrow> string) \<Rightarrow> pyval \<Rightarrow> bytes option" where
  "canonical ascii flt v = (if json_finite v then Some (utf8 (json_text ascii flt (json_sorted v))) else None)"

text \<open>\<open>hexdigest()\<close> of a byte string.\<close>

definition hex_text :: "bytes \<Rightarrow> string" where
  "hex_text bs = concat (map (\<lambda>b. [hex_digit (unat b div 16), hex_digit (unat b mod 16)]) bs)"

section \<open>The encoding is unambiguous\<close>

definition num_char :: "char \<Rightarrow> bool" where
  "num_char c \<longleftrightarrow> (let n = (of_char c :: nat) in 48 \<le> n \<and> n \<le> 57 \<or> n = 45 \<or> n = 43 \<or> n = 46 \<or> n = 101)"

definition float_printer :: "(rat \<Rightarrow> string) \<Rightarrow> bool" where
  "float_printer flt \<longleftrightarrow> inj flt \<and> (\<forall>r. list_all num_char (flt r) \<and> (CHR ''.'' \<in> set (flt r) \<or> CHR ''e'' \<in> set (flt r)))"

definition digit_char :: "char \<Rightarrow> bool" where
  "digit_char c \<longleftrightarrow> (let n = (of_char c :: nat) in 48 \<le> n \<and> n \<le> 57)"

lemma digit_char_of: "(n::nat) < 10 \<Longrightarrow> digit_char (char_of (48 + n))"
  by (simp add: digit_char_def)

lemma show_nat_digits: "list_all digit_char (show_nat n)"
  by (induction n rule: show_nat.induct) (subst show_nat.simps, simp add: digit_char_of)

lemma show_nat_not_Nil [simp]: "show_nat n \<noteq> []"
  by (subst show_nat.simps) simp

definition read_digits :: "string \<Rightarrow> nat" where
  "read_digits s = foldl (\<lambda>a c. 10 * a + (of_char c - 48)) 0 s"

lemma read_show_nat: "read_digits (show_nat n) = n"
proof (induction n rule: show_nat.induct)
  case (1 n)
  have small: "(of_char (char_of (48 + k) :: char) :: nat) = 48 + k" if "k < 10" for k :: nat
    using that by simp
  show ?case
  proof (cases "n < 10")
    case True
    then show ?thesis
      by (subst show_nat.simps) (simp add: read_digits_def small)
  next
    case False
    with 1 have "foldl (\<lambda>a c. 10 * a + (of_char c - 48)) 0 (show_nat (n div 10)) = n div 10"
      by (simp add: read_digits_def)
    with False show ?thesis
      by (subst show_nat.simps) (simp add: read_digits_def small)
  qed
qed

lemma show_nat_inj: "show_nat m = show_nat n \<Longrightarrow> m = n"
  by (metis read_show_nat)

lemma digit_num: "digit_char c \<Longrightarrow> num_char c"
  by (simp add: digit_char_def num_char_def Let_def)

lemma show_int_num: "list_all num_char (show_int i)"
proof -
  have "list_all num_char (show_nat n)" for n
    using show_nat_digits [of n] digit_num by (auto simp: list_all_iff)
  moreover have "num_char (CHR ''-'')"
    by (simp add: num_char_def)
  ultimately show ?thesis
    by (simp add: show_int_def)
qed

lemma show_int_plain: "CHR ''.'' \<notin> set (show_int i) \<and> CHR ''e'' \<notin> set (show_int i)"
proof -
  have no_digit: "\<not> digit_char (CHR ''.'')" "\<not> digit_char (CHR ''e'')"
    by (simp_all add: digit_char_def)
  have "CHR ''.'' \<notin> set (show_nat n) \<and> CHR ''e'' \<notin> set (show_nat n)" for n
    using show_nat_digits [of n] no_digit by (auto simp: list_all_iff)
  then show ?thesis
    by (simp add: show_int_def)
qed

lemma show_int_not_Nil [simp]: "show_int i \<noteq> []"
  by (simp add: show_int_def)

lemma show_int_inj: "show_int i = show_int j \<Longrightarrow> i = j"
proof -
  have no_digit: "\<not> digit_char (CHR ''-'')"
    by (simp add: digit_char_def)
  have "show_nat n \<noteq> CHR ''-'' # t" for n t
    using show_nat_digits [of n] no_digit by (cases "show_nat n") auto
  moreover from this have "CHR ''-'' # t \<noteq> show_nat n" for n t
    by metis
  moreover assume "show_int i = show_int j"
  ultimately show ?thesis
    by (auto simp: show_int_def split: if_splits dest!: show_nat_inj)
qed

definition delim :: "string \<Rightarrow> bool" where
  "delim r \<longleftrightarrow> (case r of [] \<Rightarrow> True | c # _ \<Rightarrow> c \<in> {CHR '','', CHR ''}'', CHR '']''})"

lemma delim_num: "delim r \<Longrightarrow> r = [] \<or> \<not> num_char (hd r)"
  by (cases r) (auto simp: delim_def num_char_def)

lemma token_unique:
  assumes "list_all num_char t" "list_all num_char t'" "delim r" "delim r'" "t @ r = t' @ r'"
  shows "t = t' \<and> r = r'"
proof -
  have "takeWhile num_char (u @ w) = u" if "list_all num_char u" "delim w" for u w
    using that delim_num [of w] by (cases w) (auto simp: list_all_iff takeWhile_append)
  from this [OF assms(1,3)] this [OF assms(2,4)] assms(5) show ?thesis
    by simp
qed

subsection \<open>Strings\<close>

definition unhex :: "char \<Rightarrow> nat" where
  "unhex c = (let n = of_char c in if n < 58 then n - 48 else n - 87)"

lemma unhex_digit: "n < 16 \<Longrightarrow> unhex (hex_digit n) = n"
  by (simp add: unhex_def hex_digit_def)

fun json_unchar :: "string \<Rightarrow> (char \<times> string) option" where
  "json_unchar [] = None"
| "json_unchar (c # r) =
     (if c \<noteq> CHR 0x5C then Some (c, r)
      else case r of [] \<Rightarrow> None
      | d # r' \<Rightarrow>
          if d = CHR ''u'' then Some (char_of (16 * unhex (r' ! 2) + unhex (r' ! 3)), drop 4 r')
          else if d = CHR ''n'' then Some (char_of (10 :: nat), r')
          else if d = CHR ''r'' then Some (char_of (13 :: nat), r')
          else if d = CHR ''t'' then Some (char_of (9 :: nat), r')
          else if d = CHR ''b'' then Some (char_of (8 :: nat), r')
          else if d = CHR ''f'' then Some (char_of (12 :: nat), r')
          else Some (d, r'))"

lemma char_eq_of: "(of_char c :: nat) = n \<Longrightarrow> c = char_of n"
  by auto

lemma quote_chars: "CHR 0x22 = char_of (34 :: nat)" "CHR 0x5C = char_of (92 :: nat)"
  by (rule char_eq_of, simp)+

lemma json_unchar_hex:
  "json_unchar (CHR 0x5C # CHR ''u'' # a # b # d # e # r) = Some (char_of (16 * unhex d + unhex e), r)"
  by simp

lemma json_unchar: "json_unchar (json_char ascii c @ r) = Some (c, r)"
proof -
  define n where "n = (of_char c :: nat)"
  have c: "c = char_of n" and n: "n < 256"
    by (simp_all add: n_def)
  have bs: "n \<noteq> 92 \<Longrightarrow> c \<noteq> CHR 0x5C"
    by (auto simp: n_def)
  have hex: "16 * unhex (hex_digit (n div 16)) + unhex (hex_digit (n mod 16)) = n"
    using n by (simp add: unhex_digit)
  consider "n \<in> {34, 92, 10, 13, 9, 8, 12}" | "n \<notin> {34, 92, 10, 13, 9, 8, 12}" "n < 32 \<or> ascii \<and> 126 < n"
    | "n \<notin> {34, 92, 10, 13, 9, 8, 12}" "\<not> (n < 32 \<or> ascii \<and> 126 < n)"
    by blast
  then show ?thesis
  proof cases
    case 1
    then show ?thesis
      unfolding json_char_def Let_def n_def [symmetric] by (elim insertE) (simp_all add: c quote_chars [symmetric])
  next
    case 2
    then show ?thesis
      unfolding json_char_def Let_def n_def [symmetric] by (simp add: json_unchar_hex hex c del: json_unchar.simps)
  next
    case 3
    then show ?thesis
      unfolding json_char_def Let_def n_def [symmetric] using bs by auto
  qed
qed

lemma json_char_hd: "json_char ascii c @ r \<noteq> CHR 0x22 # s"
proof
  assume a: "json_char ascii c @ r = CHR 0x22 # s"
  then have "json_unchar (json_char ascii c @ r) = Some (CHR 0x22, s)"
    by simp
  then have "c = CHR 0x22"
    by (simp add: json_unchar)
  with a show False
    by (simp add: json_char_def)
qed

lemma json_chars_unique:
  "concat (map (json_char ascii) s) @ CHR 0x22 # r = concat (map (json_char ascii) s') @ CHR 0x22 # r' \<Longrightarrow> s = s' \<and> r = r'"
proof (induction s arbitrary: s')
  case Nil
  then show ?case
    using json_char_hd by (cases s') (auto dest: sym)
next
  case (Cons c s)
  then obtain c' t where s': "s' = c' # t"
    using json_char_hd by (cases s') auto
  let ?x = "concat (map (json_char ascii) s) @ CHR 0x22 # r" and ?y = "concat (map (json_char ascii) t) @ CHR 0x22 # r'"
  have "json_char ascii c @ ?x = json_char ascii c' @ ?y"
    using Cons.prems s' by simp
  then have "json_unchar (json_char ascii c @ ?x) = json_unchar (json_char ascii c' @ ?y)"
    by (rule arg_cong)
  then have "c = c'" "?x = ?y"
    by (simp_all add: json_unchar)
  with Cons.IH s' show ?case
    by blast
qed

lemma json_string_unique: "json_string ascii s @ r = json_string ascii s' @ r' \<Longrightarrow> s = s' \<and> r = r'"
  using json_chars_unique [of ascii s r s' r'] by (simp add: json_string_def)

subsection \<open>Values\<close>

lemma delim_simps [simp]: "delim []" "delim (CHR '','' # r)" "delim (CHR '']'' # r)" "delim (CHR ''}'' # r)"
  by (simp_all add: delim_def)

lemma join_unique:
  assumes "\<forall>x \<in> set xs. \<forall>y s s'. Q y \<longrightarrow> delim s \<longrightarrow> delim s' \<longrightarrow> f x @ s = f y @ s' \<longrightarrow> x = y \<and> s = s'"
    and "\<forall>x. f x \<noteq> [] \<and> hd (f x) \<noteq> z" and "\<forall>y \<in> set ys. Q y" and z: "delim [z]" "z \<noteq> CHR '',''"
    and "join (map f xs) @ z # r = join (map f ys) @ z # r'"
  shows "xs = ys \<and> r = r'"
  using assms(1,3,6)
proof (induction xs arbitrary: ys)
  case Nil
  have "z # r \<noteq> f y @ s" for y s
    using assms(2) by (cases "f y") (auto dest: spec [of _ y])
  then show ?case
    using Nil.prems by (cases ys; cases "tl ys") auto
next
  case (Cons x xs)
  have zd: "delim (z # s)" for s
    using z(1) by (simp add: delim_def)
  have ne: "z # s \<noteq> f y @ s'" for y s s'
    using assms(2) by (cases "f y") (auto dest: spec [of _ y])
  define tl' where "tl' us w = (if us = [] then [] else CHR '','' # join (map f us)) @ z # w" for us w
  have tl': "delim (tl' us w)" for us w
    by (simp add: tl'_def zd)
  have split: "join (map f (u # us)) @ z # w = f u @ tl' us w" for u us w
    by (cases us) (simp_all add: tl'_def)
  show ?case
  proof (cases ys)
    case Nil
    with Cons.prems(3) have "z # r' = f x @ tl' xs r"
      unfolding split by simp
    with ne show ?thesis by blast
  next
    case ys: (Cons y ys')
    have "f x @ tl' xs r = f y @ tl' ys' r'" and "Q y"
      using Cons.prems(2,3) unfolding ys split by simp_all
    with Cons.prems(1) tl' have "x = y" "tl' xs r = tl' ys' r'"
      by (meson list.set_intros(1))+
    moreover have "xs = ys' \<and> r = r'"
    proof (cases "xs = [] \<or> ys' = []")
      case True
      with \<open>tl' xs r = tl' ys' r'\<close> z(2) show ?thesis
        by (auto simp: tl'_def split: if_splits)
    next
      case False
      with \<open>tl' xs r = tl' ys' r'\<close> have "join (map f xs) @ z # r = join (map f ys') @ z # r'"
        by (simp add: tl'_def)
      then show ?thesis
        using Cons.prems(1,2) ys by (intro Cons.IH) simp_all
    qed
    ultimately show ?thesis
      using ys by simp
  qed
qed

lemma num_hd: "list_all num_char t \<Longrightarrow> t \<noteq> [] \<Longrightarrow> \<not> num_char c \<Longrightarrow> t @ r \<noteq> c # s"
  by (cases t) auto

lemma not_num [simp]: "\<not> num_char (CHR ''n'')" "\<not> num_char (CHR ''t'')" "\<not> num_char (CHR ''f'')"
  "\<not> num_char (CHR 0x22)" "\<not> num_char (CHR ''['')" "\<not> num_char (CHR ''{'')" "\<not> num_char (CHR '']'')" "\<not> num_char (CHR ''}'')"
  by (simp_all add: num_char_def)

lemma float_printerD:
  assumes "float_printer flt"
  shows "list_all num_char (flt r)" and "flt r \<noteq> []" and "flt r = flt r' \<Longrightarrow> r = r'" and "flt r \<noteq> show_int i"
  using assms show_int_plain [of i] by (auto simp: float_printer_def inj_def dest: spec [of _ r])

lemma json_text_hd:
  assumes "float_printer flt"
  shows "json_text ascii flt v \<noteq> []" and "hd (json_text ascii flt v) \<notin> {CHR '']'', CHR ''}''}"
proof -
  have num: "t \<noteq> [] \<and> hd t \<notin> {CHR '']'', CHR ''}''}" if "list_all num_char t" "t \<noteq> []" for t
    using that by (cases t) auto
  have "json_text ascii flt v \<noteq> [] \<and> hd (json_text ascii flt v) \<notin> {CHR '']'', CHR ''}''}"
    using num [OF show_int_num show_int_not_Nil] num [OF float_printerD(1,2) [OF assms]]
    by (cases v) (auto simp: json_string_def split: pyfloat.splits)
  then show "json_text ascii flt v \<noteq> []" and "hd (json_text ascii flt v) \<notin> {CHR '']'', CHR ''}''}"
    by blast+
qed

lemma json_text_numbers:
  assumes "float_printer flt" and "delim r" "delim r'"
  shows "show_int i @ r = show_int j @ r' \<Longrightarrow> i = j \<and> r = r'"
    and "flt x @ r = flt y @ r' \<Longrightarrow> x = y \<and> r = r'"
    and "show_int i @ r \<noteq> flt y @ r'" and "flt x @ r \<noteq> show_int j @ r'"
  using token_unique [OF show_int_num show_int_num assms(2,3)] show_int_inj
    token_unique [OF float_printerD(1) [OF assms(1)] float_printerD(1) [OF assms(1)] assms(2,3)] float_printerD(3) [OF assms(1)]
    token_unique [OF show_int_num float_printerD(1) [OF assms(1)] assms(2,3)] float_printerD(4) [OF assms(1)]
    token_unique [OF float_printerD(1) [OF assms(1)] show_int_num assms(2,3)]
  by metis+

lemma json_string_hd: "json_string ascii s @ r = CHR 0x22 # concat (map (json_char ascii) s) @ CHR 0x22 # r"
  by (simp add: json_string_def)

lemma json_dict_text:
  "json_text ascii flt (PDict kvs) = CHR ''{'' # join (map (\<lambda>p. json_string ascii (fst p) @ CHR '':'' # json_text ascii flt (snd p)) kvs) @ ''}''"
  by (simp add: comp_def case_prod_beta)

lemma json_number_hd:
  assumes "float_printer flt" and "\<not> num_char c"
  shows "show_int i @ r \<noteq> c # s" and "flt x @ r \<noteq> c # s" and "c # s \<noteq> show_int i @ r" and "c # s \<noteq> flt x @ r"
  using num_hd [OF show_int_num show_int_not_Nil assms(2)] num_hd [OF float_printerD(1,2) [OF assms(1)] assms(2)]
  by metis+

theorem json_text_unique:
  assumes fp: "float_printer flt"
  shows "json_finite v \<Longrightarrow> json_finite v' \<Longrightarrow> delim r \<Longrightarrow> delim r' \<Longrightarrow>
    json_text ascii flt v @ r = json_text ascii flt v' @ r' \<Longrightarrow> v = v' \<and> r = r'"
proof (induction v arbitrary: v' r r')
  case PNone
  then show ?case
    using json_number_hd [OF fp] by (cases v') (auto simp: json_string_hd split: pyfloat.splits if_splits)
next
  case (PBool b)
  then show ?case
    using json_number_hd [OF fp] by (cases v') (auto simp: json_string_hd split: pyfloat.splits if_splits)
next
  case (PInt i)
  show ?case
  proof (cases v')
    case (PFloat f)
    with PInt json_text_numbers(3) [OF fp] show ?thesis by (auto split: pyfloat.splits)
  next
    case (PInt j)
    with \<open>json_text ascii flt (pyval.PInt i) @ r = json_text ascii flt v' @ r'\<close> \<open>delim r\<close> \<open>delim r'\<close> json_text_numbers(1) [OF fp]
    show ?thesis by auto
  qed (use PInt json_number_hd [OF fp] in \<open>auto simp: json_string_hd split: if_splits\<close>)
next
  case (PFloat f)
  then obtain x where f: "f = Fin x"
    by (cases f) auto
  show ?case
  proof (cases v')
    case (PFloat f')
    with PFloat.prems f json_text_numbers(2) [OF fp] show ?thesis by (auto split: pyfloat.splits)
  next
    case (PInt j)
    with PFloat.prems f json_text_numbers(4) [OF fp] show ?thesis by auto
  qed (use PFloat.prems f json_number_hd [OF fp] in \<open>auto simp: json_string_hd split: if_splits\<close>)
next
  case PStr: (PStr s)
  show ?case
  proof (cases v')
    case v': (PStr s')
    with PStr.prems(5) have "json_string ascii s @ r = json_string ascii s' @ r'"
      by simp
    from json_string_unique [OF this] v' show ?thesis by simp
  qed (use PStr.prems json_number_hd [OF fp] in \<open>auto simp: json_string_hd split: if_splits pyfloat.splits\<close>)
next
  case (PList vs)
  show ?case
  proof (cases v')
    case (PList vs')
    have "vs = vs' \<and> r = r'"
    proof (rule join_unique [where Q = json_finite and f = "json_text ascii flt" and z = "CHR '']''"])
      show "\<forall>x \<in> set vs. \<forall>y s s'. json_finite y \<longrightarrow> delim s \<longrightarrow> delim s' \<longrightarrow>
          json_text ascii flt x @ s = json_text ascii flt y @ s' \<longrightarrow> x = y \<and> s = s'"
        using PList.IH PList.prems(1) by (auto simp: list_all_iff)
      show "\<forall>x. json_text ascii flt x \<noteq> [] \<and> hd (json_text ascii flt x) \<noteq> CHR '']''"
        using json_text_hd [OF fp] by blast
    qed (use PList PList.prems in \<open>auto simp: list_all_iff\<close>)
    with PList show ?thesis by simp
  qed (use PList.prems json_number_hd [OF fp] in \<open>auto simp: json_string_hd split: if_splits pyfloat.splits\<close>)
next
  case (PDict kvs)
  show ?case
  proof (cases v')
    case (PDict kvs')
    let ?f = "\<lambda>p. json_string ascii (fst p) @ CHR '':'' # json_text ascii flt (snd p)"
    have "kvs = kvs' \<and> r = r'"
    proof (rule join_unique [where Q = "\<lambda>p. json_finite (snd p)" and f = ?f and z = "CHR ''}''"])
      show "\<forall>x \<in> set kvs. \<forall>y s s'. json_finite (snd y) \<longrightarrow> delim s \<longrightarrow> delim s' \<longrightarrow>
          ?f x @ s = ?f y @ s' \<longrightarrow> x = y \<and> s = s'"
      proof (intro ballI allI impI)
        fix x y s s'
        assume x: "x \<in> set kvs" and y: "json_finite (snd y)" and d: "delim s" "delim s'" and "?f x @ s = ?f y @ s'"
        then have "json_string ascii (fst x) @ (CHR '':'' # json_text ascii flt (snd x) @ s)
            = json_string ascii (fst y) @ (CHR '':'' # json_text ascii flt (snd y) @ s')"
          by simp
        then have "fst x = fst y" and t: "json_text ascii flt (snd x) @ s = json_text ascii flt (snd y) @ s'"
          by (auto dest: json_string_unique)
        moreover have "json_finite (snd x)"
          using PDict.prems(1) x by (auto simp: list_all_iff)
        then have "snd x = snd y \<and> s = s'"
          using x by (intro PDict.IH [OF x _ _ y d t]) (auto intro: snds.intros)
        ultimately show "x = y \<and> s = s'"
          by (simp add: prod_eq_iff)
      qed
      show "\<forall>x. ?f x \<noteq> [] \<and> hd (?f x) \<noteq> CHR ''}''"
        by (simp add: json_string_def)
    qed (use PDict PDict.prems in \<open>auto simp: list_all_iff json_dict_text simp del: json_text.simps(7)\<close>)
    with PDict show ?thesis by simp
  qed (use PDict.prems json_number_hd [OF fp] in \<open>auto simp: json_string_hd split: if_splits pyfloat.splits\<close>)
qed

definition utf8_nats :: "char \<Rightarrow> nat list" where
  "utf8_nats c = (let n = of_char c in if n < 128 then [n] else [192 + n div 64, 128 + n mod 64])"

lemma utf8_char_nats: "map unat (utf8_char c) = utf8_nats c"
proof -
  define n where "n = (of_char c :: nat)"
  have "n < 256"
    by (simp add: n_def)
  then have "(192 + n div 64) mod 256 = 192 + n div 64" "(128 + n mod 64) mod 256 = 128 + n mod 64"
    by auto
  then show ?thesis
    using \<open>n < 256\<close> unfolding utf8_char_def utf8_nats_def Let_def n_def [symmetric]
    by (simp add: unat_of_nat del: of_nat_add)
qed

lemma utf8_nats_unique: "utf8_nats c @ r = utf8_nats c' @ r' \<Longrightarrow> c = c' \<and> r = r'"
proof -
  define n m where "n = (of_char c :: nat)" and "m = (of_char c' :: nat)"
  assume a: "utf8_nats c @ r = utf8_nats c' @ r'"
  have "n = m \<and> r = r'"
  proof (cases "128 \<le> n \<and> 128 \<le> m")
    case True
    with a have "n div 64 = m div 64" "n mod 64 = m mod 64" "r = r'"
      unfolding utf8_nats_def Let_def n_def [symmetric] m_def [symmetric] by auto
    then show ?thesis by (metis div_mult_mod_eq)
  next
    case False
    with a show ?thesis
      unfolding utf8_nats_def Let_def n_def [symmetric] m_def [symmetric] by (auto split: if_splits)
  qed
  then show ?thesis
    using of_char_eq_iff [where 'a = nat, of c c'] by (simp add: n_def m_def)
qed

lemma utf8_unique: "utf8 s = utf8 s' \<Longrightarrow> s = s'"
proof -
  have "concat (map utf8_nats s) = concat (map utf8_nats s') \<Longrightarrow> s = s'"
  proof (induction s arbitrary: s')
    case Nil
    then show ?case by (cases s') (auto simp: utf8_nats_def Let_def split: if_splits)
  next
    case (Cons c s)
    then obtain c' t where "s' = c' # t"
      by (cases s') (auto simp: utf8_nats_def Let_def split: if_splits)
    with Cons utf8_nats_unique [of c "concat (map utf8_nats s)" c' "concat (map utf8_nats t)"] show ?case
      by simp
  qed
  moreover assume "utf8 s = utf8 s'"
  then have "map unat (utf8 s) = map unat (utf8 s')"
    by simp
  then have "concat (map utf8_nats s) = concat (map utf8_nats s')"
    by (simp add: utf8_def map_concat comp_def utf8_char_nats)
  ultimately show ?thesis
    by simp
qed

section \<open>Property\<close>

lemma canonical_inj:
  assumes "float_printer flt" and "canonical ascii flt v = Some bs" and "canonical ascii flt v' = Some bs"
  shows "json_sorted v = json_sorted v'"
proof -
  have fin: "json_finite v \<Longrightarrow> json_finite (json_sorted v)" for v
    by (induction v) (auto simp: list_all_iff)
  have "utf8 (json_text ascii flt (json_sorted v)) = utf8 (json_text ascii flt (json_sorted v'))"
    and f: "json_finite v" "json_finite v'"
    using assms(2,3) by (auto simp: canonical_def split: if_splits)
  then have "json_text ascii flt (json_sorted v) @ [] = json_text ascii flt (json_sorted v') @ []"
    using utf8_unique by simp
  from json_text_unique [OF assms(1) fin [OF f(1)] fin [OF f(2)] _ _ this] show ?thesis
    by simp
qed

text \<open>
  C36: Canonical JSON is unambiguous: two values that encode to the same bytes are the same value,
  up to the order of dictionary items, which the encoding sorts.  A digest or tag over the
  canonical bytes therefore binds the whole value.
\<close>

theorem canonical_unique:
  assumes "float_printer flt" and "canonical ascii flt v = Some bs" and "canonical ascii flt v' = Some bs"
  shows "json_sorted v = json_sorted v'"
  using assms by (rule canonical_inj)

text \<open>A printer with the required properties, to instantiate the parameter with.\<close>

definition fraction_text :: "rat \<Rightarrow> string" where
  "fraction_text r = show_int (fst (quotient_of r)) @ CHR ''.'' # show_int (snd (quotient_of r))"

lemma fraction_printer: "float_printer fraction_text"
proof -
  have "list_all num_char (fraction_text r) \<and> CHR ''.'' \<in> set (fraction_text r)" for r
    using show_int_num by (simp add: fraction_text_def num_char_def)
  moreover have "r = r'" if "fraction_text r = fraction_text r'" for r r'
  proof -
    have tw: "takeWhile (\<lambda>c. c \<noteq> CHR ''.'') (show_int i @ CHR ''.'' # t) = show_int i" for i t
      using show_int_plain [of i] by (subst takeWhile_append2) auto
    have "show_int (fst (quotient_of r)) = show_int (fst (quotient_of r'))"
      using arg_cong [OF that, of "takeWhile (\<lambda>c. c \<noteq> CHR ''.'')"] by (simp add: fraction_text_def tw)
    moreover from this that have "show_int (snd (quotient_of r)) = show_int (snd (quotient_of r'))"
      by (simp add: fraction_text_def)
    ultimately have "quotient_of r = quotient_of r'"
      by (auto simp: prod_eq_iff dest: show_int_inj)
    then show ?thesis by (rule quotient_of_inject)
  qed
  ultimately show ?thesis
    by (auto simp: float_printer_def inj_def)
qed

theorem canonical_unique_witness:
  "json_sorted (PDict [(''b'', PInt 1), (''a'', PFloat (Fin 2))]) = json_sorted (PDict [(''a'', PFloat (Fin 2)), (''b'', PInt 1)])"
proof -
  have "canonical True fraction_text (PDict [(''b'', PInt 1), (''a'', PFloat (Fin 2))])
      = canonical True fraction_text (PDict [(''a'', PFloat (Fin 2)), (''b'', PInt 1)])"
    by code_simp
  moreover have "canonical True fraction_text (PDict [(''a'', PFloat (Fin 2)), (''b'', PInt 1)])
      = Some (the (canonical True fraction_text (PDict [(''a'', PFloat (Fin 2)), (''b'', PInt 1)])))"
    by (simp add: canonical_def)
  ultimately show ?thesis
    using canonical_unique [OF fraction_printer] by metis
qed

section \<open>Length of an encoding\<close>

lemma length_join: "length (join ts) = sum_list (map length ts) + (length ts - 1)"
  by (induction ts rule: join.induct) simp_all

lemma sum_list_sort_key: "sum_list (map f (sort_key g xs)) = sum_list (map f (xs :: 'a list) :: nat list)"
proof -
  have "sum_list (map f (insort_key g x ys)) = f x + sum_list (map f ys)" for x ys
    by (induction ys) simp_all
  then show ?thesis
    by (induction xs) simp_all
qed

lemma length_json_sorted: "length (json_text ascii flt (json_sorted v)) = length (json_text ascii flt v)"
proof (induction v)
  case (PList vs)
  then show ?case
    by (simp add: length_join comp_def cong: map_cong)
next
  case (PDict kvs)
  have "length (json_text ascii flt (json_sorted (snd p))) = length (json_text ascii flt (snd p))" if "p \<in> set kvs" for p
    using PDict.IH [OF that] by (auto intro: snds.intros)
  then show ?case
    by (simp cong: map_cong add: length_join comp_def case_prod_beta sum_list_sort_key sum_list_addf sum_list_Suc)
qed simp_all

lemma length_utf8_le: "length (utf8 s) \<le> 2 * length s"
  by (induction s) (auto simp: utf8_def utf8_char_def Let_def)

lemma length_json_char: "length (json_char ascii c) \<le> 6"
  by (simp add: json_char_def Let_def)

lemma length_json_string_le: "length (json_string ascii s) \<le> 2 + 6 * length s"
proof (induction s)
  case (Cons c s)
  with length_json_char [of ascii c] show ?case
    by (simp add: json_string_def)
qed (simp add: json_string_def)

lemma length_show_nat: "n < 10 ^ m \<Longrightarrow> 0 < m \<Longrightarrow> length (show_nat n) \<le> m"
proof (induction n arbitrary: m rule: show_nat.induct)
  case (1 n)
  show ?case
  proof (cases "n < 10")
    case True
    with 1(3) show ?thesis by (subst show_nat.simps) simp
  next
    case False
    then obtain j where m: "m = Suc j" and j: "0 < j"
      using 1(2,3) by (cases m; cases "m - 1") auto
    have "n div 10 < 10 ^ j"
      using 1(2) m by (simp add: less_mult_imp_div_less mult.commute)
    with 1(1) [OF False] j m False show ?thesis
      by (subst show_nat.simps) simp
  qed
qed

lemma length_show_int: "\<bar>i\<bar> < 10 ^ m \<Longrightarrow> 0 < m \<Longrightarrow> length (show_int i) \<le> Suc m"
proof -
  assume a: "\<bar>i\<bar> < 10 ^ m" "0 < m"
  have "nat \<bar>i\<bar> < 10 ^ m"
    using a(1) by (simp add: nat_less_iff)
  then have "length (show_nat (nat \<bar>i\<bar>)) \<le> m"
    using a(2) by (rule length_show_nat)
  then show ?thesis
    by (auto simp: show_int_def abs_if split: if_splits)
qed

end
