(* ===== verification/Response_Capability.thy ===== *)
theory Response_Capability
  imports Canonical_Json Sha256
begin

text \<open>
  Single-use capabilities for privileged response operations,
  \<^verbatim>\<open>src/angerona/core/response_capability.py\<close>: parameter normalisation, token decoding, the
  authority that issues a token for one operation and burns it before the operation starts, its
  durable state file and enrollment anchor, and its restart.

  A file is the document its JSON text decodes to, or unreadable; each write either succeeds, fails
  before the file is replaced, or fails after it.  Parameters: \<open>flt\<close> prints floats, the random
  capability identities and epochs, and the clock readings.
\<close>

section \<open>Errors and constants\<close>

datatype cap_error =
  CapError string \<comment> \<open>\<open>CapabilityError\<close> with its code\<close>
| CapValueError
| CapLeaseError
| CapOSError

abbreviation (input) max_sequence :: int where "max_sequence \<equiv> 2 ^ 64 - 1"
abbreviation (input) max_ttl_ns :: int where "max_ttl_ns \<equiv> 60000000000"
abbreviation (input) max_capability_bytes :: nat where "max_capability_bytes \<equiv> 16384"
abbreviation (input) max_parameters_bytes :: nat where "max_parameters_bytes \<equiv> 8192"
abbreviation (input) max_parameter_items :: nat where "max_parameter_items \<equiv> 128"
abbreviation (input) max_parameter_depth :: nat where "max_parameter_depth \<equiv> 6"
abbreviation (input) max_text_chars :: nat where "max_text_chars \<equiv> 2048"

definition payload_fields :: "string list" where
  "payload_fields = [''format'', ''authority_id'', ''service_epoch'', ''capability_id'', ''sequence'', ''opcode'',
     ''resource'', ''parameters_sha256'', ''issued_monotonic_ns'', ''expires_monotonic_ns'']"

definition state_fields :: "string list" where
  "state_fields = [''format'', ''authority_id'', ''service_epoch'', ''issued_sequence'', ''consumed_sequence'', ''hmac_sha256'']"

definition privileged_opcodes :: "string list" where
  "privileged_opcodes = [''event-log.export'', ''network.isolate'', ''network.restore'', ''boot.attest'',
     ''audit.append'', ''driver.quarantine'', ''prevention.logon.configure'', ''prevention.logon.restore'',
     ''prevention.driver-policy.audit'', ''prevention.driver-policy.enforce'', ''prevention.driver-policy.remove'']"

definition cap_format :: string where "cap_format = ''angerona-response-capability-v2''"
definition state_format :: string where "state_format = ''angerona-response-capability-state-v1''"
definition anchor_format :: string where "anchor_format = ''angerona-response-capability-anchor-v1''"

definition cap_domain :: bytes where "cap_domain = utf8 (''Angerona-Response-Capability-v2'' @ [CHR 0x00])"
definition state_domain :: bytes where "state_domain = utf8 (''Angerona-Response-Capability-State-v1'' @ [CHR 0x00])"
definition anchor_domain :: bytes where "anchor_domain = utf8 (''Angerona-Response-Capability-Anchor-v1'' @ [CHR 0x00])"

section \<open>Fields\<close>

definition code_in :: "nat \<Rightarrow> nat \<Rightarrow> char \<Rightarrow> bool" where
  "code_in lo hi c \<longleftrightarrow> (let n = (of_char c :: nat) in lo \<le> n \<and> n \<le> hi)"

definition lower_hex :: "nat \<Rightarrow> string \<Rightarrow> bool" where
  "lower_hex n s \<longleftrightarrow> length s = n \<and> list_all (\<lambda>c. code_in 48 57 c \<or> code_in 97 102 c) s"

definition alnum :: "char \<Rightarrow> bool" where
  "alnum c \<longleftrightarrow> code_in 48 57 c \<or> code_in 65 90 c \<or> code_in 97 122 c"

definition parameter_key :: "string \<Rightarrow> bool" where
  "parameter_key s \<longleftrightarrow> (case s of [] \<Rightarrow> False
     | c # r \<Rightarrow> (code_in 65 90 c \<or> code_in 97 122 c) \<and> length r \<le> 63
         \<and> list_all (\<lambda>d. alnum d \<or> d \<in> set ''_.-'') r)"

definition resource_shape :: "string \<Rightarrow> bool" where
  "resource_shape s \<longleftrightarrow> (case s of [] \<Rightarrow> False
     | c # r \<Rightarrow> alnum c \<and> length r \<le> 159 \<and> list_all (\<lambda>d. alnum d \<or> d \<in> set ''_.:@/-'' \<or> d = CHR 0x5C) r)"

definition resource_ok :: "string \<Rightarrow> bool" where
  "resource_ok s \<longleftrightarrow> resource_shape s
     \<and> (let parts = split_on (CHR ''/'') (map (\<lambda>c. if c = CHR 0x5C then CHR ''/'' else c) s)
        in list_all (\<lambda>p. p \<noteq> [] \<and> p \<noteq> ''.'' \<and> p \<noteq> ''..'') parts)"

definition check_opcode :: "pyval \<Rightarrow> cap_error + string" where
  "check_opcode v = (case v of PStr s \<Rightarrow> if s \<in> set privileged_opcodes then Inr s else Inl (CapError ''opcode'')
     | _ \<Rightarrow> Inl (CapError ''opcode''))"

definition check_resource :: "pyval \<Rightarrow> cap_error + string" where
  "check_resource v = (case v of PStr s \<Rightarrow> if resource_ok s then Inr s else Inl (CapError ''resource'')
     | _ \<Rightarrow> Inl (CapError ''resource''))"

definition check_counter :: "int \<Rightarrow> pyval \<Rightarrow> cap_error + int" where
  "check_counter minimum v = (case v of
     PInt i \<Rightarrow> if minimum \<le> i \<and> i \<le> max_sequence then Inr i else Inl (CapError ''bounds'')
   | _ \<Rightarrow> Inl (CapError ''schema''))"

section \<open>Parameters\<close>

definition unsafe_char :: "char \<Rightarrow> bool" where
  "unsafe_char c \<longleftrightarrow> (let n = (of_char c :: nat) in n < 32 \<and> n \<noteq> 9 \<and> n \<noteq> 10 \<and> n \<noteq> 13)"

text \<open>The value copied, and the count of values seen so far.\<close>

fun bounded_value :: "nat \<Rightarrow> pyval \<Rightarrow> nat \<Rightarrow> cap_error + pyval \<times> nat"
  and bounded_items :: "nat \<Rightarrow> (string \<times> pyval) list \<Rightarrow> nat \<Rightarrow> cap_error + (string \<times> pyval) list \<times> nat"
  and bounded_list :: "nat \<Rightarrow> pyval list \<Rightarrow> nat \<Rightarrow> cap_error + pyval list \<times> nat" where
  "bounded_value depth v seen =
     (let n = Suc seen in
      if max_parameter_items < n \<or> max_parameter_depth < depth then Inl (CapError ''bounds'')
      else case v of
        PNone \<Rightarrow> Inr (v, n)
      | PBool _ \<Rightarrow> Inr (v, n)
      | PInt i \<Rightarrow> if - max_sequence \<le> i \<and> i \<le> max_sequence then Inr (v, n) else Inl (CapError ''bounds'')
      | PFloat f \<Rightarrow> (case f of Fin _ \<Rightarrow> Inr (v, n) | _ \<Rightarrow> Inl (CapError ''schema''))
      | PStr s \<Rightarrow> if max_text_chars < length s \<or> list_ex unsafe_char s then Inl (CapError ''bounds'') else Inr (v, n)
      | PDict kvs \<Rightarrow> (case bounded_items (Suc depth) kvs n of Inl e \<Rightarrow> Inl e | Inr (kvs', n') \<Rightarrow> Inr (PDict kvs', n'))
      | PList vs \<Rightarrow> (case bounded_list (Suc depth) vs n of Inl e \<Rightarrow> Inl e | Inr (vs', n') \<Rightarrow> Inr (PList vs', n')))"
| "bounded_items depth [] seen = Inr ([], seen)"
| "bounded_items depth ((k, v) # kvs) seen =
     (if \<not> parameter_key k then Inl (CapError ''schema'')
      else case bounded_value depth v seen of Inl e \<Rightarrow> Inl e
      | Inr (v', n) \<Rightarrow> (case bounded_items depth kvs n of Inl e \<Rightarrow> Inl e
          | Inr (kvs', n') \<Rightarrow> Inr ((k, v') # kvs', n')))"
| "bounded_list depth [] seen = Inr ([], seen)"
| "bounded_list depth (v # vs) seen =
     (case bounded_value depth v seen of Inl e \<Rightarrow> Inl e
      | Inr (v', n) \<Rightarrow> (case bounded_list depth vs n of Inl e \<Rightarrow> Inl e
          | Inr (vs', n') \<Rightarrow> Inr (v' # vs', n')))"

definition canonical_cap :: "(rat \<Rightarrow> string) \<Rightarrow> pyval \<Rightarrow> cap_error + bytes" where
  "canonical_cap flt v = (case canonical True flt v of None \<Rightarrow> Inl (CapError ''schema'') | Some bs \<Rightarrow> Inr bs)"

definition canonicalize_parameters :: "(rat \<Rightarrow> string) \<Rightarrow> pyval \<Rightarrow> cap_error + pyval \<times> bytes" where
  "canonicalize_parameters flt v = (case v of
     PDict _ \<Rightarrow> (case bounded_value 0 v 0 of Inl e \<Rightarrow> Inl e
       | Inr (normalized, _) \<Rightarrow> (case canonical_cap flt normalized of Inl e \<Rightarrow> Inl e
           | Inr encoded \<Rightarrow> if max_parameters_bytes < length encoded then Inl (CapError ''bounds'')
               else Inr (normalized, encoded)))
   | _ \<Rightarrow> Inl (CapError ''schema''))"

section \<open>Tokens\<close>

text \<open>
  What \<open>consume\<close> is handed: a mapping, a text with its byte length and the value \<open>json.loads\<close>
  reads from it (with every pair of every object, so that duplicates show), or something else.
\<close>

datatype cap_document = CapMapping "(string \<times> pyval) list" | CapText nat "pyval option" | CapOther

primrec json_unique_keys :: "pyval \<Rightarrow> bool" where
  "json_unique_keys PNone = True"
| "json_unique_keys (PBool b) = True"
| "json_unique_keys (PInt i) = True"
| "json_unique_keys (PFloat f) = True"
| "json_unique_keys (PStr s) = True"
| "json_unique_keys (PList vs) = list_all (\<lambda>x. x) (map json_unique_keys vs)"
| "json_unique_keys (PDict kvs) = (distinct (map fst kvs) \<and> list_all snd (map (map_prod id json_unique_keys) kvs))"

definition decode_document :: "(rat \<Rightarrow> string) \<Rightarrow> cap_document \<Rightarrow> cap_error + (string \<times> pyval) list" where
  "decode_document flt doc = (case doc of
     CapMapping kvs \<Rightarrow> (case canonical_cap flt (PDict kvs) of Inl e \<Rightarrow> Inl e
       | Inr bs \<Rightarrow> if max_capability_bytes < length bs then Inl (CapError ''bounds'') else Inr kvs)
   | CapText n parsed \<Rightarrow>
       if max_capability_bytes < n then Inl (CapError ''bounds'')
       else (case parsed of None \<Rightarrow> Inl (CapError ''schema'')
         | Some v \<Rightarrow> if \<not> json_unique_keys v then Inl (CapError ''schema'')
             else (case v of PDict kvs \<Rightarrow> Inr kvs | _ \<Rightarrow> Inl (CapError ''schema'')))
   | CapOther \<Rightarrow> Inl (CapError ''schema''))"

record cap_payload =
  p_authority_id :: string
  p_service_epoch :: string
  p_capability_id :: string
  p_sequence :: int
  p_opcode :: string
  p_resource :: string
  p_parameters_sha256 :: string
  p_issued :: int
  p_expires :: int

definition payload_value :: "cap_payload \<Rightarrow> pyval" where
  "payload_value p = PDict [(''format'', PStr cap_format), (''authority_id'', PStr (p_authority_id p)),
     (''service_epoch'', PStr (p_service_epoch p)), (''capability_id'', PStr (p_capability_id p)),
     (''sequence'', PInt (p_sequence p)), (''opcode'', PStr (p_opcode p)), (''resource'', PStr (p_resource p)),
     (''parameters_sha256'', PStr (p_parameters_sha256 p)), (''issued_monotonic_ns'', PInt (p_issued p)),
     (''expires_monotonic_ns'', PInt (p_expires p))]"

definition check_hex :: "nat \<Rightarrow> string \<Rightarrow> pyval \<Rightarrow> cap_error + string" where
  "check_hex n code v = (case v of PStr s \<Rightarrow> if lower_hex n s then Inr s else Inl (CapError code) | _ \<Rightarrow> Inl (CapError code))"

definition sum_then :: "'e + 'a \<Rightarrow> ('a \<Rightarrow> 'e + 'b) \<Rightarrow> 'e + 'b" where
  "sum_then x f = (case x of Inl e \<Rightarrow> Inl e | Inr a \<Rightarrow> f a)"

definition normalized_payload :: "pyval \<Rightarrow> cap_error + cap_payload" where
  "normalized_payload v = (case v of
     PDict kvs \<Rightarrow>
       if set (dict_keys kvs) \<noteq> set payload_fields then Inl (CapError ''schema'')
       else (let field = (\<lambda>k. dict_get_or kvs k PNone) in
        if field ''format'' \<noteq> PStr cap_format then Inl (CapError ''version'')
        else sum_then (check_hex 64 ''authority'' (field ''authority_id'')) (\<lambda>authority.
          sum_then (check_hex 32 ''epoch'' (field ''service_epoch'')) (\<lambda>epoch.
          sum_then (check_hex 32 ''identity'' (field ''capability_id'')) (\<lambda>identity.
          sum_then (check_hex 64 ''schema'' (field ''parameters_sha256'')) (\<lambda>digest.
          sum_then (check_counter 0 (field ''issued_monotonic_ns'')) (\<lambda>issued.
          sum_then (check_counter 0 (field ''expires_monotonic_ns'')) (\<lambda>expires.
            if expires \<le> issued \<or> max_ttl_ns < expires - issued then Inl (CapError ''expiry'')
            else sum_then (check_counter 1 (field ''sequence'')) (\<lambda>sequence.
              sum_then (check_opcode (field ''opcode'')) (\<lambda>opcode.
              sum_then (check_resource (field ''resource'')) (\<lambda>resource.
                Inr \<lparr>p_authority_id = authority, p_service_epoch = epoch, p_capability_id = identity,
                   p_sequence = sequence, p_opcode = opcode, p_resource = resource,
                   p_parameters_sha256 = digest, p_issued = issued, p_expires = expires\<rparr>))))))))))
   | _ \<Rightarrow> Inl (CapError ''schema''))"

text \<open>Every payload value is finite, so its encoding always exists.\<close>

definition cap_mac :: "(rat \<Rightarrow> string) \<Rightarrow> bytes \<Rightarrow> bytes \<Rightarrow> pyval \<Rightarrow> string" where
  "cap_mac flt key domain body =
     hex_text (hmac_sha256 key (domain @ (case canonical True flt body of None \<Rightarrow> [] | Some bs \<Rightarrow> bs)))"

definition wrapper_items :: "(rat \<Rightarrow> string) \<Rightarrow> bytes \<Rightarrow> cap_payload \<Rightarrow> (string \<times> pyval) list" where
  "wrapper_items flt key p = [(''payload'', payload_value p), (''hmac_sha256'', PStr (cap_mac flt key cap_domain (payload_value p)))]"

section \<open>The authority, its files and its health\<close>

datatype disk_file = Absent | Unreadable | Document pyval

datatype write_outcome = WriteOk | WriteAliased | WriteFailsBefore | WriteFailsAfter

record cap_disk =
  state_file :: disk_file
  anchor_file :: disk_file
  lease_taken :: bool

record authority =
  auth_key :: "bytes option"
  durable_required :: bool
  durable_path :: bool
  lease_held :: bool
  test_only :: bool
  issued_sequence :: int
  consumed_sequence :: int
  service_epoch :: string
  last_clock :: "int option"
  degraded_reason :: string

record cap_system =
  cap :: authority
  disk :: cap_disk

definition cap_key :: "authority \<Rightarrow> bytes" where
  "cap_key a = (case auth_key a of None \<Rightarrow> [] | Some k \<Rightarrow> k)"

definition authority_identity :: "bytes \<Rightarrow> string" where
  "authority_identity k = hex_text (hmac_sha256 k (utf8 ''Angerona-Capability-Authority-Identity-v1''))"

definition cap_authority_id :: "authority \<Rightarrow> string" where
  "cap_authority_id a = (case auth_key a of None \<Rightarrow> '''' | Some k \<Rightarrow> authority_identity k)"

definition cap_health :: "authority \<Rightarrow> string \<times> string" where
  "cap_health a =
     (if auth_key a = None then (''unconfigured'', ''authority-not-provisioned'')
      else if durable_required a then (''unconfigured'', ''durable-state-not-provisioned'')
      else if degraded_reason a \<noteq> [] then (''degraded'', degraded_reason a)
      else (''ready'', if test_only a then ''test-only-memory-authority'' else ''durable-epoch-bound-authority-ready''))"

section \<open>Durable state\<close>

definition state_body :: "authority \<Rightarrow> (string \<times> pyval) list" where
  "state_body a = [(''format'', PStr state_format), (''authority_id'', PStr (cap_authority_id a)),
     (''service_epoch'', PStr (service_epoch a)), (''issued_sequence'', PInt (issued_sequence a)),
     (''consumed_sequence'', PInt (consumed_sequence a))]"

definition state_document :: "(rat \<Rightarrow> string) \<Rightarrow> authority \<Rightarrow> pyval" where
  "state_document flt a = PDict (state_body a @
     [(''hmac_sha256'', PStr (cap_mac flt (cap_key a) state_domain (PDict (state_body a))))])"

definition save_state :: "(rat \<Rightarrow> string) \<Rightarrow> write_outcome \<Rightarrow> (cap_system, cap_error, unit) oper" where
  "save_state flt w s =
     (if \<not> durable_path (cap s) then (s, Inr ())
      else if \<not> lease_held (cap s) then (s, Inl (CapError ''state''))
      else let s' = s\<lparr>disk := (disk s)\<lparr>state_file := Document (state_document flt (cap s))\<rparr>\<rparr> in
        case w of
          WriteOk \<Rightarrow> (s', Inr ())
        | WriteAliased \<Rightarrow> (s, Inl (CapError ''state''))
        | WriteFailsBefore \<Rightarrow> (s, Inl CapOSError)
        | WriteFailsAfter \<Rightarrow> (s', Inl CapOSError))"

definition load_state :: "(rat \<Rightarrow> string) \<Rightarrow> bytes \<Rightarrow> disk_file \<Rightarrow> cap_error + int \<times> int" where
  "load_state flt k f =
     (case f of
        Absent \<Rightarrow> Inr (0, 0)
      | Unreadable \<Rightarrow> Inl (CapError ''state'')
      | Document (PDict kvs) \<Rightarrow>
          (let field = (\<lambda>n. dict_get_or kvs n PNone) in
           if set (dict_keys kvs) \<noteq> set state_fields then Inl (CapError ''state'')
           else if field ''format'' \<noteq> PStr state_format \<or> field ''authority_id'' \<noteq> PStr (authority_identity k)
             \<or> (case field ''service_epoch'' of PStr s \<Rightarrow> \<not> lower_hex 32 s | _ \<Rightarrow> True)
           then Inl (CapError ''state'')
           else sum_then (check_counter 0 (field ''issued_sequence'')) (\<lambda>issued.
             sum_then (check_counter 0 (field ''consumed_sequence'')) (\<lambda>consumed.
               if issued < consumed then Inl (CapError ''state'')
               else case field ''hmac_sha256'' of
                 PStr signature \<Rightarrow>
                   if \<not> lower_hex 64 signature
                     \<or> signature \<noteq> cap_mac flt k state_domain (PDict (filter (\<lambda>p. fst p \<noteq> ''hmac_sha256'') kvs))
                   then Inl (CapError ''state'') else Inr (issued, consumed)
               | _ \<Rightarrow> Inl (CapError ''state''))))
      | Document _ \<Rightarrow> Inl (CapError ''state''))"

definition anchor_document :: "(rat \<Rightarrow> string) \<Rightarrow> bytes \<Rightarrow> pyval" where
  "anchor_document flt k =
     (let body = [(''format'', PStr anchor_format), (''authority_id'', PStr (authority_identity k))]
      in PDict (body @ [(''hmac_sha256'', PStr (cap_mac flt k anchor_domain (PDict body)))]))"

text \<open>An anchor that is an alias counts as unreadable; one cut short by a failed write too.\<close>

definition initialize_anchor :: "(rat \<Rightarrow> string) \<Rightarrow> bytes \<Rightarrow> write_outcome \<Rightarrow> (cap_disk, cap_error, unit) oper" where
  "initialize_anchor flt k w d =
     (case anchor_file d of
        Document v \<Rightarrow>
          (case v of PDict kvs \<Rightarrow>
             if dict_get kvs ''format'' \<noteq> Some (PStr anchor_format)
               \<or> dict_get kvs ''authority_id'' \<noteq> Some (PStr (authority_identity k))
               \<or> set (dict_keys kvs) \<noteq> {''format'', ''authority_id'', ''hmac_sha256''}
               \<or> dict_get kvs ''hmac_sha256'' \<noteq> Some (PStr (cap_mac flt k anchor_domain
                    (PDict [(''format'', PStr anchor_format), (''authority_id'', PStr (authority_identity k))])))
             then (d, Inl (CapError ''state''))
             else if state_file d = Absent then (d, Inl (CapError ''state'')) else (d, Inr ())
           | _ \<Rightarrow> (d, Inl (CapError ''state'')))
      | Unreadable \<Rightarrow> (d, Inl (CapError ''state''))
      | Absent \<Rightarrow>
          if state_file d \<noteq> Absent then (d, Inl (CapError ''state''))
          else case w of
            WriteOk \<Rightarrow> (d\<lparr>anchor_file := Document (anchor_document flt k)\<rparr>, Inr ())
          | WriteFailsAfter \<Rightarrow> (d\<lparr>anchor_file := Unreadable\<rparr>, Inl CapOSError)
          | _ \<Rightarrow> (d, Inl CapOSError))"

text \<open>The constructor: \<open>epoch\<close> is the epoch drawn last, after the state was read.\<close>

definition new_authority :: "bytes option \<Rightarrow> bool \<Rightarrow> bool \<Rightarrow> string \<Rightarrow> authority" where
  "new_authority k durable testing epoch =
     \<lparr>auth_key = k, durable_required = (\<not> testing \<and> \<not> durable \<and> k \<noteq> None), durable_path = durable,
      lease_held = False, test_only = testing, issued_sequence = 0, consumed_sequence = 0,
      service_epoch = (if k = None then '''' else epoch), last_clock = None, degraded_reason = ''''\<rparr>"

definition open_authority :: "(rat \<Rightarrow> string) \<Rightarrow> bytes option \<Rightarrow> bool \<Rightarrow> bool \<Rightarrow> string \<Rightarrow> write_outcome \<Rightarrow> write_outcome
    \<Rightarrow> cap_disk \<Rightarrow> cap_disk \<times> (cap_error + authority)" where
  "open_authority flt k durable testing epoch anchor_write state_write d =
     (if (case k of None \<Rightarrow> False | Some b \<Rightarrow> length b < 32) then (d, Inl CapValueError)
      else if testing \<and> durable then (d, Inl CapValueError)
      else let a = new_authority k durable testing epoch in
      case k of
        None \<Rightarrow> (d, Inr a)
      | Some b \<Rightarrow>
        if \<not> durable then (d, Inr a)
        else if lease_taken d then (d, Inl CapLeaseError)
        else case initialize_anchor flt b anchor_write d of
          (d1, Inl e) \<Rightarrow> (d1, Inl e)
        | (d1, Inr _) \<Rightarrow>
          (case load_state flt b (state_file d1) of
             Inl e \<Rightarrow> (d1, Inl e)
           | Inr (issued, consumed) \<Rightarrow>
             let a1 = a\<lparr>lease_held := True, issued_sequence := issued, consumed_sequence := consumed\<rparr> in
             case save_state flt state_write \<lparr>cap = a1, disk = d1\<lparr>lease_taken := True\<rparr>\<rparr> of
               (s, Inl e) \<Rightarrow> ((disk s)\<lparr>lease_taken := False\<rparr>, Inl e)
             | (s, Inr _) \<Rightarrow> (disk s, Inr (cap s))))"

definition close_authority :: "cap_system \<Rightarrow> cap_system" where
  "close_authority s =
     s\<lparr>cap := (cap s)\<lparr>lease_held := False, degraded_reason := ''authority-closed''\<rparr>,
       disk := (if lease_held (cap s) then (disk s)\<lparr>lease_taken := False\<rparr> else disk s)\<rparr>"

section \<open>Issue and consume\<close>

definition require_ready :: "(cap_system, cap_error, unit) oper" where
  "require_ready s = (if fst (cap_health (cap s)) = ''ready'' then (s, Inr ()) else (s, Inl (CapError (fst (cap_health (cap s))))))"

definition degrade :: "string \<Rightarrow> cap_system \<Rightarrow> cap_system" where
  "degrade reason s = s\<lparr>cap := (cap s)\<lparr>degraded_reason := reason\<rparr>\<rparr>"

definition observe_clock :: "pyval \<Rightarrow> (cap_system, cap_error, int) oper" where
  "observe_clock reading s =
     (case reading of
        PInt v \<Rightarrow>
          if v < 0 then (degrade ''monotonic-clock-invalid'' s, Inl (CapError ''clock''))
          else if (case last_clock (cap s) of None \<Rightarrow> False | Some t \<Rightarrow> v < t)
          then (degrade ''monotonic-clock-rollback'' s, Inl (CapError ''clock-rollback''))
          else (s\<lparr>cap := (cap s)\<lparr>last_clock := Some v\<rparr>\<rparr>, Inr v)
      | _ \<Rightarrow> (degrade ''monotonic-clock-invalid'' s, Inl (CapError ''clock'')))"

definition lift_check :: "'e + 'a \<Rightarrow> ('s, 'e, 'a) oper" where
  "lift_check x s = (s, x)"

definition mint :: "(rat \<Rightarrow> string) \<Rightarrow> string \<Rightarrow> string \<Rightarrow> bytes \<Rightarrow> int \<Rightarrow> string \<Rightarrow> int \<Rightarrow> write_outcome
    \<Rightarrow> (cap_system, cap_error, (string \<times> pyval) list) oper" where
  "mint flt operation target encoded ttl identity now w s =
     (if max_sequence \<le> issued_sequence (cap s)
      then (degrade ''capability-sequence-exhausted'' s, Inl (CapError ''capacity''))
      else let a = (cap s)\<lparr>issued_sequence := issued_sequence (cap s) + 1\<rparr>;
               s1 = s\<lparr>cap := a\<rparr>;
               payload = \<lparr>p_authority_id = cap_authority_id a, p_service_epoch = service_epoch a,
                 p_capability_id = identity, p_sequence = issued_sequence a, p_opcode = operation,
                 p_resource = target, p_parameters_sha256 = hex_text (sha256 encoded),
                 p_issued = now, p_expires = now + ttl\<rparr>;
               wrapper = wrapper_items flt (cap_key a) payload
           in if (case canonical True flt (PDict wrapper) of None \<Rightarrow> True | Some bs \<Rightarrow> max_capability_bytes < length bs)
              then (degrade ''capability-serialization-bound-exceeded'' s1, Inl (CapError ''bounds''))
              else op_then (save_state flt w) (\<lambda>_. op_return wrapper) s1)"

definition issue :: "(rat \<Rightarrow> string) \<Rightarrow> pyval \<Rightarrow> pyval \<Rightarrow> pyval \<Rightarrow> int \<Rightarrow> string \<Rightarrow> pyval \<Rightarrow> write_outcome
    \<Rightarrow> (cap_system, cap_error, (string \<times> pyval) list) oper" where
  "issue flt opcode resource parameters ttl identity reading w =
     op_then require_ready (\<lambda>_.
     op_then (lift_check (check_opcode opcode)) (\<lambda>operation.
     op_then (lift_check (check_resource resource)) (\<lambda>target.
     op_then (lift_check (canonicalize_parameters flt parameters)) (\<lambda>(normalized, encoded).
     op_then (lift_check (if 1 \<le> ttl \<and> ttl \<le> max_ttl_ns then Inr () else Inl (CapError ''bounds''))) (\<lambda>_.
     op_then (observe_clock reading) (\<lambda>now.
     mint flt operation target encoded ttl identity now w))))))"

definition burn :: "(rat \<Rightarrow> string) \<Rightarrow> cap_payload \<Rightarrow> int \<Rightarrow> write_outcome \<Rightarrow> (cap_system, cap_error, cap_payload) oper" where
  "burn flt payload now w s =
     (if now < p_issued payload then (s, Inl (CapError ''future''))
      else if p_expires payload \<le> now then (s, Inl (CapError ''expired''))
      else if p_sequence payload \<le> consumed_sequence (cap s) then (s, Inl (CapError ''replay''))
      else op_then (save_state flt w) (\<lambda>_. op_return payload) (s\<lparr>cap := (cap s)\<lparr>consumed_sequence := p_sequence payload\<rparr>\<rparr>))"

definition check_token :: "(rat \<Rightarrow> string) \<Rightarrow> authority \<Rightarrow> (string \<times> pyval) list \<Rightarrow> string \<Rightarrow> string \<Rightarrow> bytes
    \<Rightarrow> cap_error + cap_payload" where
  "check_token flt a wrapper operation target encoded =
     (if set (dict_keys wrapper) \<noteq> {''payload'', ''hmac_sha256''} then Inl (CapError ''schema'')
      else sum_then (normalized_payload (dict_get_or wrapper ''payload'' PNone)) (\<lambda>payload.
        case dict_get_or wrapper ''hmac_sha256'' PNone of
          PStr signature \<Rightarrow>
            if \<not> lower_hex 64 signature then Inl (CapError ''authentication'')
            else if signature \<noteq> cap_mac flt (cap_key a) cap_domain (payload_value payload) then Inl (CapError ''authentication'')
            else if p_authority_id payload \<noteq> cap_authority_id a then Inl (CapError ''authority'')
            else if p_service_epoch payload \<noteq> service_epoch a then Inl (CapError ''epoch'')
            else if p_opcode payload \<noteq> operation then Inl (CapError ''scope'')
            else if p_resource payload \<noteq> target then Inl (CapError ''scope'')
            else if p_parameters_sha256 payload \<noteq> hex_text (sha256 encoded) then Inl (CapError ''scope'')
            else Inr payload
        | _ \<Rightarrow> Inl (CapError ''authentication'')))"

text \<open>The result is the payload of the consumed token: the fields of \<open>VerifiedCapability\<close>.\<close>

definition consume :: "(rat \<Rightarrow> string) \<Rightarrow> cap_document \<Rightarrow> pyval \<Rightarrow> pyval \<Rightarrow> pyval \<Rightarrow> pyval \<Rightarrow> write_outcome
    \<Rightarrow> (cap_system, cap_error, cap_payload) oper" where
  "consume flt doc opcode resource parameters reading w =
     op_then require_ready (\<lambda>_.
     op_then (lift_check (check_opcode opcode)) (\<lambda>operation.
     op_then (lift_check (check_resource resource)) (\<lambda>target.
     op_then (lift_check (canonicalize_parameters flt parameters)) (\<lambda>(normalized, encoded).
     op_then (lift_check (decode_document flt doc)) (\<lambda>wrapper s.
     op_then (lift_check (check_token flt (cap s) wrapper operation target encoded)) (\<lambda>payload.
     op_then (observe_clock reading) (\<lambda>now.
     burn flt payload now w)) s)))))"

section \<open>Parameters\<close>

text \<open>
  What parameter normalisation accepts: at most 128 values nested at most 6 deep below the top,
  with acceptable leaves and keys.  It returns the value unchanged.
\<close>

primrec value_count :: "pyval \<Rightarrow> nat" where
  "value_count PNone = 1"
| "value_count (PBool b) = 1"
| "value_count (PInt i) = 1"
| "value_count (PFloat f) = 1"
| "value_count (PStr s) = 1"
| "value_count (PList vs) = Suc (sum_list (map value_count vs))"
| "value_count (PDict kvs) = Suc (sum_list (map snd (map (map_prod id value_count) kvs)))"

primrec depth_within :: "pyval \<Rightarrow> nat \<Rightarrow> bool" where
  "depth_within PNone n = True"
| "depth_within (PBool b) n = True"
| "depth_within (PInt i) n = True"
| "depth_within (PFloat f) n = True"
| "depth_within (PStr s) n = True"
| "depth_within (PList vs) n = (vs = [] \<or> 0 < n \<and> list_all (\<lambda>f. f (n - 1)) (map depth_within vs))"
| "depth_within (PDict kvs) n = (kvs = [] \<or> 0 < n \<and> list_all (\<lambda>p. snd p (n - 1)) (map (map_prod id depth_within) kvs))"

primrec leaves_ok :: "pyval \<Rightarrow> bool" where
  "leaves_ok PNone = True"
| "leaves_ok (PBool b) = True"
| "leaves_ok (PInt i) = (\<bar>i\<bar> \<le> max_sequence)"
| "leaves_ok (PFloat f) = (case f of Fin _ \<Rightarrow> True | _ \<Rightarrow> False)"
| "leaves_ok (PStr s) = (length s \<le> max_text_chars \<and> \<not> list_ex unsafe_char s)"
| "leaves_ok (PList vs) = list_all (\<lambda>x. x) (map leaves_ok vs)"
| "leaves_ok (PDict kvs) = list_all (\<lambda>p. parameter_key (fst p) \<and> snd p) (map (map_prod id leaves_ok) kvs)"

lemma value_count_pos [simp]: "0 < value_count v"
  by (cases v) simp_all

declare bounded_value.simps [simp del]

text \<open>Soundness and completeness of the three mutually recursive walks, together.\<close>

lemma bounded_sound:
  "bounded_value d v n = Inr (v', n') \<Longrightarrow> v' = v \<and> n' = n + value_count v \<and> n' \<le> max_parameter_items
     \<and> d \<le> max_parameter_depth \<and> depth_within v (max_parameter_depth - d) \<and> leaves_ok v"
  "bounded_items d kvs n = Inr (kvs', n') \<Longrightarrow> kvs' = kvs \<and> n' = n + sum_list (map (value_count \<circ> snd) kvs)
     \<and> (kvs \<noteq> [] \<longrightarrow> n' \<le> max_parameter_items \<and> d \<le> max_parameter_depth)
     \<and> (\<forall>p \<in> set kvs. depth_within (snd p) (max_parameter_depth - d) \<and> parameter_key (fst p) \<and> leaves_ok (snd p))"
  "bounded_list d vs n = Inr (vs', n') \<Longrightarrow> vs' = vs \<and> n' = n + sum_list (map value_count vs)
     \<and> (vs \<noteq> [] \<longrightarrow> n' \<le> max_parameter_items \<and> d \<le> max_parameter_depth)
     \<and> (\<forall>v \<in> set vs. depth_within v (max_parameter_depth - d) \<and> leaves_ok v)"
proof (induction d v n and d kvs n and d vs n arbitrary: v' n' and kvs' n' and vs' n'
    rule: bounded_value_bounded_items_bounded_list.induct)
  case (1 depth v seen)
  let ?n = "Suc seen"
  have ok: "?n \<le> max_parameter_items" "depth \<le> max_parameter_depth"
    using "1.prems" by (auto simp: bounded_value.simps Let_def split: if_splits)
  show ?case
  proof (cases v)
    case v: (PList vs)
    obtain vs' where b: "bounded_list (Suc depth) vs ?n = Inr (vs', n')" "v' = PList vs'"
      using "1.prems" ok unfolding bounded_value.simps v by (auto split: sum.splits)
    have "vs' = vs \<and> n' = ?n + sum_list (map value_count vs)
     \<and> (vs \<noteq> [] \<longrightarrow> n' \<le> max_parameter_items \<and> Suc depth \<le> max_parameter_depth)
     \<and> (\<forall>v \<in> set vs. depth_within v (max_parameter_depth - Suc depth) \<and> leaves_ok v)"
      using ok by (intro "1.IH"(1) [OF refl _ v b(1)]) simp
    with b(2) v ok show ?thesis
      by (auto simp: list_all_iff)
  next
    case v: (PDict kvs)
    obtain kvs' where b: "bounded_items (Suc depth) kvs ?n = Inr (kvs', n')" "v' = PDict kvs'"
      using "1.prems" ok unfolding bounded_value.simps v by (auto split: sum.splits)
    have "kvs' = kvs \<and> n' = ?n + sum_list (map (value_count \<circ> snd) kvs)
     \<and> (kvs \<noteq> [] \<longrightarrow> n' \<le> max_parameter_items \<and> Suc depth \<le> max_parameter_depth)
     \<and> (\<forall>p \<in> set kvs. depth_within (snd p) (max_parameter_depth - Suc depth) \<and> parameter_key (fst p) \<and> leaves_ok (snd p))"
      using ok by (intro "1.IH"(2) [OF refl _ v b(1)]) simp
    with b(2) v ok show ?thesis
      by (auto simp: list_all_iff comp_def)
  qed (use "1.prems" ok in \<open>auto simp: bounded_value.simps Let_def abs_le_iff split: if_splits pyfloat.splits\<close>)
next
  case (3 depth k v kvs seen)
  show ?case
  proof (cases "bounded_value depth v seen")
    case (Inl e)
    with "3.prems" show ?thesis by (auto split: if_splits)
  next
    case (Inr p)
    obtain w m where p: "p = (w, m)" by (cases p)
    with Inr "3.prems" obtain kvs1 where k: "parameter_key k" and b: "bounded_items depth kvs m = Inr (kvs1, n')" "kvs' = (k, w) # kvs1"
      by (auto split: if_splits sum.splits)
    show ?thesis
      using k b "3.IH"(1) [OF _ Inr [unfolded p]] "3.IH"(2) [OF _ Inr p [symmetric] b(1)] by auto
  qed
next
  case (5 depth v vs seen)
  show ?case
  proof (cases "bounded_value depth v seen")
    case (Inl e)
    with "5.prems" show ?thesis by auto
  next
    case (Inr p)
    obtain w m where p: "p = (w, m)" by (cases p)
    with Inr "5.prems" obtain vs1 where b: "bounded_list depth vs m = Inr (vs1, n')" "vs' = w # vs1"
      by (auto split: sum.splits)
    show ?thesis
      using b "5.IH"(1) [OF Inr [unfolded p]] "5.IH"(2) [OF Inr p [symmetric] b(1)] by auto
  qed
qed auto

lemma bounded_complete:
  "n + value_count v \<le> max_parameter_items \<Longrightarrow> d \<le> max_parameter_depth \<Longrightarrow> depth_within v (max_parameter_depth - d) \<Longrightarrow>
     leaves_ok v \<Longrightarrow> bounded_value d v n = Inr (v, n + value_count v)"
  "n + sum_list (map (value_count \<circ> snd) kvs) \<le> max_parameter_items \<Longrightarrow> (kvs \<noteq> [] \<longrightarrow> d \<le> max_parameter_depth) \<Longrightarrow>
     (\<forall>p \<in> set kvs. depth_within (snd p) (max_parameter_depth - d) \<and> parameter_key (fst p) \<and> leaves_ok (snd p)) \<Longrightarrow>
     bounded_items d kvs n = Inr (kvs, n + sum_list (map (value_count \<circ> snd) kvs))"
  "n + sum_list (map value_count vs) \<le> max_parameter_items \<Longrightarrow> (vs \<noteq> [] \<longrightarrow> d \<le> max_parameter_depth) \<Longrightarrow>
     (\<forall>v \<in> set vs. depth_within v (max_parameter_depth - d) \<and> leaves_ok v) \<Longrightarrow>
     bounded_list d vs n = Inr (vs, n + sum_list (map value_count vs))"
proof (induction d v n and d kvs n and d vs n rule: bounded_value_bounded_items_bounded_list.induct)
  case (1 depth v seen)
  have ok: "Suc seen \<le> max_parameter_items"
    using "1.prems"(1) value_count_pos [of v] by linarith
  show ?case
  proof (cases v)
    case v: (PList vs)
    have "bounded_list (Suc depth) vs (Suc seen) = Inr (vs, Suc seen + sum_list (map value_count vs))"
      using "1.prems" ok v by (intro "1.IH"(1) [OF refl _ v]) (auto simp: list_all_iff)
    with v ok "1.prems"(2) show ?thesis
      by (simp add: bounded_value.simps)
  next
    case v: (PDict kvs)
    have "bounded_items (Suc depth) kvs (Suc seen) = Inr (kvs, Suc seen + sum_list (map (value_count \<circ> snd) kvs))"
      using "1.prems" ok v by (intro "1.IH"(2) [OF refl _ v]) (auto simp: list_all_iff comp_def)
    with v ok "1.prems"(2) show ?thesis
      by (simp add: bounded_value.simps comp_def)
  qed (use "1.prems" ok in \<open>auto simp: bounded_value.simps Let_def abs_le_iff split: pyfloat.splits\<close>)
next
  case (3 depth k v kvs seen)
  have b: "bounded_value depth v seen = Inr (v, seen + value_count v)"
    using "3.prems" by (intro "3.IH"(1)) auto
  have "bounded_items depth kvs (seen + value_count v) = Inr (kvs, seen + value_count v + sum_list (map (value_count \<circ> snd) kvs))"
    using "3.prems" by (intro "3.IH"(2) [OF _ b refl]) auto
  with b "3.prems" show ?case by (simp add: comp_def add.assoc)
next
  case (5 depth v vs seen)
  have b: "bounded_value depth v seen = Inr (v, seen + value_count v)"
    using "5.prems" by (intro "5.IH"(1)) auto
  have "bounded_list depth vs (seen + value_count v) = Inr (vs, seen + value_count v + sum_list (map value_count vs))"
    using "5.prems" by (intro "5.IH"(2) [OF b refl]) auto
  with b show ?case by simp
qed simp_all

lemma bounded_exact:
  "bounded_value 0 v 0 = Inr (v', n) \<longleftrightarrow>
     v' = v \<and> n = value_count v \<and> value_count v \<le> max_parameter_items \<and> depth_within v max_parameter_depth \<and> leaves_ok v"
  using bounded_sound(1) [of 0 v 0 v' n] bounded_complete(1) [of 0 v 0] by auto

lemma leaves_finite: "leaves_ok v \<Longrightarrow> json_finite v"
  by (induction v) (auto simp: list_all_iff split: pyfloat.splits)

lemma canonicalize_cases:
  "canonicalize_parameters flt v = Inr (v', bs) \<longleftrightarrow>
     (\<exists>kvs. v = PDict kvs) \<and> v' = v \<and> canonical True flt v = Some bs \<and> length bs \<le> max_parameters_bytes
     \<and> value_count v \<le> max_parameter_items \<and> depth_within v max_parameter_depth \<and> leaves_ok v"
proof (cases "\<exists>kvs. v = PDict kvs")
  case False
  then show ?thesis by (cases v) (simp_all add: canonicalize_parameters_def)
next
  case True
  then obtain kvs where v: "v = PDict kvs" by blast
  show ?thesis
  proof (cases "bounded_value 0 v 0")
    case (Inl e)
    then have "\<not> (value_count v \<le> max_parameter_items \<and> depth_within v max_parameter_depth \<and> leaves_ok v)"
      using bounded_complete(1) [of 0 v 0] by auto
    with Inl v show ?thesis
      by (auto simp: canonicalize_parameters_def)
  next
    case (Inr p)
    obtain w m where "p = (w, m)" by (cases p)
    with Inr bounded_exact [of v w m] have w: "bounded_value 0 v 0 = Inr (v, m)" "value_count v \<le> max_parameter_items"
        "depth_within v max_parameter_depth" "leaves_ok v" by auto
    with v show ?thesis
      unfolding canonicalize_parameters_def canonical_cap_def v
      by (auto simp del: value_count.simps depth_within.simps leaves_ok.simps split: option.splits)
  qed
qed

section \<open>Checks\<close>

lemma sum_then_Inr [simp]: "sum_then x f = Inr b \<longleftrightarrow> (\<exists>a. x = Inr a \<and> f a = Inr b)"
  by (cases x) (simp_all add: sum_then_def)

lemma sum_then_simps [simp]: "sum_then (Inr a) f = f a" "sum_then (Inl e) f = Inl e"
  by (simp_all add: sum_then_def)

lemma check_opcode_iff: "check_opcode v = Inr s \<longleftrightarrow> v = PStr s \<and> s \<in> set privileged_opcodes"
  by (cases v) (auto simp: check_opcode_def)

lemma check_resource_iff: "check_resource v = Inr s \<longleftrightarrow> v = PStr s \<and> resource_ok s"
  by (cases v) (auto simp: check_resource_def)

lemma check_counter_iff: "check_counter m v = Inr i \<longleftrightarrow> v = PInt i \<and> m \<le> i \<and> i \<le> max_sequence"
  by (cases v) (auto simp: check_counter_def)

lemma check_hex_iff: "check_hex n c v = Inr s \<longleftrightarrow> v = PStr s \<and> lower_hex n s"
  by (cases v) (auto simp: check_hex_def)

text \<open>The payloads \<open>_normalized_payload\<close> accepts.\<close>

definition payload_ok :: "cap_payload \<Rightarrow> bool" where
  "payload_ok p \<longleftrightarrow> lower_hex 64 (p_authority_id p) \<and> lower_hex 32 (p_service_epoch p) \<and> lower_hex 32 (p_capability_id p)
     \<and> lower_hex 64 (p_parameters_sha256 p) \<and> 1 \<le> p_sequence p \<and> p_sequence p \<le> max_sequence
     \<and> p_opcode p \<in> set privileged_opcodes \<and> resource_ok (p_resource p)
     \<and> 0 \<le> p_issued p \<and> p_issued p < p_expires p \<and> p_expires p \<le> max_sequence \<and> p_expires p - p_issued p \<le> max_ttl_ns"

lemma normalized_payload_sound: "normalized_payload v = Inr p \<Longrightarrow> payload_ok p"
  by (auto simp: normalized_payload_def payload_ok_def Let_def check_opcode_iff check_resource_iff check_counter_iff
      check_hex_iff split: pyval.splits if_splits)

lemma normalized_payload_value:
  assumes "payload_ok p"
  shows "normalized_payload (payload_value p) = Inr p"
proof -
  have "set (map fst (case payload_value p of PDict kvs \<Rightarrow> kvs | _ \<Rightarrow> [])) = set payload_fields"
    by (simp add: payload_value_def payload_fields_def)
  then show ?thesis
    using assms unfolding payload_value_def normalized_payload_def payload_ok_def Let_def
    by (simp add: dict_get_or_def check_opcode_def check_resource_def check_counter_def check_hex_def)
qed

section \<open>Effects of the operations\<close>

lemma hex_text_lower: "lower_hex (2 * length bs) (hex_text bs)"
proof -
  have "code_in 48 57 (hex_digit n) \<or> code_in 97 102 (hex_digit n)" if "n < 16" for n
    using that by (simp add: code_in_def hex_digit_def)
  moreover have "unat b div 16 < 16" "unat b mod 16 < 16" for b :: byte
  proof -
    have "unat b < 256"
      using unsigned_less [of b] by simp
    then show "unat b div 16 < 16" "unat b mod 16 < 16"
      by auto
  qed
  ultimately show ?thesis
    by (induction bs) (auto simp: lower_hex_def hex_text_def)
qed

lemma cap_mac_hex [simp]: "lower_hex 64 (cap_mac flt k d v)"
  using hex_text_lower [of "hmac_sha256 k _"] by (simp add: cap_mac_def)

lemma sha_hex [simp]: "lower_hex 64 (hex_text (sha256 m))"
  using hex_text_lower [of "sha256 m"] by simp

lemma identity_hex [simp]: "lower_hex 64 (authority_identity k)"
  using hex_text_lower [of "hmac_sha256 k _"] by (simp add: authority_identity_def)

text \<open>Reading back what was saved: the counters, when they are consistent.\<close>

lemma load_saved:
  assumes "auth_key a = Some k"
  shows "load_state flt k (Document (state_document flt a)) =
    (if \<not> lower_hex 32 (service_epoch a) then Inl (CapError ''state'')
     else if issued_sequence a < 0 \<or> max_sequence < issued_sequence a \<or> consumed_sequence a < 0 \<or> max_sequence < consumed_sequence a
     then Inl (CapError ''bounds'')
     else if issued_sequence a < consumed_sequence a then Inl (CapError ''state'')
     else Inr (issued_sequence a, consumed_sequence a))"
proof -
  have body: "filter (\<lambda>p. fst p \<noteq> ''hmac_sha256'') (state_body a @ [(''hmac_sha256'', v)]) = state_body a" for v
    by (simp add: state_body_def)
  have keys: "set (map fst (state_body a @ [(''hmac_sha256'', v)])) = set state_fields" for v
    by (simp add: state_body_def state_fields_def)
  have fields: "dict_get_or (state_body a @ [(''hmac_sha256'', v)]) ''format'' PNone = PStr state_format"
    "dict_get_or (state_body a @ [(''hmac_sha256'', v)]) ''authority_id'' PNone = PStr (authority_identity k)"
    "dict_get_or (state_body a @ [(''hmac_sha256'', v)]) ''service_epoch'' PNone = PStr (service_epoch a)"
    "dict_get_or (state_body a @ [(''hmac_sha256'', v)]) ''issued_sequence'' PNone = PInt (issued_sequence a)"
    "dict_get_or (state_body a @ [(''hmac_sha256'', v)]) ''consumed_sequence'' PNone = PInt (consumed_sequence a)"
    "dict_get_or (state_body a @ [(''hmac_sha256'', v)]) ''hmac_sha256'' PNone = v" for v
    using assms by (simp_all add: state_body_def dict_get_or_def cap_authority_id_def)
  have "cap_key a = k"
    using assms by (simp add: cap_key_def)
  then show ?thesis
    unfolding load_state_def state_document_def
    by (simp only: disk_file.case pyval.case Let_def keys fields body) (auto simp: check_counter_def)
qed

lemma save_state_effect:
  assumes "save_state flt w s = (s', r)"
  shows "cap s' = cap s" and "anchor_file (disk s') = anchor_file (disk s)" and "lease_taken (disk s') = lease_taken (disk s)"
    and "state_file (disk s') = state_file (disk s) \<or> state_file (disk s') = Document (state_document flt (cap s))"
    and "r = Inr () \<Longrightarrow> durable_path (cap s) \<Longrightarrow> lease_held (cap s) \<and> state_file (disk s') = Document (state_document flt (cap s))"
  using assms by (auto simp: save_state_def Let_def split: if_splits write_outcome.splits)

text \<open>What no operation of a running authority changes.\<close>

definition same_authority :: "authority \<Rightarrow> authority \<Rightarrow> bool" where
  "same_authority a b \<longleftrightarrow> auth_key b = auth_key a \<and> durable_path b = durable_path a \<and> durable_required b = durable_required a
     \<and> test_only b = test_only a \<and> service_epoch b = service_epoch a \<and> lease_held b = lease_held a"

lemma same_authority_refl [simp]: "same_authority a a"
  by (simp add: same_authority_def)

lemma observe_clock_effect:
  assumes "observe_clock reading s = (s', r)"
  shows "same_authority (cap s) (cap s')" and "issued_sequence (cap s') = issued_sequence (cap s)"
    and "consumed_sequence (cap s') = consumed_sequence (cap s)" and "disk s' = disk s"
    and "r = Inr t \<Longrightarrow> reading = PInt t \<and> 0 \<le> t \<and> last_clock (cap s') = Some t
      \<and> degraded_reason (cap s') = degraded_reason (cap s)"
  using assms by (auto simp: observe_clock_def degrade_def same_authority_def split: pyval.splits if_splits)

lemma mint_cases:
  assumes "mint flt operation target encoded ttl identity now w s = (s', r)"
  obtains reason where "s' = degrade reason s"
  | reason where "s' = degrade reason (s\<lparr>cap := (cap s)\<lparr>issued_sequence := issued_sequence (cap s) + 1\<rparr>\<rparr>)"
  | r0 where "save_state flt w (s\<lparr>cap := (cap s)\<lparr>issued_sequence := issued_sequence (cap s) + 1\<rparr>\<rparr>) = (s', r0)"
  using assms unfolding mint_def Let_def by (auto simp: op_then_cases split: if_splits)

lemma mint_effect:
  assumes "mint flt operation target encoded ttl identity now w s = (s', r)"
  shows "same_authority (cap s) (cap s')" and "consumed_sequence (cap s') = consumed_sequence (cap s)"
    and "state_file (disk s') = state_file (disk s)
      \<or> (\<exists>a. same_authority (cap s) a \<and> consumed_sequence a = consumed_sequence (cap s)
           \<and> state_file (disk s') = Document (state_document flt a))"
proof -
  let ?a = "(cap s)\<lparr>issued_sequence := issued_sequence (cap s) + 1\<rparr>"
  have a: "same_authority (cap s) ?a" "consumed_sequence ?a = consumed_sequence (cap s)"
    by (simp_all add: same_authority_def)
  from assms have "same_authority (cap s) (cap s') \<and> consumed_sequence (cap s') = consumed_sequence (cap s)
    \<and> (state_file (disk s') = state_file (disk s) \<or> state_file (disk s') = Document (state_document flt ?a))"
  proof (cases rule: mint_cases)
    case (3 r0)
    from save_state_effect(1,4) [OF 3] a show ?thesis by auto
  qed (auto simp: degrade_def same_authority_def)
  then show "same_authority (cap s) (cap s')" and "consumed_sequence (cap s') = consumed_sequence (cap s)"
    and "state_file (disk s') = state_file (disk s)
      \<or> (\<exists>a. same_authority (cap s) a \<and> consumed_sequence a = consumed_sequence (cap s)
           \<and> state_file (disk s') = Document (state_document flt a))"
    using a by blast+
qed

lemma lift_check_iff [simp]: "lift_check x s = (s', r) \<longleftrightarrow> s' = s \<and> x = r"
  by (auto simp: lift_check_def)

lemma require_ready_state: "require_ready s = (s', r) \<Longrightarrow> s' = s"
  by (auto simp: require_ready_def split: if_splits)

lemma require_ready_Inr: "require_ready s = (s', Inr x) \<longleftrightarrow> s' = s \<and> fst (cap_health (cap s)) = ''ready''"
  by (auto simp: require_ready_def)

definition keeps_consumed :: "(rat \<Rightarrow> string) \<Rightarrow> cap_system \<Rightarrow> cap_system \<Rightarrow> bool" where
  "keeps_consumed flt s s' \<longleftrightarrow> same_authority (cap s) (cap s') \<and> consumed_sequence (cap s') = consumed_sequence (cap s)
     \<and> (state_file (disk s') = state_file (disk s)
        \<or> (\<exists>a. same_authority (cap s) a \<and> consumed_sequence a = consumed_sequence (cap s)
             \<and> state_file (disk s') = Document (state_document flt a)))"

lemma keeps_consumed_refl [simp]: "keeps_consumed flt s s"
  by (simp add: keeps_consumed_def)

lemma observe_keeps: "observe_clock reading s = (s', r) \<Longrightarrow> keeps_consumed flt s s'"
  by (auto simp: keeps_consumed_def dest: observe_clock_effect)

lemma same_authority_trans: "same_authority a b \<Longrightarrow> same_authority b c \<Longrightarrow> same_authority a c"
  by (simp add: same_authority_def)

lemma issue_keeps:
  assumes "issue flt opcode resource parameters ttl identity reading w s = (s', r)"
  shows "keeps_consumed flt s s'"
proof -
  from assms consider "s' = s" | e where "observe_clock reading s = (s', Inl e)"
    | s1 now operation target encoded where "observe_clock reading s = (s1, Inr now)"
        "mint flt operation target encoded ttl identity now w s1 = (s', r)"
    unfolding issue_def by (auto simp: op_then_cases dest: require_ready_state)
  then show ?thesis
  proof cases
    case (3 s1 now operation target encoded)
    from observe_clock_effect [OF 3(1)] mint_effect [OF 3(2)] show ?thesis
      by (auto simp: keeps_consumed_def intro: same_authority_trans)
  qed (auto intro: observe_keeps)
qed

text \<open>What \<open>burn\<close> does, and the whole of a successful consumption.\<close>

lemma burn_effect:
  assumes "burn flt payload now w s = (s', r)"
  shows "same_authority (cap s) (cap s')"
    and "r = Inr p \<Longrightarrow> p = payload \<and> p_issued p \<le> now \<and> now < p_expires p \<and> consumed_sequence (cap s) < p_sequence p
      \<and> consumed_sequence (cap s') = p_sequence p
      \<and> (durable_path (cap s) \<longrightarrow> state_file (disk s') = Document (state_document flt (cap s')))"
    and "consumed_sequence (cap s) \<le> consumed_sequence (cap s')"
    and "state_file (disk s') = state_file (disk s) \<or> state_file (disk s') = Document (state_document flt (cap s'))"
proof -
  let ?s1 = "s\<lparr>cap := (cap s)\<lparr>consumed_sequence := p_sequence payload\<rparr>\<rparr>"
  have same: "same_authority (cap s) (cap ?s1)"
    by (simp add: same_authority_def)
  from assms consider e where "s' = s" "r = Inl e"
    | r0 where "consumed_sequence (cap s) < p_sequence payload" "p_issued payload \<le> now" "now < p_expires payload"
        "save_state flt w ?s1 = (s', r0)" "r = (case r0 of Inl e \<Rightarrow> Inl e | Inr _ \<Rightarrow> Inr payload)"
    unfolding burn_def by (auto simp: op_then_cases not_less not_le split: if_splits)
  then have "same_authority (cap s) (cap s')
    \<and> (r = Inr p \<longrightarrow> p = payload \<and> p_issued p \<le> now \<and> now < p_expires p \<and> consumed_sequence (cap s) < p_sequence p
      \<and> consumed_sequence (cap s') = p_sequence p
      \<and> (durable_path (cap s) \<longrightarrow> state_file (disk s') = Document (state_document flt (cap s'))))
    \<and> consumed_sequence (cap s) \<le> consumed_sequence (cap s')
    \<and> (state_file (disk s') = state_file (disk s) \<or> state_file (disk s') = Document (state_document flt (cap s')))"
  proof cases
    case (2 r0)
    from save_state_effect(1,4,5) [OF 2(4)] 2 same show ?thesis
      by (auto split: sum.splits)
  qed simp
  then show "same_authority (cap s) (cap s')"
    and "r = Inr p \<Longrightarrow> p = payload \<and> p_issued p \<le> now \<and> now < p_expires p \<and> consumed_sequence (cap s) < p_sequence p
      \<and> consumed_sequence (cap s') = p_sequence p
      \<and> (durable_path (cap s) \<longrightarrow> state_file (disk s') = Document (state_document flt (cap s')))"
    and "consumed_sequence (cap s) \<le> consumed_sequence (cap s')"
    and "state_file (disk s') = state_file (disk s) \<or> state_file (disk s') = Document (state_document flt (cap s'))"
    by blast+
qed

lemma check_token_iff:
  "check_token flt a wrapper operation target encoded = Inr p \<longleftrightarrow>
     set (dict_keys wrapper) = {''payload'', ''hmac_sha256''}
     \<and> normalized_payload (dict_get_or wrapper ''payload'' PNone) = Inr p
     \<and> dict_get_or wrapper ''hmac_sha256'' PNone = PStr (cap_mac flt (cap_key a) cap_domain (payload_value p))
     \<and> p_authority_id p = cap_authority_id a \<and> p_service_epoch p = service_epoch a
     \<and> p_opcode p = operation \<and> p_resource p = target \<and> p_parameters_sha256 p = hex_text (sha256 encoded)"
proof (cases "dict_get_or wrapper ''hmac_sha256'' PNone")
  case (PStr signature)
  then show ?thesis
    unfolding check_token_def by (cases "normalized_payload (dict_get_or wrapper ''payload'' PNone)") auto
qed (simp_all add: check_token_def)

lemma consume_stages:
  assumes "consume flt doc opcode resource parameters reading w s = (s', r)"
  obtains "s' = s" "\<exists>e. r = Inl e"
  | e where "observe_clock reading s = (s', Inl e)" "r = Inl e"
  | s1 now payload operation target encoded wrapper normalized where
      "fst (cap_health (cap s)) = ''ready''" "check_opcode opcode = Inr operation" "check_resource resource = Inr target"
      "canonicalize_parameters flt parameters = Inr (normalized, encoded)" "decode_document flt doc = Inr wrapper"
      "check_token flt (cap s) wrapper operation target encoded = Inr payload"
      "observe_clock reading s = (s1, Inr now)" "burn flt payload now w s1 = (s', r)"
  using assms unfolding consume_def
  by (auto simp: op_then_cases require_ready_Inr dest: require_ready_state)

text \<open>Everything a granted token was checked for, and what its grant leaves behind.\<close>

lemma consume_granted:
  assumes "consume flt doc opcode resource parameters reading w s = (s', Inr p)"
  obtains wrapper encoded now where
    "fst (cap_health (cap s)) = ''ready''" "opcode = PStr (p_opcode p)" "resource = PStr (p_resource p)" "payload_ok p"
    "canonical True flt parameters = Some encoded" "p_parameters_sha256 p = hex_text (sha256 encoded)"
    "decode_document flt doc = Inr wrapper"
    "dict_get_or wrapper ''hmac_sha256'' PNone = PStr (cap_mac flt (cap_key (cap s)) cap_domain (payload_value p))"
    "p_authority_id p = cap_authority_id (cap s)" "p_service_epoch p = service_epoch (cap s)"
    "reading = PInt now" "p_issued p \<le> now" "now < p_expires p"
    "consumed_sequence (cap s) < p_sequence p" "consumed_sequence (cap s') = p_sequence p"
    "same_authority (cap s) (cap s')"
    "durable_path (cap s) \<longrightarrow> state_file (disk s') = Document (state_document flt (cap s'))"
  using assms
proof (cases rule: consume_stages)
  case (3 s1 now payload operation target encoded wrapper normalized)
  note b = burn_effect [OF 3(8)] and c = observe_clock_effect [OF 3(7)]
  have p: "p = payload"
    using b(2) by blast
  note t = 3(6) [unfolded check_token_iff]
  show ?thesis
  proof (rule that)
    show "opcode = PStr (p_opcode p)" "resource = PStr (p_resource p)"
      using 3(2,3) t p by (auto simp: check_opcode_iff check_resource_iff)
    show "payload_ok p"
      using t p normalized_payload_sound by blast
    show "canonical True flt parameters = Some encoded" "p_parameters_sha256 p = hex_text (sha256 encoded)"
      using 3(4) t p by (simp_all add: canonicalize_cases)
    show "reading = PInt now" "p_issued p \<le> now" "now < p_expires p"
      using b(2) c(5) by blast+
    show "consumed_sequence (cap s) < p_sequence p" "consumed_sequence (cap s') = p_sequence p"
      using b(2) c(3) by auto
    show "same_authority (cap s) (cap s')"
      using b(1) c(1) by (rule same_authority_trans [rotated])
    show "durable_path (cap s) \<longrightarrow> state_file (disk s') = Document (state_document flt (cap s'))"
      using b(2) c(1) by (auto simp: same_authority_def)
  qed (use 3 t p in auto)
qed auto

lemma consume_refused:
  assumes "consume flt doc opcode resource parameters reading w s = (s', r)"
  shows "same_authority (cap s) (cap s')" and "consumed_sequence (cap s) \<le> consumed_sequence (cap s')"
    and "state_file (disk s') = state_file (disk s) \<or> state_file (disk s') = Document (state_document flt (cap s'))"
  using assms
proof (atomize (full), cases rule: consume_stages)
  case (2 e)
  from observe_clock_effect [OF 2(1)] show "same_authority (cap s) (cap s') \<and> consumed_sequence (cap s) \<le> consumed_sequence (cap s')
    \<and> (state_file (disk s') = state_file (disk s) \<or> state_file (disk s') = Document (state_document flt (cap s')))"
    by simp
next
  case (3 s1 now payload operation target encoded wrapper normalized)
  from observe_clock_effect [OF 3(7)] burn_effect(1,3,4) [OF 3(8)]
  show "same_authority (cap s) (cap s') \<and> consumed_sequence (cap s) \<le> consumed_sequence (cap s')
    \<and> (state_file (disk s') = state_file (disk s) \<or> state_file (disk s') = Document (state_document flt (cap s')))"
    by (auto intro: same_authority_trans)
qed simp_all

section \<open>Runs across restarts\<close>

text \<open>
  The authority, its files, and the sequence numbers of the tokens granted so far, oldest first.
  A restart is the end of the process, which frees the lease, and a new constructor call on the
  same files; one that raises leaves no authority in service.
\<close>

record cap_world =
  sys :: cap_system
  burned :: "int list"

datatype cap_label = Issuing | Granting int | Refusing | Closing | Restarting | FailedRestart

inductive cap_step :: "(rat \<Rightarrow> string) \<Rightarrow> bytes \<Rightarrow> cap_world \<Rightarrow> cap_label \<Rightarrow> cap_world \<Rightarrow> bool" for flt k where
  cap_issue: "issue flt opcode resource parameters ttl identity reading wr (sys w) = (s', r) \<Longrightarrow>
    cap_step flt k w Issuing (w\<lparr>sys := s'\<rparr>)"
| cap_grant: "consume flt doc opcode resource parameters reading wr (sys w) = (s', Inr p) \<Longrightarrow>
    cap_step flt k w (Granting (p_sequence p)) (w\<lparr>sys := s', burned := burned w @ [p_sequence p]\<rparr>)"
| cap_refuse: "consume flt doc opcode resource parameters reading wr (sys w) = (s', Inl e) \<Longrightarrow>
    cap_step flt k w Refusing (w\<lparr>sys := s'\<rparr>)"
| cap_close: "cap_step flt k w Closing (w\<lparr>sys := close_authority (sys w)\<rparr>)"
| cap_restart: "open_authority flt (Some k) True False epoch aw sw ((disk (sys w))\<lparr>lease_taken := False\<rparr>) = (d', Inr a) \<Longrightarrow>
    cap_step flt k w Restarting (w\<lparr>sys := \<lparr>cap = a, disk = d'\<rparr>\<rparr>)"
| cap_no_restart: "open_authority flt (Some k) True False epoch aw sw ((disk (sys w))\<lparr>lease_taken := False\<rparr>) = (d', Inl e) \<Longrightarrow>
    cap_step flt k w FailedRestart
      (w\<lparr>sys := \<lparr>cap = (cap (sys w))\<lparr>lease_held := False, degraded_reason := ''authority-closed''\<rparr>, disk = d'\<rparr>\<rparr>)"

definition disk_covers :: "(rat \<Rightarrow> string) \<Rightarrow> bytes \<Rightarrow> disk_file \<Rightarrow> int list \<Rightarrow> bool" where
  "disk_covers flt k f xs \<longleftrightarrow> (\<forall>i c. load_state flt k f = Inr (i, c) \<longrightarrow> (\<forall>x \<in> set xs. x \<le> c))"

definition cap_inv :: "(rat \<Rightarrow> string) \<Rightarrow> bytes \<Rightarrow> cap_world \<Rightarrow> bool" where
  "cap_inv flt k w \<longleftrightarrow> auth_key (cap (sys w)) = Some k \<and> durable_path (cap (sys w))
     \<and> sorted_wrt (<) (burned w) \<and> (\<forall>x \<in> set (burned w). x \<le> consumed_sequence (cap (sys w)))
     \<and> disk_covers flt k (state_file (disk (sys w))) (burned w)"

lemma disk_covers_saved:
  "auth_key a = Some k \<Longrightarrow> \<forall>x \<in> set xs. x \<le> consumed_sequence a \<Longrightarrow> disk_covers flt k (Document (state_document flt a)) xs"
  by (simp add: disk_covers_def load_saved)

lemma initialize_anchor_state:
  "initialize_anchor flt k w d = (d', r) \<Longrightarrow> state_file d' = state_file d"
  by (auto simp: initialize_anchor_def split: disk_file.splits pyval.splits if_splits write_outcome.splits)

lemma open_authority_effect:
  assumes "open_authority flt (Some k) True False epoch aw sw d = (d', r)"
  shows "state_file d' = state_file d
      \<or> (\<exists>i c a. load_state flt k (state_file d) = Inr (i, c) \<and> auth_key a = Some k \<and> consumed_sequence a = c
           \<and> state_file d' = Document (state_document flt a))"
    and "r = Inr a \<Longrightarrow> auth_key a = Some k \<and> durable_path a \<and> service_epoch a = epoch \<and> lease_held a
      \<and> last_clock a = None \<and> cap_health a = (''ready'', ''durable-epoch-bound-authority-ready'')
      \<and> load_state flt k (state_file d) = Inr (issued_sequence a, consumed_sequence a)
      \<and> state_file d' = Document (state_document flt a)"
proof -
  let ?a1 = "\<lambda>i c. (new_authority (Some k) True False epoch)\<lparr>lease_held := True, issued_sequence := i, consumed_sequence := c\<rparr>"
  from assms consider e where "r = Inl e" "state_file d' = state_file d"
    | d1 i c sw' s r1 where "state_file d1 = state_file d" "load_state flt k (state_file d) = Inr (i, c)"
        "save_state flt sw' \<lparr>cap = ?a1 i c, disk = d1\<lparr>lease_taken := True\<rparr>\<rparr> = (s, r1)"
        "state_file d' = state_file (disk s)" "r = (case r1 of Inl e \<Rightarrow> Inl e | Inr _ \<Rightarrow> Inr (cap s))"
    unfolding open_authority_def Let_def
    by (auto split: if_splits prod.splits sum.splits dest!: initialize_anchor_state)
  then have "(state_file d' = state_file d
      \<or> (\<exists>i c a. load_state flt k (state_file d) = Inr (i, c) \<and> auth_key a = Some k \<and> consumed_sequence a = c
           \<and> state_file d' = Document (state_document flt a)))
    \<and> (r = Inr a \<longrightarrow> auth_key a = Some k \<and> durable_path a \<and> service_epoch a = epoch \<and> lease_held a
      \<and> last_clock a = None \<and> cap_health a = (''ready'', ''durable-epoch-bound-authority-ready'')
      \<and> load_state flt k (state_file d) = Inr (issued_sequence a, consumed_sequence a)
      \<and> state_file d' = Document (state_document flt a))"
  proof cases
    case (2 d1 i c sw' s r1)
    define b where "b = ?a1 i c"
    have b: "auth_key b = Some k" "consumed_sequence b = c" "issued_sequence b = i" "durable_path b" "service_epoch b = epoch"
        "lease_held b" "last_clock b = None" "cap_health b = (''ready'', ''durable-epoch-bound-authority-ready'')"
      by (simp_all add: b_def new_authority_def cap_health_def)
    note save = save_state_effect(1,4,5) [OF 2(3), folded b_def, simplified]
    have cases: "state_file d' = state_file d \<or> state_file d' = Document (state_document flt b)"
      using save(2) 2(1,4) by simp
    show ?thesis
    proof (cases r1)
      case (Inl e)
      with cases 2(2,5) b(1,2) show ?thesis by auto
    next
      case (Inr u)
      with save 2(2,4,5) b show ?thesis by auto
    qed
  qed simp
  then show "state_file d' = state_file d
      \<or> (\<exists>i c a. load_state flt k (state_file d) = Inr (i, c) \<and> auth_key a = Some k \<and> consumed_sequence a = c
           \<and> state_file d' = Document (state_document flt a))"
    and "r = Inr a \<Longrightarrow> auth_key a = Some k \<and> durable_path a \<and> service_epoch a = epoch \<and> lease_held a
      \<and> last_clock a = None \<and> cap_health a = (''ready'', ''durable-epoch-bound-authority-ready'')
      \<and> load_state flt k (state_file d) = Inr (issued_sequence a, consumed_sequence a)
      \<and> state_file d' = Document (state_document flt a)"
    by blast+
qed

lemma keeps_inv:
  assumes "cap_inv flt k w" and "keeps_consumed flt (sys w) s'"
  shows "cap_inv flt k (w\<lparr>sys := s'\<rparr>)"
  using assms by (auto simp: cap_inv_def keeps_consumed_def same_authority_def disk_covers_saved)

lemma cap_step_inv:
  assumes inv: "cap_inv flt k w" and "cap_step flt k w l w'"
  shows "cap_inv flt k w'"
  using assms(2)
proof cases
  case (cap_issue opcode resource parameters ttl identity reading wr s' r)
  with keeps_inv [OF inv issue_keeps] show ?thesis by blast
next
  case (cap_grant doc opcode resource parameters reading wr s' p)
  from cap_grant(3) show ?thesis
  proof (rule consume_granted)
    assume g: "consumed_sequence (cap (sys w)) < p_sequence p" "consumed_sequence (cap s') = p_sequence p"
      "same_authority (cap (sys w)) (cap s')"
      "durable_path (cap (sys w)) \<longrightarrow> state_file (disk s') = Document (state_document flt (cap s'))"
    then have "disk_covers flt k (state_file (disk s')) (burned w @ [p_sequence p])"
      using inv disk_covers_saved [of "cap s'" k "burned w @ [p_sequence p]" flt]
      by (force simp: cap_inv_def same_authority_def)
    with g inv cap_grant(2) show ?thesis
      by (force simp: cap_inv_def same_authority_def sorted_wrt_append)
  qed
next
  case (cap_refuse doc opcode resource parameters reading wr s' e)
  note r = consume_refused [OF cap_refuse(3)]
  have "\<forall>x \<in> set (burned w). x \<le> consumed_sequence (cap s')"
    using inv r(2) by (force simp: cap_inv_def)
  with r(1,3) inv cap_refuse(2) show ?thesis
    by (auto simp: cap_inv_def same_authority_def disk_covers_saved)
next
  case cap_close
  with inv show ?thesis
    by (simp add: cap_inv_def close_authority_def)
next
  case (cap_restart epoch aw sw d' a)
  from open_authority_effect(2) [OF cap_restart(3) refl] inv cap_restart(2) show ?thesis
    by (auto simp: cap_inv_def disk_covers_def load_saved split: if_splits)
next
  case (cap_no_restart epoch aw sw d' e)
  have "disk_covers flt k (state_file d') (burned w)"
    using open_authority_effect(1) [OF cap_no_restart(3)] inv
    by (auto simp: cap_inv_def disk_covers_def load_saved split: if_splits)
  with inv cap_no_restart(2) show ?thesis
    by (simp add: cap_inv_def)
qed

interpretation capability: transition_system "cap_step flt k" "cap_inv flt k" for flt k
  by unfold_locales (rule cap_step_inv)

section \<open>From issue to consumption\<close>

definition minted :: "authority \<Rightarrow> string \<Rightarrow> string \<Rightarrow> bytes \<Rightarrow> int \<Rightarrow> string \<Rightarrow> int \<Rightarrow> cap_payload" where
  "minted a operation target encoded ttl identity now =
     \<lparr>p_authority_id = cap_authority_id a, p_service_epoch = service_epoch a, p_capability_id = identity,
       p_sequence = issued_sequence a + 1, p_opcode = operation, p_resource = target,
       p_parameters_sha256 = hex_text (sha256 encoded), p_issued = now, p_expires = now + ttl\<rparr>"

lemma observe_clock_Inr:
  "observe_clock reading s = (s', Inr now) \<Longrightarrow> reading = PInt now \<and> 0 \<le> now \<and> s' = s\<lparr>cap := (cap s)\<lparr>last_clock := Some now\<rparr>\<rparr>"
  by (auto simp: observe_clock_def split: pyval.splits if_splits)

lemma mint_Inr:
  assumes "mint flt operation target encoded ttl identity now w s = (s', Inr wrapper)"
  shows "wrapper = wrapper_items flt (cap_key (cap s)) (minted (cap s) operation target encoded ttl identity now)"
    and "\<exists>bs. canonical True flt (PDict wrapper) = Some bs \<and> length bs \<le> max_capability_bytes"
    and "cap s' = (cap s)\<lparr>issued_sequence := issued_sequence (cap s) + 1\<rparr>" and "issued_sequence (cap s) < max_sequence"
    and "durable_path (cap s) \<longrightarrow> lease_held (cap s)"
proof -
  let ?s1 = "s\<lparr>cap := (cap s)\<lparr>issued_sequence := issued_sequence (cap s) + 1\<rparr>\<rparr>"
  let ?w = "wrapper_items flt (cap_key (cap s)) (minted (cap s) operation target encoded ttl identity now)"
  have same: "cap_key (cap ?s1) = cap_key (cap s)" "cap_authority_id (cap ?s1) = cap_authority_id (cap s)"
    by (simp_all add: cap_key_def cap_authority_id_def)
  from assms have r: "issued_sequence (cap s) < max_sequence" "wrapper = ?w"
    "\<exists>bs. canonical True flt (PDict ?w) = Some bs \<and> length bs \<le> max_capability_bytes"
    "save_state flt w ?s1 = (s', Inr ())"
    using same unfolding mint_def Let_def minted_def
    by (auto simp: op_then_Inr_iff split: if_splits option.splits)
  with save_state_effect(1,5) [OF r(4)] show "wrapper = ?w"
    and "\<exists>bs. canonical True flt (PDict wrapper) = Some bs \<and> length bs \<le> max_capability_bytes"
    and "cap s' = (cap s)\<lparr>issued_sequence := issued_sequence (cap s) + 1\<rparr>" and "issued_sequence (cap s) < max_sequence"
    and "durable_path (cap s) \<longrightarrow> lease_held (cap s)"
    by simp_all
qed

lemma issue_Inr:
  assumes "issue flt opcode resource parameters ttl identity reading w s = (s', Inr wrapper)"
  obtains operation target encoded now where
    "fst (cap_health (cap s)) = ''ready''" "check_opcode opcode = Inr operation" "check_resource resource = Inr target"
    "canonicalize_parameters flt parameters = Inr (parameters, encoded)" "1 \<le> ttl" "ttl \<le> max_ttl_ns"
    "reading = PInt now" "0 \<le> now"
    "wrapper = wrapper_items flt (cap_key (cap s)) (minted (cap s) operation target encoded ttl identity now)"
    "\<exists>bs. canonical True flt (PDict wrapper) = Some bs \<and> length bs \<le> max_capability_bytes"
    "cap s' = (cap s)\<lparr>last_clock := Some now, issued_sequence := issued_sequence (cap s) + 1\<rparr>"
    "issued_sequence (cap s) < max_sequence" "durable_path (cap s) \<longrightarrow> lease_held (cap s)"
proof -
  from assms obtain operation target normalized encoded now s1 where
    c: "fst (cap_health (cap s)) = ''ready''" "check_opcode opcode = Inr operation" "check_resource resource = Inr target"
    "canonicalize_parameters flt parameters = Inr (normalized, encoded)" "1 \<le> ttl" "ttl \<le> max_ttl_ns"
    and o: "observe_clock reading s = (s1, Inr now)" and m: "mint flt operation target encoded ttl identity now w s1 = (s', Inr wrapper)"
    unfolding issue_def by (auto simp: op_then_Inr_iff require_ready_Inr split: if_splits)
  note oc = observe_clock_Inr [OF o] and mi = mint_Inr [OF m]
  have key: "cap_key (cap s1) = cap_key (cap s)" "minted (cap s1) operation target encoded ttl identity now = minted (cap s) operation target encoded ttl identity now"
    using oc by (simp_all add: cap_key_def minted_def cap_authority_id_def)
  show ?thesis
    using c oc mi(2-) mi(1) [unfolded key] by (intro that [of operation target encoded now]) (simp_all add: canonicalize_cases)
qed

lemma payload_value_finite [simp]: "json_finite (payload_value p)"
  by (simp add: payload_value_def)

lemma minted_ok:
  assumes "check_opcode opcode = Inr operation" "check_resource resource = Inr target" "1 \<le> ttl" "ttl \<le> max_ttl_ns"
    and "0 \<le> now" "now + ttl \<le> max_sequence" "lower_hex 32 identity" "lower_hex 32 (service_epoch a)" "auth_key a = Some k"
    and "0 \<le> issued_sequence a" "issued_sequence a < max_sequence"
  shows "payload_ok (minted a operation target encoded ttl identity now)"
  using assms by (simp add: payload_ok_def minted_def check_opcode_iff check_resource_iff cap_authority_id_def)

lemma check_minted:
  assumes "payload_ok (minted a operation target encoded ttl identity now)"
    and "same_authority a b"
  shows "check_token flt b (wrapper_items flt (cap_key a) (minted a operation target encoded ttl identity now)) operation target encoded
    = Inr (minted a operation target encoded ttl identity now)"
  using normalized_payload_value [OF assms(1)] assms(2)
  unfolding check_token_iff
  by (simp add: wrapper_items_def dict_get_or_def minted_def same_authority_def cap_authority_id_def cap_key_def)

lemma health_clock [simp]: "cap_health (a\<lparr>last_clock := t\<rparr>) = cap_health a" "cap_health (a\<lparr>issued_sequence := i\<rparr>) = cap_health a"
  "cap_health (a\<lparr>consumed_sequence := c\<rparr>) = cap_health a"
  by (simp_all add: cap_health_def)

text \<open>
  Consuming a minted token in a state of the same authority that has not moved past it: the second
  attempt, with the clock not gone backwards, is a replay.
\<close>

lemma redeem:
  assumes iss: "issue flt opcode resource parameters ttl identity (PInt now) w s = (s1, Inr wrapper)"
    and wf: "auth_key (cap s) = Some k" "lower_hex 32 (service_epoch (cap s))" "lower_hex 32 identity"
      "consumed_sequence (cap s) \<le> issued_sequence (cap s)" "0 \<le> issued_sequence (cap s)" "now + ttl \<le> max_sequence"
    and t: "now \<le> t" "t < now + ttl"
  obtains s2 p where "consume flt (CapMapping wrapper) opcode resource parameters (PInt t) WriteOk s1 = (s2, Inr p)"
    and "p_sequence p = issued_sequence (cap s) + 1" and "opcode = PStr (p_opcode p)" and "resource = PStr (p_resource p)"
    and "\<And>t'. t \<le> t' \<Longrightarrow> t' < now + ttl \<Longrightarrow>
      snd (consume flt (CapMapping wrapper) opcode resource parameters (PInt t') WriteOk s2) = Inl (CapError ''replay'')"
proof -
  from iss obtain operation target encoded where
    i: "fst (cap_health (cap s)) = ''ready''" "check_opcode opcode = Inr operation" "check_resource resource = Inr target"
    "canonicalize_parameters flt parameters = Inr (parameters, encoded)" "1 \<le> ttl" "ttl \<le> max_ttl_ns" "0 \<le> now"
    "wrapper = wrapper_items flt (cap_key (cap s)) (minted (cap s) operation target encoded ttl identity now)"
    "\<exists>bs. canonical True flt (PDict wrapper) = Some bs \<and> length bs \<le> max_capability_bytes"
    "cap s1 = (cap s)\<lparr>last_clock := Some now, issued_sequence := issued_sequence (cap s) + 1\<rparr>"
    "issued_sequence (cap s) < max_sequence" "durable_path (cap s) \<longrightarrow> lease_held (cap s)"
    by (elim issue_Inr) blast
  let ?p = "minted (cap s) operation target encoded ttl identity now"
  have ok: "payload_ok ?p"
    by (rule minted_ok [OF i(2,3,5,6,7) wf(6,3,2,1,5) i(11)])
  have dec: "decode_document flt (CapMapping wrapper) = Inr wrapper"
    using i(9) by (auto simp: decode_document_def canonical_cap_def)
  have chk: "check_token flt b wrapper operation target encoded = Inr ?p" if "same_authority (cap s) b" for b
    unfolding i(8) by (rule check_minted [OF ok that])
  have stages: "consume flt (CapMapping wrapper) opcode resource parameters reading w' q =
      op_then (observe_clock reading) (\<lambda>now. burn flt ?p now w') q"
    if "same_authority (cap s) (cap q)" "fst (cap_health (cap q)) = ''ready''" for reading w' q
    unfolding consume_def using that i(2-4) dec chk [OF that(1)]
    by (simp add: op_then_def [of require_ready] op_then_def [of "lift_check _"] lift_check_def require_ready_def)
  define s1' where "s1' = s1\<lparr>cap := (cap s1)\<lparr>last_clock := Some t\<rparr>\<rparr>"
  define a2 where "a2 = (cap s1')\<lparr>consumed_sequence := issued_sequence (cap s) + 1\<rparr>"
  have s1: "same_authority (cap s) (cap s1)" "fst (cap_health (cap s1)) = ''ready''"
    using i(1,10) by (simp_all add: same_authority_def)
  have a2: "same_authority (cap s) a2" "fst (cap_health a2) = ''ready''" "consumed_sequence a2 = issued_sequence (cap s) + 1" "last_clock a2 = Some t"
    using s1 by (simp_all add: a2_def s1'_def same_authority_def)
  have o1: "observe_clock (PInt t) s1 = (s1', Inr t)"
    using i(7,10) t by (simp add: observe_clock_def s1'_def)
  have "save_state flt WriteOk (s1'\<lparr>cap := a2\<rparr>) = ((if durable_path a2
      then (s1'\<lparr>cap := a2\<rparr>)\<lparr>disk := (disk s1')\<lparr>state_file := Document (state_document flt a2)\<rparr>\<rparr> else s1'\<lparr>cap := a2\<rparr>), Inr ())"
    using i(12) a2(1) by (auto simp: save_state_def same_authority_def)
  moreover have "p_issued ?p \<le> t" "t < p_expires ?p" "consumed_sequence (cap s1') < p_sequence ?p" "p_sequence ?p = issued_sequence (cap s) + 1"
    using t wf(4) i(10) by (simp_all add: minted_def s1'_def)
  ultimately obtain s2 where b: "burn flt ?p t WriteOk s1' = (s2, Inr ?p)" and s2: "cap s2 = a2"
    by (auto simp: burn_def a2_def [symmetric] op_then_def)
  have "snd (consume flt (CapMapping wrapper) opcode resource parameters (PInt t') WriteOk s2) = Inl (CapError ''replay'')"
    if "t \<le> t'" "t' < now + ttl" for t'
    using that t i(7) a2 s2 stages [of s2 "PInt t'" WriteOk]
    by (simp add: op_then_def observe_clock_def burn_def minted_def)
  with b o1 stages [OF s1, of "PInt t" WriteOk] i(2,3) show ?thesis
    by (intro that [of s2 ?p]) (simp_all add: minted_def check_opcode_iff check_resource_iff)
qed

section \<open>Properties\<close>

fun granted :: "cap_label list \<Rightarrow> int list" where
  "granted [] = []"
| "granted (Granting q # ls) = q # granted ls"
| "granted (_ # ls) = granted ls"

lemma burned_run:
  assumes "run (cap_step flt k) w ls w'"
  shows "burned w' = burned w @ granted ls"
  using assms by (induction rule: run.induct) (auto elim!: cap_step.cases)

text \<open>
  C25: A capability is spent once, for good: along any sequence of issues, consumptions, failed disk
  writes, closes, crashes and restarts on the same files, starting from the first enrollment, the
  sequence numbers of the granted tokens strictly increase, so no token is ever granted twice and
  none is granted after a later one.
\<close>

theorem capabilities_single_use:
  assumes "open_authority flt (Some k) True False epoch aw sw \<lparr>state_file = Absent, anchor_file = Absent, lease_taken = False\<rparr> = (d, Inr a)"
    and "run (cap_step flt k) \<lparr>sys = \<lparr>cap = a, disk = d\<rparr>, burned = []\<rparr> ls w"
  shows "sorted_wrt (<) (granted ls)"
proof -
  have "cap_inv flt k \<lparr>sys = \<lparr>cap = a, disk = d\<rparr>, burned = []\<rparr>"
    using open_authority_effect(2) [OF assms(1) refl] by (simp add: cap_inv_def disk_covers_def)
  with capability.inv_run [OF assms(2)] burned_run [OF assms(2)] show ?thesis
    by (simp add: cap_inv_def)
qed

lemma decode_document_Inr:
  "decode_document flt doc = Inr wrapper \<Longrightarrow> (case doc of
     CapMapping kvs \<Rightarrow> wrapper = kvs \<and> (\<exists>bs. canonical_cap flt (PDict kvs) = Inr bs \<and> length bs \<le> max_capability_bytes)
   | CapText n parsed \<Rightarrow> n \<le> max_capability_bytes \<and> parsed = Some (PDict wrapper) \<and> json_unique_keys (PDict wrapper)
   | CapOther \<Rightarrow> False)"
  by (auto simp: decode_document_def split: cap_document.splits sum.splits option.splits pyval.splits if_splits)

lemma ready_iff: "fst (cap_health a) = ''ready'' \<longleftrightarrow> auth_key a \<noteq> None \<and> \<not> durable_required a \<and> degraded_reason a = []"
  by (simp add: cap_health_def)

lemma observe_clock_forward:
  "observe_clock reading s = (s', Inr now) \<Longrightarrow> 0 \<le> now \<and> (\<forall>t. last_clock (cap s) = Some t \<longrightarrow> t \<le> now)"
  by (auto simp: observe_clock_def split: pyval.splits if_splits option.splits)

text \<open>
  C26: Everything a granting consumption has checked.  The authority is ready: provisioned, not waiting for
  durable state and not degraded.  The document is within its bound, holds each key once and nothing but a
  payload and a tag; the payload has exactly its fields, each of its form; the tag is the authority's over the
  whole payload.  Opcode and resource are the requested ones, and the parameter digest is that of the requested
  parameters, an object of at most 128 acceptable values, six levels and 8192 bytes.  Authority and service
  epoch are the current ones, the clock has not run back and is within a lifetime of at most a minute, and the
  sequence number is beyond every one consumed before; that number is left as the new high-water mark, already
  on disk where state is durable.
\<close>

theorem consume_grants_only:
  assumes "consume flt doc opcode resource parameters reading w s = (s', Inr p)"
  shows "\<exists>wrapper encoded now. auth_key (cap s) \<noteq> None \<and> \<not> durable_required (cap s) \<and> degraded_reason (cap s) = []
    \<and> decode_document flt doc = Inr wrapper
    \<and> (case doc of
         CapMapping kvs \<Rightarrow> wrapper = kvs \<and> (\<exists>bs. canonical_cap flt (PDict kvs) = Inr bs \<and> length bs \<le> max_capability_bytes)
       | CapText n parsed \<Rightarrow> n \<le> max_capability_bytes \<and> parsed = Some (PDict wrapper) \<and> json_unique_keys (PDict wrapper)
       | CapOther \<Rightarrow> False)
    \<and> set (dict_keys wrapper) = {''payload'', ''hmac_sha256''}
    \<and> normalized_payload (dict_get_or wrapper ''payload'' PNone) = Inr p \<and> payload_ok p
    \<and> dict_get_or wrapper ''hmac_sha256'' PNone = PStr (cap_mac flt (cap_key (cap s)) cap_domain (payload_value p))
    \<and> opcode = PStr (p_opcode p) \<and> p_opcode p \<in> set privileged_opcodes \<and> resource = PStr (p_resource p) \<and> resource_ok (p_resource p)
    \<and> (\<exists>kvs. parameters = PDict kvs) \<and> canonical True flt parameters = Some encoded \<and> length encoded \<le> 8192
    \<and> value_count parameters \<le> 128 \<and> depth_within parameters 6 \<and> leaves_ok parameters
    \<and> p_parameters_sha256 p = hex_text (sha256 encoded)
    \<and> p_authority_id p = cap_authority_id (cap s) \<and> p_service_epoch p = service_epoch (cap s)
    \<and> reading = PInt now \<and> 0 \<le> now \<and> (\<forall>t. last_clock (cap s) = Some t \<longrightarrow> t \<le> now)
    \<and> p_issued p \<le> now \<and> now < p_expires p \<and> p_expires p \<le> p_issued p + max_ttl_ns
    \<and> consumed_sequence (cap s) < p_sequence p \<and> consumed_sequence (cap s') = p_sequence p
    \<and> (durable_path (cap s) \<longrightarrow> state_file (disk s') = Document (state_document flt (cap s')))"
  using assms
proof (cases rule: consume_stages)
  case (3 s1 now payload operation target encoded wrapper normalized)
  have p: "p = payload"
    using burn_effect(2) [OF 3(8)] by blast
  note t = 3(6) [unfolded check_token_iff]
  obtain n where n: "reading = PInt n" "p_issued p \<le> n" "n < p_expires p" "payload_ok p" "opcode = PStr (p_opcode p)" "resource = PStr (p_resource p)"
      "consumed_sequence (cap s) < p_sequence p" "consumed_sequence (cap s') = p_sequence p"
      "durable_path (cap s) \<longrightarrow> state_file (disk s') = Document (state_document flt (cap s'))"
    using assms by (rule consume_granted) blast
  have now: "n = now"
    using observe_clock_effect(5) [OF 3(7)] n(1) by simp
  show ?thesis
  proof (rule exI [of _ wrapper], rule exI [of _ encoded], rule exI [of _ now], intro conjI)
    show "case doc of
         CapMapping kvs \<Rightarrow> wrapper = kvs \<and> (\<exists>bs. canonical_cap flt (PDict kvs) = Inr bs \<and> length bs \<le> max_capability_bytes)
       | CapText n parsed \<Rightarrow> n \<le> max_capability_bytes \<and> parsed = Some (PDict wrapper) \<and> json_unique_keys (PDict wrapper)
       | CapOther \<Rightarrow> False"
      by (rule decode_document_Inr [OF 3(5)])
    show "p_opcode p \<in> set privileged_opcodes" "resource_ok (p_resource p)" "p_expires p \<le> p_issued p + max_ttl_ns"
      using n(4) by (simp_all add: payload_ok_def)
  qed (use 3(1,4,5) t p n now observe_clock_forward [OF 3(7)] in \<open>simp_all add: ready_iff canonicalize_cases\<close>)
qed auto

text \<open>
  C27: A token just issued is granted for the operation, resource and parameters it was issued for,
  at any clock reading within its lifetime, and every further attempt to use it within the lifetime
  is refused as a replay.
\<close>

theorem issued_token_granted_once:
  assumes "issue flt opcode resource parameters ttl identity (PInt now) w s = (s1, Inr wrapper)"
    and "auth_key (cap s) = Some k" and "lower_hex 32 (service_epoch (cap s))" and "lower_hex 32 identity"
    and "consumed_sequence (cap s) \<le> issued_sequence (cap s)" and "0 \<le> issued_sequence (cap s)"
    and "now + ttl \<le> max_sequence" and "now \<le> t" and "t < now + ttl"
  shows "\<exists>s2 p. consume flt (CapMapping wrapper) opcode resource parameters (PInt t) WriteOk s1 = (s2, Inr p)
    \<and> opcode = PStr (p_opcode p) \<and> resource = PStr (p_resource p)
    \<and> (\<forall>t'. t \<le> t' \<and> t' < now + ttl \<longrightarrow>
         snd (consume flt (CapMapping wrapper) opcode resource parameters (PInt t') WriteOk s2) = Inl (CapError ''replay''))"
  using assms by (rule redeem) blast

text \<open>
  Parameters are accepted exactly when they are an object with at most 128 values, nested at
  most six deep, with acceptable keys, integers, texts and finite numbers, whose canonical text has
  at most 8192 bytes; the copy that is bound and executed is the value itself.
\<close>

theorem parameters_accepted_exactly:
  "canonicalize_parameters flt v = Inr (v', encoded) \<longleftrightarrow>
     (\<exists>kvs. v = PDict kvs) \<and> v' = v \<and> canonical True flt v = Some encoded \<and> length encoded \<le> 8192
     \<and> value_count v \<le> 128 \<and> depth_within v 6 \<and> leaves_ok v"
  by (rule canonicalize_cases)

text \<open>
  The state a running authority writes is read back by its successor with the same two
  counters; and a file that is read at all carries the tag, under the key, of its own content.
\<close>

theorem durable_state_roundtrip:
  "(\<forall>a. auth_key a = Some k \<and> lower_hex 32 (service_epoch a) \<and> 0 \<le> consumed_sequence a
        \<and> consumed_sequence a \<le> issued_sequence a \<and> issued_sequence a \<le> max_sequence \<longrightarrow>
      load_state flt k (Document (state_document flt a)) = Inr (issued_sequence a, consumed_sequence a))
   \<and> (\<forall>kvs i c. load_state flt k (Document (PDict kvs)) = Inr (i, c) \<longrightarrow>
      dict_get kvs ''hmac_sha256'' = Some (PStr (cap_mac flt k state_domain (PDict (filter (\<lambda>p. fst p \<noteq> ''hmac_sha256'') kvs))))
      \<and> dict_get kvs ''issued_sequence'' = Some (PInt i) \<and> dict_get kvs ''consumed_sequence'' = Some (PInt c) \<and> 0 \<le> c \<and> c \<le> i)"
proof -
  have get: "dict_get kvs n = Some v" if "dict_get_or kvs n PNone = v" "v \<noteq> PNone" for kvs n v
    using that by (auto simp: dict_get_or_def split: option.splits)
  have "load_state flt k (Document (PDict kvs)) = Inr (i, c) \<Longrightarrow>
      dict_get kvs ''hmac_sha256'' = Some (PStr (cap_mac flt k state_domain (PDict (filter (\<lambda>p. fst p \<noteq> ''hmac_sha256'') kvs))))
      \<and> dict_get kvs ''issued_sequence'' = Some (PInt i) \<and> dict_get kvs ''consumed_sequence'' = Some (PInt c) \<and> 0 \<le> c \<and> c \<le> i" for kvs i c
    unfolding load_state_def Let_def
    by (auto simp: check_counter_iff not_less split: if_splits pyval.splits intro: get)
  then show ?thesis
    by (simp add: load_saved)
qed

section \<open>The byte bound of a minted token is never the obstacle\<close>

lemma length_lower_hex: "lower_hex n s \<Longrightarrow> length s = n"
  by (simp add: lower_hex_def)

lemma opcode_length: "s \<in> set privileged_opcodes \<Longrightarrow> length s \<le> 40"
  by (auto simp: privileged_opcodes_def)

lemma resource_length: "resource_ok s \<Longrightarrow> length s \<le> 160"
  by (auto simp: resource_ok_def resource_shape_def split: list.splits)

lemma json_int_length: "\<bar>i\<bar> \<le> max_sequence \<Longrightarrow> length (show_int i) \<le> 21"
  using length_show_int [of i 20] by simp

lemma wrapper_fits:
  assumes ok: "payload_ok p"
  shows "\<exists>bs. canonical True flt (PDict (wrapper_items flt k p)) = Some bs \<and> length bs \<le> max_capability_bytes"
proof -
  let ?v = "PDict (wrapper_items flt k p)" and ?j = "json_string True" and ?n = "\<lambda>i. length (show_int i)"
  note l = length_json_string_le [of True]
  have tags: "length (p_authority_id p) = 64" "length (p_service_epoch p) = 32" "length (p_capability_id p) = 32"
      "length (p_parameters_sha256 p) = 64" "length (p_opcode p) \<le> 40" "length (p_resource p) \<le> 160"
      "length (cap_mac flt k cap_domain (payload_value p)) = 64"
    using ok length_lower_hex [OF cap_mac_hex] by (auto simp: payload_ok_def dest: length_lower_hex opcode_length resource_length)
  have ints: "?n (p_sequence p) \<le> 21" "?n (p_issued p) \<le> 21" "?n (p_expires p) \<le> 21"
    using ok by (auto simp: payload_ok_def intro!: json_int_length)
  have strs: "length (?j (p_authority_id p)) \<le> 386" "length (?j (p_service_epoch p)) \<le> 194" "length (?j (p_capability_id p)) \<le> 194"
      "length (?j (p_parameters_sha256 p)) \<le> 386" "length (?j (p_opcode p)) \<le> 242" "length (?j (p_resource p)) \<le> 962"
      "length (?j (cap_mac flt k cap_domain (payload_value p))) \<le> 386" "length (?j cap_format) \<le> 188"
    using l [of "p_authority_id p"] l [of "p_service_epoch p"] l [of "p_capability_id p"] l [of "p_parameters_sha256 p"]
      l [of "p_opcode p"] l [of "p_resource p"] l [of "cap_mac flt k cap_domain (payload_value p)"] l [of cap_format] tags
    by (simp_all add: cap_format_def)
  have keys: "length (?j ''format'') \<le> 38" "length (?j ''authority_id'') \<le> 74" "length (?j ''service_epoch'') \<le> 80"
      "length (?j ''capability_id'') \<le> 80" "length (?j ''sequence'') \<le> 50" "length (?j ''opcode'') \<le> 38" "length (?j ''resource'') \<le> 50"
      "length (?j ''parameters_sha256'') \<le> 104" "length (?j ''issued_monotonic_ns'') \<le> 116" "length (?j ''expires_monotonic_ns'') \<le> 122"
      "length (?j ''payload'') \<le> 44" "length (?j ''hmac_sha256'') \<le> 68"
    using l [of "''format''"] l [of "''authority_id''"] l [of "''service_epoch''"] l [of "''capability_id''"] l [of "''sequence''"]
      l [of "''opcode''"] l [of "''resource''"] l [of "''parameters_sha256''"] l [of "''issued_monotonic_ns''"]
      l [of "''expires_monotonic_ns''"] l [of "''payload''"] l [of "''hmac_sha256''"] by simp_all
  have "length (json_text True flt (json_sorted ?v)) \<le> 8000"
    using strs keys ints unfolding length_json_sorted
    by (simp add: wrapper_items_def payload_value_def)
  with length_utf8_le [of "json_text True flt (json_sorted ?v)"] show ?thesis
    by (simp add: canonical_def wrapper_items_def del: json_text.simps json_sorted.simps)
qed

text \<open>Issuing succeeds in a ready authority of consistent counters, whatever the target state of the disk.\<close>

lemma issue_succeeds:
  assumes "fst (cap_health (cap s)) = ''ready''" "check_opcode opcode = Inr operation" "check_resource resource = Inr target"
    and "canonicalize_parameters flt parameters = Inr (parameters, encoded)" "1 \<le> ttl" "ttl \<le> max_ttl_ns"
    and "0 \<le> now" "now + ttl \<le> max_sequence" "lower_hex 32 identity" "lower_hex 32 (service_epoch (cap s))" "auth_key (cap s) = Some k"
    and "0 \<le> issued_sequence (cap s)" "issued_sequence (cap s) < max_sequence" "last_clock (cap s) = None"
    and "durable_path (cap s) \<longrightarrow> lease_held (cap s)"
  obtains s' where "issue flt opcode resource parameters ttl identity (PInt now) WriteOk s
    = (s', Inr (wrapper_items flt k (minted (cap s) operation target encoded ttl identity now)))"
proof -
  let ?p = "minted (cap s) operation target encoded ttl identity now"
  define s1 where "s1 = s\<lparr>cap := (cap s)\<lparr>last_clock := Some now\<rparr>\<rparr>"
  define s2 where "s2 = s1\<lparr>cap := (cap s1)\<lparr>issued_sequence := issued_sequence (cap s1) + 1\<rparr>\<rparr>"
  have "payload_ok ?p"
    by (rule minted_ok [OF assms(2,3,5,6,7,8,9,10,11,12,13)])
  then obtain bs where bs: "canonical True flt (PDict (wrapper_items flt k ?p)) = Some bs" "length bs \<le> max_capability_bytes"
    using wrapper_fits by blast
  have p: "\<lparr>p_authority_id = cap_authority_id (cap s2), p_service_epoch = service_epoch (cap s2), p_capability_id = identity,
      p_sequence = issued_sequence (cap s2), p_opcode = operation, p_resource = target,
      p_parameters_sha256 = hex_text (sha256 encoded), p_issued = now, p_expires = now + ttl\<rparr> = ?p"
    by (simp add: minted_def s2_def s1_def cap_authority_id_def)
  have k: "cap_key (cap s2) = k"
    using assms(11) by (simp add: s2_def s1_def cap_key_def)
  have "snd (save_state flt WriteOk s2) = Inr ()"
    using assms(15) by (simp add: save_state_def Let_def s2_def s1_def)
  then obtain s' where "save_state flt WriteOk s2 = (s', Inr ())"
    by (metis prod.collapse)
  then have "mint flt operation target encoded ttl identity now WriteOk s1 = (s', Inr (wrapper_items flt k ?p))"
    using bs assms(13) p k unfolding mint_def Let_def s2_def [symmetric] cap_system.simps
    by (simp add: s1_def s2_def [unfolded s1_def] op_then_def)
  moreover have "observe_clock (PInt now) s = (s1, Inr now)"
    using assms(7,14) by (simp add: observe_clock_def s1_def)
  ultimately have "issue flt opcode resource parameters ttl identity (PInt now) WriteOk s = (s', Inr (wrapper_items flt k ?p))"
    unfolding issue_def using assms(1-6) by (simp add: op_then_def require_ready_def lift_check_def)
  then show ?thesis by (rule that)
qed

section \<open>A first run\<close>

definition demo_cap_key :: bytes where "demo_cap_key = replicate 32 7"
definition demo_epoch :: string where "demo_epoch = replicate 32 CHR ''a''"
definition empty_disk :: cap_disk where
  "empty_disk = \<lparr>state_file = Absent, anchor_file = Absent, lease_taken = False\<rparr>"
definition demo_authority :: authority where
  "demo_authority = (new_authority (Some demo_cap_key) True False demo_epoch)\<lparr>lease_held := True\<rparr>"
definition demo_disk :: cap_disk where
  "demo_disk = \<lparr>state_file = Document (state_document fraction_text demo_authority),
     anchor_file = Document (anchor_document fraction_text demo_cap_key), lease_taken = True\<rparr>"
definition demo_parameters :: pyval where "demo_parameters = PDict [(''level'', PInt 1)]"

lemma demo_open:
  "open_authority fraction_text (Some demo_cap_key) True False demo_epoch WriteOk WriteOk empty_disk = (demo_disk, Inr demo_authority)"
  by (simp add: open_authority_def demo_cap_key_def initialize_anchor_def empty_disk_def load_state_def Let_def
      new_authority_def demo_authority_def save_state_def demo_disk_def)

lemma demo_facts:
  "cap_health demo_authority = (''ready'', ''durable-epoch-bound-authority-ready'')"
  "auth_key demo_authority = Some demo_cap_key" "service_epoch demo_authority = demo_epoch"
  "issued_sequence demo_authority = 0" "consumed_sequence demo_authority = 0" "last_clock demo_authority = None"
  "lease_held demo_authority" "durable_path demo_authority" "lower_hex 32 demo_epoch"
  by (simp_all add: demo_authority_def new_authority_def cap_health_def demo_epoch_def lower_hex_def code_in_def list_all_iff)

lemma demo_checks:
  "check_opcode (PStr ''network.isolate'') = Inr ''network.isolate''"
  "check_resource (PStr ''host-1'') = Inr ''host-1''"
  "\<exists>bs. canonicalize_parameters fraction_text demo_parameters = Inr (demo_parameters, bs)"
proof -
  show "check_opcode (PStr ''network.isolate'') = Inr ''network.isolate''"
    by (simp add: check_opcode_def privileged_opcodes_def)
  show "check_resource (PStr ''host-1'') = Inr ''host-1''"
    by code_simp
  have "parameter_key ''level''"
    by code_simp
  then have ok: "value_count demo_parameters \<le> 128 \<and> depth_within demo_parameters 6 \<and> leaves_ok demo_parameters"
    by (simp add: demo_parameters_def)
  have "length (json_text True fraction_text demo_parameters) \<le> 100"
    using length_json_string_le [of True "''level''"] length_show_int [of 1 1] by (simp add: demo_parameters_def)
  then have "length (utf8 (json_text True fraction_text (json_sorted demo_parameters))) \<le> 8192"
    using length_utf8_le [of "json_text True fraction_text (json_sorted demo_parameters)"]
    by (simp add: length_json_sorted)
  then show "\<exists>bs. canonicalize_parameters fraction_text demo_parameters = Inr (demo_parameters, bs)"
    unfolding canonicalize_cases using ok by (auto simp: canonical_def demo_parameters_def)
qed

lemma demo_issue:
  obtains s1 wrapper where "issue fraction_text (PStr ''network.isolate'') (PStr ''host-1'') demo_parameters 1000 demo_epoch (PInt 5) WriteOk
    \<lparr>cap = demo_authority, disk = demo_disk\<rparr> = (s1, Inr wrapper)"
proof -
  let ?s = "\<lparr>cap = demo_authority, disk = demo_disk\<rparr>"
  obtain bs where "canonicalize_parameters fraction_text demo_parameters = Inr (demo_parameters, bs)"
    using demo_checks(3) by blast
  then show ?thesis
    using issue_succeeds [of ?s "PStr ''network.isolate''" "''network.isolate''" "PStr ''host-1''" "''host-1''" fraction_text demo_parameters bs
        1000 5 demo_epoch demo_cap_key] demo_facts demo_checks(1,2) that by (simp, blast)
qed

lemma demo_redeem:
  obtains s1 s2 wrapper p where
    "issue fraction_text (PStr ''network.isolate'') (PStr ''host-1'') demo_parameters 1000 demo_epoch (PInt 5) WriteOk
      \<lparr>cap = demo_authority, disk = demo_disk\<rparr> = (s1, Inr wrapper)"
    "consume fraction_text (CapMapping wrapper) (PStr ''network.isolate'') (PStr ''host-1'') demo_parameters (PInt 7) WriteOk s1 = (s2, Inr p)"
    "p_sequence p = 1"
proof -
  obtain s1 wrapper where i: "issue fraction_text (PStr ''network.isolate'') (PStr ''host-1'') demo_parameters 1000 demo_epoch (PInt 5) WriteOk
      \<lparr>cap = demo_authority, disk = demo_disk\<rparr> = (s1, Inr wrapper)"
    by (rule demo_issue)
  show ?thesis
    by (rule redeem [OF i, of demo_cap_key 7]) (use demo_facts that i in \<open>auto\<close>)
qed

theorem capabilities_single_use_witness:
  "\<exists>w. run (cap_step fraction_text demo_cap_key) \<lparr>sys = \<lparr>cap = demo_authority, disk = demo_disk\<rparr>, burned = []\<rparr>
      [Issuing, Granting 1, Closing] w \<and> sorted_wrt (<) (granted [Issuing, Granting 1, Closing])"
proof -
  obtain s1 s2 wrapper p where
    i: "issue fraction_text (PStr ''network.isolate'') (PStr ''host-1'') demo_parameters 1000 demo_epoch (PInt 5) WriteOk
      \<lparr>cap = demo_authority, disk = demo_disk\<rparr> = (s1, Inr wrapper)" and
    c: "consume fraction_text (CapMapping wrapper) (PStr ''network.isolate'') (PStr ''host-1'') demo_parameters (PInt 7) WriteOk s1 = (s2, Inr p)"
    and p: "p_sequence p = 1"
    by (rule demo_redeem)
  let ?w = "\<lparr>sys = \<lparr>cap = demo_authority, disk = demo_disk\<rparr>, burned = []\<rparr>"
  have 1: "cap_step fraction_text demo_cap_key ?w Issuing (?w\<lparr>sys := s1\<rparr>)"
    using i by (intro cap_issue) simp
  have 2: "cap_step fraction_text demo_cap_key (?w\<lparr>sys := s1\<rparr>) (Granting 1) (?w\<lparr>sys := s2, burned := [1]\<rparr>)"
    using cap_grant [of fraction_text _ _ _ _ _ _ "?w\<lparr>sys := s1\<rparr>" s2 p demo_cap_key] c p by simp
  have 3: "cap_step fraction_text demo_cap_key (?w\<lparr>sys := s2, burned := [1]\<rparr>) Closing (?w\<lparr>sys := close_authority s2, burned := [1]\<rparr>)"
    using cap_close [of fraction_text demo_cap_key "?w\<lparr>sys := s2, burned := [1]\<rparr>"] by simp
  from 1 2 3 have r: "run (cap_step fraction_text demo_cap_key) ?w [Issuing, Granting 1, Closing] (?w\<lparr>sys := close_authority s2, burned := [1]\<rparr>)"
    unfolding run_Cons_iff run_Nil_iff by blast
  with capabilities_single_use [OF demo_open [unfolded empty_disk_def] r] show ?thesis
    by blast
qed

theorem consume_grants_only_witness:
  "\<exists>p::cap_payload. p_opcode p = ''network.isolate'' \<and> p_service_epoch p = demo_epoch \<and> p_expires p \<le> p_issued p + max_ttl_ns"
proof -
  obtain s1 s2 wrapper p where
    i: "issue fraction_text (PStr ''network.isolate'') (PStr ''host-1'') demo_parameters 1000 demo_epoch (PInt 5) WriteOk
      \<lparr>cap = demo_authority, disk = demo_disk\<rparr> = (s1, Inr wrapper)" and
    c: "consume fraction_text (CapMapping wrapper) (PStr ''network.isolate'') (PStr ''host-1'') demo_parameters (PInt 7) WriteOk s1 = (s2, Inr p)"
    by (rule demo_redeem)
  have "service_epoch (cap s1) = demo_epoch"
    using issue_keeps [OF i] demo_facts by (simp add: keeps_consumed_def same_authority_def)
  with consume_grants_only [OF c] show ?thesis
    by auto
qed

theorem issued_token_granted_once_witness:
  "\<exists>s1 wrapper s2 p. issue fraction_text (PStr ''network.isolate'') (PStr ''host-1'') demo_parameters 1000 demo_epoch (PInt 5) WriteOk
      \<lparr>cap = demo_authority, disk = demo_disk\<rparr> = (s1, Inr wrapper)
    \<and> consume fraction_text (CapMapping wrapper) (PStr ''network.isolate'') (PStr ''host-1'') demo_parameters (PInt 7) WriteOk s1 = (s2, Inr p)
    \<and> snd (consume fraction_text (CapMapping wrapper) (PStr ''network.isolate'') (PStr ''host-1'') demo_parameters (PInt 8) WriteOk s2)
        = Inl (CapError ''replay'')"
proof -
  obtain s1 wrapper where i: "issue fraction_text (PStr ''network.isolate'') (PStr ''host-1'') demo_parameters 1000 demo_epoch (PInt 5) WriteOk
      \<lparr>cap = demo_authority, disk = demo_disk\<rparr> = (s1, Inr wrapper)"
    by (rule demo_issue)
  have "\<exists>s2 p. consume fraction_text (CapMapping wrapper) (PStr ''network.isolate'') (PStr ''host-1'') demo_parameters (PInt 7) WriteOk s1 = (s2, Inr p)
    \<and> PStr ''network.isolate'' = PStr (p_opcode p) \<and> PStr ''host-1'' = PStr (p_resource p)
    \<and> (\<forall>t'. 7 \<le> t' \<and> t' < 5 + 1000 \<longrightarrow>
         snd (consume fraction_text (CapMapping wrapper) (PStr ''network.isolate'') (PStr ''host-1'') demo_parameters (PInt t') WriteOk s2) = Inl (CapError ''replay''))"
    by (rule issued_token_granted_once [OF i, of demo_cap_key]) (use demo_facts in simp_all)
  then obtain s2 p where c: "consume fraction_text (CapMapping wrapper) (PStr ''network.isolate'') (PStr ''host-1'') demo_parameters (PInt 7) WriteOk s1 = (s2, Inr p)"
    and r: "\<forall>t'. 7 \<le> t' \<and> t' < 5 + 1000 \<longrightarrow>
         snd (consume fraction_text (CapMapping wrapper) (PStr ''network.isolate'') (PStr ''host-1'') demo_parameters (PInt t') WriteOk s2) = Inl (CapError ''replay'')"
    by blast
  have "snd (consume fraction_text (CapMapping wrapper) (PStr ''network.isolate'') (PStr ''host-1'') demo_parameters (PInt 8) WriteOk s2)
        = Inl (CapError ''replay'')"
    using r by simp
  with i c show ?thesis
    by blast
qed

theorem durable_state_roundtrip_witness:
  "load_state fraction_text demo_cap_key (state_file demo_disk) = Inr (0, 0)"
proof -
  have "load_state fraction_text demo_cap_key (Document (state_document fraction_text demo_authority))
      = Inr (issued_sequence demo_authority, consumed_sequence demo_authority)"
    using durable_state_roundtrip [of demo_cap_key fraction_text] demo_facts by simp
  then show ?thesis
    using demo_facts by (simp add: demo_disk_def)
qed

end
