(* ===== verification/Approval_Identity.thy ===== *)
theory Approval_Identity
  imports Canonical_Json Sha256
begin

text \<open>
  Operator identity for approvals, \<^verbatim>\<open>src/angerona/core/approval_identity.py\<close>: credential bindings,
  signed proofs, their verification, and the matching of verified subjects to keys that decides
  how many independent approvals a set of proofs is worth.

  Outside the sources: \<open>ed25519\<close>, the signature check of the cryptography package (public key, body,
  signature), and \<open>flt\<close>, which prints floats.  Times are Python numbers, as they are part of what is
  signed; \<open>num_of\<close> is their value.
\<close>

section \<open>Identifiers and numbers\<close>

datatype identity_error = IdPermissionError | IdValueError | IdOverflowError

definition id_char :: "char \<Rightarrow> bool" where
  "id_char c \<longleftrightarrow> (let n = (of_char c :: nat) in
     48 \<le> n \<and> n \<le> 57 \<or> 65 \<le> n \<and> n \<le> 90 \<or> 97 \<le> n \<and> n \<le> 122)"

definition id_text :: "string \<Rightarrow> bool" where
  "id_text s \<longleftrightarrow> (case s of [] \<Rightarrow> False
     | c # r \<Rightarrow> id_char c \<and> length r \<le> 159 \<and> list_all (\<lambda>d. id_char d \<or> d \<in> set ''_.:@/-'') r)"

definition hex_of_length :: "nat \<Rightarrow> string \<Rightarrow> bool" where
  "hex_of_length n s \<longleftrightarrow> length s = n \<and> list_all (\<lambda>c. let m = (of_char c :: nat) in 48 \<le> m \<and> m \<le> 57 \<or> 97 \<le> m \<and> m \<le> 102) s"

text \<open>The value of an \<open>int\<close> or \<open>float\<close> that \<open>math.isfinite\<close> accepts.\<close>

definition num_of :: "pyval \<Rightarrow> rat option" where
  "num_of v = (case v of
     PInt i \<Rightarrow> if float_overflow i then None else Some (of_int i)
   | PFloat (Fin r) \<Rightarrow> Some r
   | _ \<Rightarrow> None)"

definition canonical_id :: "(rat \<Rightarrow> string) \<Rightarrow> pyval \<Rightarrow> bytes" where
  "canonical_id flt v = (case canonical True flt v of None \<Rightarrow> [] | Some bs \<Rightarrow> bs)"

definition make_principal_id :: "(rat \<Rightarrow> string) \<Rightarrow> string \<Rightarrow> string \<Rightarrow> string" where
  "make_principal_id flt iss subj = ''principal:'' @ hex_text (sha256 (canonical_id flt (PList [PStr iss, PStr subj])))"

section \<open>Credentials\<close>

record credential =
  cr_id :: string
  cr_issuer :: string
  cr_subject :: string
  cr_public_key :: bytes
  cr_enabled :: bool
  cr_expires :: rat \<comment> \<open>0 for never\<close>

fun split_minus :: "string \<Rightarrow> string list" where
  "split_minus [] = [[]]"
| "split_minus (c # s) = (if c = CHR ''-'' then [] # split_minus s
     else (c # hd (split_minus s)) # tl (split_minus s))"

definition decimal_part :: "string \<Rightarrow> bool" where
  "decimal_part s \<longleftrightarrow> s \<noteq> [] \<and> list_all (\<lambda>c. let m = (of_char c :: nat) in 48 \<le> m \<and> m \<le> 57) s
     \<and> (length s = 1 \<or> s ! 0 \<noteq> CHR ''0'')"

definition canonical_sid :: "string \<Rightarrow> bool" where
  "canonical_sid s \<longleftrightarrow> (let parts = split_minus s in
     4 \<le> length parts \<and> take 2 parts = [''S'', ''1''] \<and> list_all decimal_part (drop 2 parts))"

definition credential_ok :: "credential \<Rightarrow> bool" where
  "credential_ok c \<longleftrightarrow> id_text (cr_id c) \<and> id_text (cr_issuer c) \<and> id_text (cr_subject c)
     \<and> length (cr_public_key c) = 32 \<and> 0 \<le> cr_expires c
     \<and> (cr_issuer c = ''windows-token'' \<longrightarrow> canonical_sid (cr_subject c))"

definition cr_principal :: "(rat \<Rightarrow> string) \<Rightarrow> credential \<Rightarrow> string" where
  "cr_principal flt c = make_principal_id flt (cr_issuer c) (cr_subject c)"

definition cr_fingerprint :: "credential \<Rightarrow> string" where
  "cr_fingerprint c = hex_text (sha256 (cr_public_key c))"

record verifier =
  vf_credentials :: "(string, credential) dict"
  vf_revoked :: "string set"

definition new_verifier :: "credential list \<Rightarrow> verifier option" where
  "new_verifier cs = (if 5000 < length cs \<or> \<not> list_all credential_ok cs \<or> \<not> distinct (map cr_id cs) then None
     else Some \<lparr>vf_credentials = map (\<lambda>c. (cr_id c, c)) cs, vf_revoked = {}\<rparr>)"

definition vf_revoke :: "string \<Rightarrow> verifier \<Rightarrow> verifier \<times> (identity_error + unit)" where
  "vf_revoke cid v = (case dict_get (vf_credentials v) cid of
     None \<Rightarrow> (v, Inl IdValueError)
   | Some c \<Rightarrow> (v\<lparr>vf_revoked := insert (cr_fingerprint c) (vf_revoked v)\<rparr>, Inr ()))"

definition vf_active :: "rat \<Rightarrow> verifier \<Rightarrow> credential list" where
  "vf_active now v = filter (\<lambda>c. cr_enabled c \<and> cr_fingerprint c \<notin> vf_revoked v
     \<and> (cr_expires c = 0 \<or> now < cr_expires c)) (map snd (vf_credentials v))"

text \<open>The state \<open>status\<close> reports; an unusable clock reading counts no credential as active.\<close>

definition vf_configured :: "rat option \<Rightarrow> verifier \<Rightarrow> bool" where
  "vf_configured clock v = (case clock of None \<Rightarrow> False | Some now \<Rightarrow> 0 \<le> now \<and> vf_active now v \<noteq> [])"

definition resolve_principal :: "(rat \<Rightarrow> string) \<Rightarrow> verifier \<Rightarrow> string \<Rightarrow> identity_error + string" where
  "resolve_principal flt v who = (case dict_get (vf_credentials v) who of
     Some c \<Rightarrow> Inr (cr_principal flt c)
   | None \<Rightarrow> if list_ex (\<lambda>c. cr_principal flt c = who) (map snd (vf_credentials v)) then Inr who
       else Inl IdPermissionError)"

section \<open>Proofs\<close>

record signed_proof =
  sp_credential :: string
  sp_issuer :: string
  sp_subject :: string
  sp_fingerprint :: string
  sp_purpose :: string
  sp_issued :: pyval
  sp_expires :: pyval
  sp_nonce :: string
  sp_signature :: string

definition proof_domain :: bytes where
  "proof_domain = utf8 (''Angerona-Authenticated-Operator-Approval-v1'' @ [CHR 0x00])"

definition proof_document :: "signed_proof \<Rightarrow> pyval" where
  "proof_document p = PDict [(''credential_id'', PStr (sp_credential p)), (''issuer'', PStr (sp_issuer p)),
     (''subject'', PStr (sp_subject p)), (''key_fingerprint'', PStr (sp_fingerprint p)),
     (''purpose_digest'', PStr (sp_purpose p)), (''issued_at'', sp_issued p), (''expires_at'', sp_expires p),
     (''nonce'', PStr (sp_nonce p))]"

definition signing_bytes :: "(rat \<Rightarrow> string) \<Rightarrow> signed_proof \<Rightarrow> bytes option" where
  "signing_bytes flt p =
     (if \<not> (id_text (sp_credential p) \<and> id_text (sp_issuer p) \<and> id_text (sp_subject p)
          \<and> hex_of_length 64 (sp_fingerprint p) \<and> hex_of_length 64 (sp_purpose p) \<and> hex_of_length 32 (sp_nonce p)) then None
      else case (num_of (sp_issued p), num_of (sp_expires p)) of
        (Some i, Some e) \<Rightarrow> if 0 \<le> i \<and> i < e \<and> e \<le> i + 1800 then Some (proof_domain @ canonical_id flt (proof_document p)) else None
      | _ \<Rightarrow> None)"

text \<open>\<open>urlsafe_b64encode\<close> without padding, and the inverse on its range.\<close>

definition b64_char :: "nat \<Rightarrow> char" where
  "b64_char n = (if n < 26 then char_of (65 + n) else if n < 52 then char_of (71 + n)
     else if n < 62 then char_of (n - 4) else if n = 62 then CHR ''-'' else CHR ''_'')"

fun b64_encode :: "nat list \<Rightarrow> string" where
  "b64_encode (a # b # c # r) = b64_char (a div 4) # b64_char (16 * (a mod 4) + b div 16)
     # b64_char (4 * (b mod 16) + c div 64) # b64_char (c mod 64) # b64_encode r"
| "b64_encode [a, b] = [b64_char (a div 4), b64_char (16 * (a mod 4) + b div 16), b64_char (4 * (b mod 16))]"
| "b64_encode [a] = [b64_char (a div 4), b64_char (16 * (a mod 4))]"
| "b64_encode [] = []"

definition b64_value :: "char \<Rightarrow> nat option" where
  "b64_value c = (let n = (of_char c :: nat) in
     if 65 \<le> n \<and> n \<le> 90 then Some (n - 65) else if 97 \<le> n \<and> n \<le> 122 then Some (n - 71)
     else if 48 \<le> n \<and> n \<le> 57 then Some (n + 4) else if n = 45 then Some 62 else if n = 95 then Some 63 else None)"

fun b64_groups :: "nat list \<Rightarrow> nat list" where
  "b64_groups (p # q # r # s # t) = (4 * p + q div 16) # (16 * (q mod 16) + r div 4) # (64 * (r mod 4) + s) # b64_groups t"
| "b64_groups [p, q, r] = [4 * p + q div 16, 16 * (q mod 16) + r div 4]"
| "b64_groups [p, q] = [4 * p + q div 16]"
| "b64_groups _ = []"

definition signature_bytes :: "string \<Rightarrow> bytes option" where
  "signature_bytes s =
     (if length s \<noteq> 86 \<or> list_ex (\<lambda>c. b64_value c = None) s then None
      else let raw = b64_groups (map (\<lambda>c. the (b64_value c)) s) in
        if length raw \<noteq> 64 \<or> b64_encode raw \<noteq> s then None else Some (map of_nat raw))"

record principal =
  pr_id :: string
  pr_issuer :: string
  pr_subject :: string
  pr_credential :: string
  pr_key :: string
  pr_expires :: rat

definition verify_proof :: "(rat \<Rightarrow> string) \<Rightarrow> (bytes \<Rightarrow> bytes \<Rightarrow> bytes \<Rightarrow> bool) \<Rightarrow> verifier \<Rightarrow> signed_proof \<Rightarrow> string \<Rightarrow> pyval
    \<Rightarrow> identity_error + principal" where
  "verify_proof flt ed25519 v p purpose now =
     (case num_of now of None \<Rightarrow> Inl (case now of PInt _ \<Rightarrow> IdOverflowError | _ \<Rightarrow> IdValueError)
      | Some stamp \<Rightarrow>
        case dict_get (vf_credentials v) (sp_credential p) of None \<Rightarrow> Inl IdPermissionError
        | Some c \<Rightarrow>
          if \<not> cr_enabled c \<or> cr_fingerprint c \<in> vf_revoked v \<or> (cr_expires c \<noteq> 0 \<and> cr_expires c \<le> stamp)
          then Inl IdPermissionError
          else case (signing_bytes flt p, num_of (sp_issued p), num_of (sp_expires p), signature_bytes (sp_signature p)) of
            (Some body, Some issued, Some expires, Some raw) \<Rightarrow>
              if sp_purpose p \<noteq> purpose \<or> \<not> (issued \<le> stamp \<and> stamp < expires)
                \<or> sp_issuer p \<noteq> cr_issuer c \<or> sp_subject p \<noteq> cr_subject c \<or> sp_fingerprint p \<noteq> cr_fingerprint c
                \<or> \<not> ed25519 (cr_public_key c) body raw
              then Inl IdPermissionError
              else Inr \<lparr>pr_id = cr_principal flt c, pr_issuer = cr_issuer c, pr_subject = cr_subject c,
                  pr_credential = cr_id c, pr_key = cr_fingerprint c,
                  pr_expires = (if cr_expires c = 0 then expires else min expires (cr_expires c))\<rparr>
          | _ \<Rightarrow> Inl IdPermissionError)"

section \<open>Independent principals\<close>

text \<open>
  The subjects with the keys each holds, and the augmenting search \<open>assign\<close>: \<open>seen\<close> are the keys
  visited in this search, \<open>asg\<close> the principal assigned to each key.  Every recursive call has
  visited one more key, so fuel beyond the number of keys is never used up.
\<close>

type_synonym key_map = "(string, principal) dict"

definition group_subjects :: "principal list \<Rightarrow> (string, key_map) dict" where
  "group_subjects ps = foldl (\<lambda>d p. dict_set (pr_id p) (dict_set (pr_key p) p (dict_get_or d (pr_id p) [])) d) [] ps"

definition subject_keys :: "(string, key_map) dict \<Rightarrow> string \<Rightarrow> key_map" where
  "subject_keys d s = sort_key fst (dict_get_or d s [])"

fun assign :: "(string \<Rightarrow> key_map) \<Rightarrow> nat \<Rightarrow> string \<Rightarrow> string list \<Rightarrow> key_map \<Rightarrow> bool \<times> string list \<times> key_map"
  and try_keys :: "(string \<Rightarrow> key_map) \<Rightarrow> nat \<Rightarrow> key_map \<Rightarrow> string list \<Rightarrow> key_map \<Rightarrow> bool \<times> string list \<times> key_map" where
  "assign edges 0 s seen asg = (False, seen, asg)"
| "assign edges (Suc n) s seen asg = try_keys edges n (edges s) seen asg"
| "try_keys edges n [] seen asg = (False, seen, asg)"
| "try_keys edges n ((k, p) # kps) seen asg =
     (if k \<in> set seen then try_keys edges n kps seen asg
      else case dict_get asg k of
        None \<Rightarrow> (True, k # seen, dict_set k p asg)
      | Some holder \<Rightarrow>
          (case assign edges n (pr_id holder) (k # seen) asg of
             (True, seen', asg') \<Rightarrow> (True, seen', dict_set k p asg')
           | (False, seen', asg') \<Rightarrow> try_keys edges n kps seen' asg'))"

definition assign_all :: "(string \<Rightarrow> key_map) \<Rightarrow> nat \<Rightarrow> string list \<Rightarrow> key_map" where
  "assign_all edges fuel ss = foldl (\<lambda>asg s. snd (snd (assign edges fuel s [] asg))) [] ss"

definition independent_principals :: "principal list \<Rightarrow> principal list option" where
  "independent_principals ps =
     (if 128 < length ps then None
      else let d = group_subjects ps;
               asg = assign_all (subject_keys d) (Suc (Suc (length ps))) (sort (dict_keys d))
           in Some (sort_key pr_id (map snd asg)))"

section \<open>The search\<close>

definition legit :: "(string \<Rightarrow> key_map) \<Rightarrow> key_map \<Rightarrow> bool" where
  "legit edges asg \<longleftrightarrow> (\<forall>k p. dict_get asg k = Some p \<longrightarrow> (k, p) \<in> set (edges (pr_id p)))"

definition held :: "key_map \<Rightarrow> string \<Rightarrow> string set" where
  "held asg t = {k. \<exists>p. dict_get asg k = Some p \<and> pr_id p = t}"

definition one_each :: "key_map \<Rightarrow> bool" where
  "one_each asg \<longleftrightarrow> (\<forall>t. \<forall>x \<in> held asg t. \<forall>y \<in> held asg t. x = y)"

definition edges_ok :: "(string \<Rightarrow> key_map) \<Rightarrow> bool" where
  "edges_ok edges \<longleftrightarrow> (\<forall>s. \<forall>(k, p) \<in> set (edges s). pr_id p = s \<and> pr_key p = k)"

text \<open>What a successful search for \<open>s\<close> changes.\<close>

definition augmented :: "string \<Rightarrow> string list \<Rightarrow> key_map \<Rightarrow> key_map \<Rightarrow> bool" where
  "augmented s seen asg asg' \<longleftrightarrow>
     (\<forall>x \<in> set seen. dict_get asg' x = dict_get asg x)
     \<and> (\<forall>t. t \<noteq> s \<longrightarrow> (held asg' t = {} \<longleftrightarrow> held asg t = {}) \<and> (\<forall>x \<in> held asg' t. \<forall>y \<in> held asg' t. x = y))
     \<and> (\<exists>k. k \<notin> set seen \<and> held asg' s = insert k (held asg s))"

lemma held_set: "held (dict_set k p asg) t = (if pr_id p = t then insert k (held asg t) else held asg t - {k})"
  by (auto simp: held_def dict_get_set)

lemma augmented_free:
  assumes "one_each asg" and "dict_get asg k = None" and "k \<notin> set seen" and "pr_id p = s"
  shows "augmented s seen asg (dict_set k p asg)"
proof -
  have "k \<notin> held asg t" for t
    using assms(2) by (simp add: held_def)
  with assms show ?thesis
    by (auto simp: augmented_def held_set dict_get_set one_each_def)
qed

lemma augmented_through:
  assumes one: "one_each asg" and k: "dict_get asg k = Some holder" "k \<notin> set seen" and s: "held asg s \<subseteq> set seen" "pr_id p = s"
    and a: "augmented (pr_id holder) (k # seen) asg asg1"
  shows "augmented s seen asg (dict_set k p asg1)"
proof -
  let ?h = "pr_id holder"
  have hk: "k \<in> held asg ?h"
    using k(1) by (simp add: held_def)
  with one have h: "held asg ?h = {k}"
    by (auto simp: one_each_def)
  from hk s(1) k(2) have hs: "?h \<noteq> s"
    by auto
  obtain k' where k': "k' \<noteq> k" "k' \<notin> set seen" "held asg1 ?h = {k', k}"
    using a h by (auto simp: augmented_def)
  have same: "dict_get asg1 x = dict_get asg x" if "x \<in> insert k (set seen)" for x
    using a that by (auto simp: augmented_def)
  have other: "(held asg1 t = {} \<longleftrightarrow> held asg t = {}) \<and> (\<forall>x \<in> held asg1 t. \<forall>y \<in> held asg1 t. x = y)" if "t \<noteq> ?h" for t
    using a that by (auto simp: augmented_def)
  have hold_same: "x \<in> held asg1 t \<longleftrightarrow> x \<in> held asg t" if "x \<in> insert k (set seen)" for x t
    using same [OF that] by (simp add: held_def)
  note os = other [OF hs [symmetric]]
  have "held asg s \<subseteq> held asg1 s"
    using s(1) hold_same by blast
  moreover have "y \<in> held asg s" if y: "y \<in> held asg1 s" for y
  proof -
    obtain x where x: "x \<in> held asg s"
      using os y by blast
    with s(1) hold_same have "x \<in> held asg1 s"
      by blast
    with os y have "y = x" by blast
    with x show ?thesis by simp
  qed
  ultimately have s1: "held asg1 s = held asg s"
    by blast
  have kt: "k \<notin> held asg1 t" if "t \<noteq> ?h" for t
    using hold_same [of k t] that k(1) by (auto simp: held_def)
  show ?thesis
    unfolding augmented_def
  proof (intro conjI ballI allI impI)
    fix x assume "x \<in> set seen"
    with same k(2) show "dict_get (dict_set k p asg1) x = dict_get asg x"
      by (auto simp: dict_get_set)
  next
    fix t assume t: "t \<noteq> s"
    show "held (dict_set k p asg1) t = {} \<longleftrightarrow> held asg t = {}"
      using t s(2) h k' other [of t] kt [of t] by (cases "t = ?h") (auto simp: held_set)
  next
    fix t x y
    assume t: "t \<noteq> s" and xy: "x \<in> held (dict_set k p asg1) t" "y \<in> held (dict_set k p asg1) t"
    show "x = y"
      using t s(2) k' other [of t] xy by (cases "t = ?h") (auto simp: held_set)
  next
    show "\<exists>j. j \<notin> set seen \<and> held (dict_set k p asg1) s = insert j (held asg s)"
      using k(2) s(2) s1 by (intro exI [of _ k]) (simp add: held_set)
  qed
qed

lemma edges_okD: "edges_ok edges \<Longrightarrow> (k, p) \<in> set (edges s) \<Longrightarrow> pr_id p = s \<and> pr_key p = k"
  by (fastforce simp: edges_ok_def)

lemma legit_set: "legit edges asg \<Longrightarrow> (k, p) \<in> set (edges (pr_id p)) \<Longrightarrow> legit edges (dict_set k p asg)"
  by (simp add: legit_def dict_get_set)

text \<open>One step of the loop over the keys, by cases.\<close>

lemma try_keys_cases:
  assumes "try_keys edges n ((k, p) # kps) seen asg = (r, seen', asg')"
  obtains "k \<in> set seen" "try_keys edges n kps seen asg = (r, seen', asg')"
  | "k \<notin> set seen" "dict_get asg k = None" "r" "seen' = k # seen" "asg' = dict_set k p asg"
  | holder asg1 where "k \<notin> set seen" "dict_get asg k = Some holder" "r"
      "assign edges n (pr_id holder) (k # seen) asg = (True, seen', asg1)" "asg' = dict_set k p asg1"
  | holder seen1 asg1 where "k \<notin> set seen" "dict_get asg k = Some holder"
      "assign edges n (pr_id holder) (k # seen) asg = (False, seen1, asg1)"
      "try_keys edges n kps seen1 asg1 = (r, seen', asg')"
proof (cases "k \<in> set seen")
  case True
  with assms that(1) show ?thesis by simp
next
  case new: False
  show ?thesis
  proof (cases "dict_get asg k")
    case None
    with assms new that(2) show ?thesis by simp
  next
    case (Some holder)
    obtain b seen1 asg1 where a: "assign edges n (pr_id holder) (k # seen) asg = (b, seen1, asg1)"
      by (metis prod_cases3)
    show ?thesis
    proof (cases b)
      case True
      with assms new Some a that(3) show ?thesis by simp
    next
      case False
      with assms new Some a that(4) show ?thesis by simp
    qed
  qed
qed

lemma search_grows:
  "assign edges n s seen asg = (r, seen', asg') \<Longrightarrow> set seen \<subseteq> set seen'"
  "try_keys edges n kps seen asg = (r, seen', asg') \<Longrightarrow> set seen \<subseteq> set seen'"
proof (induction edges n s seen asg and edges n kps seen asg arbitrary: r seen' asg' and r seen' asg' rule: assign_try_keys.induct)
  case (4 edges n k p kps seen asg)
  from "4.prems" show ?case
  proof (cases rule: try_keys_cases)
    case 1
    with "4.IH"(1) show ?thesis by blast
  next
    case (3 holder asg1)
    with "4.IH"(2) show ?thesis by fastforce
  next
    case (4 holder seen1 asg1)
    with "4.IH"(2) [OF 4(1,2,3)] "4.IH"(3) [OF 4(1,2) 4(3) [symmetric] refl refl 4(4)] show ?thesis by fastforce
  qed auto
qed auto

lemma search_failure:
  "assign edges n s seen asg = (False, seen', asg') \<Longrightarrow> asg' = asg"
  "try_keys edges n kps seen asg = (False, seen', asg') \<Longrightarrow> asg' = asg"
proof (induction edges n s seen asg and edges n kps seen asg arbitrary: seen' asg' and seen' asg' rule: assign_try_keys.induct)
  case (4 edges n k p kps seen asg)
  from "4.prems" show ?case
  proof (cases rule: try_keys_cases)
    case 1
    with "4.IH"(1) show ?thesis by blast
  next
    case (4 holder seen1 asg1)
    with "4.IH"(2) [OF 4(1,2,3)] "4.IH"(3) [OF 4(1,2) 4(3) [symmetric] refl refl 4(4)] show ?thesis by simp
  qed auto
qed auto

lemma search_success:
  "assign edges n s seen asg = (True, seen', asg') \<Longrightarrow> edges_ok edges \<Longrightarrow> one_each asg \<Longrightarrow> legit edges asg \<Longrightarrow> dict_wf asg \<Longrightarrow>
     held asg s \<subseteq> set seen \<Longrightarrow> augmented s seen asg asg' \<and> legit edges asg' \<and> dict_wf asg'"
  "try_keys edges n kps seen asg = (True, seen', asg') \<Longrightarrow> edges_ok edges \<Longrightarrow> set kps \<subseteq> set (edges s) \<Longrightarrow> one_each asg \<Longrightarrow>
     legit edges asg \<Longrightarrow> dict_wf asg \<Longrightarrow> held asg s \<subseteq> set seen \<Longrightarrow>
     augmented s seen asg asg' \<and> legit edges asg' \<and> dict_wf asg'"
proof (induction edges n s seen asg and edges n kps seen asg arbitrary: seen' asg' and s seen' asg' rule: assign_try_keys.induct)
  case (4 edges n k p kps seen asg)
  have p: "pr_id p = s" and kp: "(k, p) \<in> set (edges (pr_id p))"
    using "4.prems"(2,3) edges_okD [of edges k p s] by auto
  from "4.prems"(1) show ?case
  proof (cases rule: try_keys_cases)
    case 1
    show ?thesis
      using "4.prems"(3) by (intro "4.IH"(1) [OF 1(1,2) "4.prems"(2) _ "4.prems"(4-7)]) simp
  next
    case 2
    with "4.prems" p kp show ?thesis
      by (auto intro: augmented_free legit_set)
  next
    case (3 holder asg1)
    have "k \<in> held asg (pr_id holder)"
      using 3(2) by (simp add: held_def)
    with "4.prems"(4) have "held asg (pr_id holder) \<subseteq> set (k # seen)"
      by (auto simp: one_each_def)
    with "4.IH"(2) [OF 3(1,2,4) "4.prems"(2,4,5,6)]
    have "augmented (pr_id holder) (k # seen) asg asg1 \<and> legit edges asg1 \<and> dict_wf asg1" .
    then show ?thesis
      using augmented_through [OF "4.prems"(4) 3(2,1) "4.prems"(7) p] kp 3(5) by (auto intro: legit_set)
  next
    case (4 holder seen1 asg1)
    have same: "asg1 = asg"
      using search_failure(1) [OF 4(3)] .
    have g: "set seen \<subseteq> set seen1"
      using search_grows(1) [OF 4(3)] by auto
    have "augmented s seen1 asg asg' \<and> legit edges asg' \<and> dict_wf asg'"
      using "4.IH"(3) [OF 4(1,2) 4(3) [symmetric] refl refl 4(4)] "4.prems"(2-7) g same by auto
    with g show ?thesis
      by (auto simp: augmented_def)
  qed
qed auto

text \<open>
  A failed search with fuel left has explored everything reachable: all keys of the subject were
  visited, and every visited key is held by a principal all of whose keys were visited.
\<close>

definition explored :: "(string \<Rightarrow> key_map) \<Rightarrow> key_map \<Rightarrow> string set \<Rightarrow> string set \<Rightarrow> bool" where
  "explored edges asg A B \<longleftrightarrow> (\<forall>k \<in> B - A. \<exists>p. dict_get asg k = Some p \<and> fst ` set (edges (pr_id p)) \<subseteq> B)"

lemma explored_trans:
  assumes "explored edges asg (insert k A) B" and "fst ` set (edges (pr_id p)) \<subseteq> B" and "dict_get asg k = Some p"
    and "explored edges asg B C" and "B \<subseteq> C"
  shows "explored edges asg A C"
  unfolding explored_def
proof
  fix x
  assume x: "x \<in> C - A"
  show "\<exists>p. dict_get asg x = Some p \<and> fst ` set (edges (pr_id p)) \<subseteq> C"
  proof (cases "x \<in> B")
    case True
    with x assms(1-3) have "\<exists>p. dict_get asg x = Some p \<and> fst ` set (edges (pr_id p)) \<subseteq> B"
      by (cases "x = k") (auto simp: explored_def)
    with assms(5) show ?thesis by blast
  next
    case False
    with x assms(4) show ?thesis by (auto simp: explored_def)
  qed
qed

lemma search_closed:
  "assign edges n s seen asg = (False, seen', asg') \<Longrightarrow> finite K \<Longrightarrow> \<forall>t. fst ` set (edges t) \<subseteq> K \<Longrightarrow> card (K - set seen) < n \<Longrightarrow>
     fst ` set (edges s) \<subseteq> set seen' \<and> explored edges asg (set seen) (set seen')"
  "try_keys edges n kps seen asg = (False, seen', asg') \<Longrightarrow> finite K \<Longrightarrow> \<forall>t. fst ` set (edges t) \<subseteq> K \<Longrightarrow> card (K - set seen) \<le> n \<Longrightarrow>
     fst ` set kps \<subseteq> K \<Longrightarrow> fst ` set kps \<subseteq> set seen' \<and> explored edges asg (set seen) (set seen')"
proof (induction edges n s seen asg and edges n kps seen asg arbitrary: seen' asg' and seen' asg' rule: assign_try_keys.induct)
  case (4 edges n k p kps seen asg)
  from "4.prems"(1) show ?case
  proof (cases rule: try_keys_cases)
    case 1
    with "4.IH"(1) [OF 1(1,2)] "4.prems" search_grows(2) [OF 1(2)] show ?thesis by auto
  next
    case (4 holder seen1 asg1)
    have same: "asg1 = asg"
      using search_failure(1) [OF 4(3)] .
    have g: "insert k (set seen) \<subseteq> set seen1" "set seen1 \<subseteq> set seen'"
      using search_grows(1) [OF 4(3)] search_grows(2) [OF 4(4)] by auto
    have k: "k \<in> K - set seen"
      using "4.prems"(5) 4(1) by simp
    have "card (K - insert k (set seen)) < card (K - set seen)"
      using "4.prems"(2) k by (intro psubset_card_mono) auto
    then have c1: "card (K - set (k # seen)) < n"
      using "4.prems"(4) by simp
    have "card (K - set seen1) \<le> card (K - set seen)"
      using "4.prems"(2) g by (intro card_mono) auto
    then have c2: "card (K - set seen1) \<le> n"
      using "4.prems"(4) by simp
    from "4.IH"(2) [OF 4(1,2,3) "4.prems"(2,3) c1]
    have i1: "fst ` set (edges (pr_id holder)) \<subseteq> set seen1" "explored edges asg (insert k (set seen)) (set seen1)"
      by simp_all
    have "fst ` set kps \<subseteq> K"
      using "4.prems"(5) by simp
    from "4.IH"(3) [OF 4(1,2) 4(3) [symmetric] refl refl 4(4) "4.prems"(2,3) c2 this]
    have i2: "fst ` set kps \<subseteq> set seen'" "explored edges asg (set seen1) (set seen')"
      using same by simp_all
    with g explored_trans [OF i1(2,1) 4(2) i2(2) g(2)] show ?thesis by auto
  qed auto
qed (auto simp: explored_def)

text \<open>A set of keys that is closed under holders is never entered by a successful search.\<close>

definition closed_under :: "(string \<Rightarrow> key_map) \<Rightarrow> key_map \<Rightarrow> string set \<Rightarrow> bool" where
  "closed_under edges asg C \<longleftrightarrow> (\<forall>k \<in> C. \<exists>p. dict_get asg k = Some p \<and> fst ` set (edges (pr_id p)) \<subseteq> C)"

lemma search_avoids:
  "assign edges n s seen asg = (True, seen', asg') \<Longrightarrow> closed_under edges asg C \<Longrightarrow>
     (\<forall>k \<in> C. dict_get asg' k = dict_get asg k) \<and> \<not> fst ` set (edges s) \<subseteq> C"
  "try_keys edges n kps seen asg = (True, seen', asg') \<Longrightarrow> closed_under edges asg C \<Longrightarrow>
     (\<forall>k \<in> C. dict_get asg' k = dict_get asg k) \<and> \<not> fst ` set kps \<subseteq> C"
proof (induction edges n s seen asg and edges n kps seen asg arbitrary: seen' asg' and seen' asg' rule: assign_try_keys.induct)
  case (4 edges n k p kps seen asg)
  from "4.prems"(1) show ?case
  proof (cases rule: try_keys_cases)
    case 1
    with "4.IH"(1) [OF 1(1,2)] "4.prems"(2) show ?thesis by auto
  next
    case 2
    with "4.prems"(2) have "k \<notin> C"
      by (auto simp: closed_under_def)
    with 2 show ?thesis by (auto simp: dict_get_set)
  next
    case (3 holder asg1)
    note i = "4.IH"(2) [OF 3(1,2,4) "4.prems"(2)]
    with 3(2) "4.prems"(2) have "k \<notin> C"
      by (fastforce simp: closed_under_def)
    with i 3(5) show ?thesis by (auto simp: dict_get_set)
  next
    case (4 holder seen1 asg1)
    have "asg1 = asg"
      using search_failure(1) [OF 4(3)] .
    with "4.IH"(3) [OF 4(1,2) 4(3) [symmetric] refl refl 4(4)] "4.prems"(2) show ?thesis by auto
  qed
qed auto

section \<open>The whole assignment\<close>

text \<open>
  After the subjects \<open>done\<close>: a matching of theirs, and a closed set of keys that contains every
  key of a subject left without one.
\<close>

definition matching_inv :: "(string \<Rightarrow> key_map) \<Rightarrow> string set \<Rightarrow> key_map \<Rightarrow> bool" where
  "matching_inv edges done asg \<longleftrightarrow> one_each asg \<and> legit edges asg \<and> dict_wf asg
     \<and> (\<forall>t. held asg t \<noteq> {} \<longrightarrow> t \<in> done)
     \<and> (\<exists>C. closed_under edges asg C \<and> (\<forall>t \<in> done. held asg t \<noteq> {} \<or> fst ` set (edges t) \<subseteq> C))"

lemma closed_same:
  "closed_under edges asg C \<Longrightarrow> \<forall>k \<in> C. dict_get asg' k = dict_get asg k \<Longrightarrow> closed_under edges asg' C"
  by (simp add: closed_under_def)

lemma closed_explored:
  assumes "closed_under edges asg C" and "explored edges asg {} D"
  shows "closed_under edges asg (C \<union> D)"
  unfolding closed_under_def
proof
  fix k
  assume "k \<in> C \<union> D"
  then have "(\<exists>p. dict_get asg k = Some p \<and> fst ` set (edges (pr_id p)) \<subseteq> C)
      \<or> (\<exists>p. dict_get asg k = Some p \<and> fst ` set (edges (pr_id p)) \<subseteq> D)"
    using assms by (auto simp: closed_under_def explored_def)
  then show "\<exists>p. dict_get asg k = Some p \<and> fst ` set (edges (pr_id p)) \<subseteq> C \<union> D"
    by blast
qed

lemma assign_step:
  assumes inv: "matching_inv edges done asg" and ok: "edges_ok edges" and new: "s \<notin> done"
    and K: "finite K" "\<forall>t. fst ` set (edges t) \<subseteq> K" "card K < n"
  shows "matching_inv edges (insert s done) (snd (snd (assign edges n s [] asg)))"
proof -
  obtain r seen' asg' where a: "assign edges n s [] asg = (r, seen', asg')"
    by (metis prod_cases3)
  obtain C where C: "closed_under edges asg C" "\<forall>t \<in> done. held asg t \<noteq> {} \<or> fst ` set (edges t) \<subseteq> C"
    using inv by (auto simp: matching_inv_def)
  have m: "one_each asg" "legit edges asg" "dict_wf asg" and dn: "\<forall>t. held asg t \<noteq> {} \<longrightarrow> t \<in> done"
    using inv by (auto simp: matching_inv_def)
  have hs: "held asg s = {}"
    using dn new by blast
  show ?thesis
  proof (cases r)
    case True
    with a have a': "assign edges n s [] asg = (True, seen', asg')"
      by simp
    have s: "augmented s [] asg asg'" "legit edges asg'" "dict_wf asg'"
      using search_success(1) [OF a' ok m] hs by auto
    note av = search_avoids(1) [OF a' C(1)]
    have one: "one_each asg'"
      unfolding one_each_def
    proof (intro allI)
      fix t
      show "\<forall>x \<in> held asg' t. \<forall>y \<in> held asg' t. x = y"
        using s(1) hs by (cases "t = s") (auto simp: augmented_def)
    qed
    have h: "held asg' t \<noteq> {} \<longleftrightarrow> t = s \<or> held asg t \<noteq> {}" for t
      using s(1) by (cases "t = s") (auto simp: augmented_def)
    have "closed_under edges asg' C" "\<forall>t \<in> insert s done. held asg' t \<noteq> {} \<or> fst ` set (edges t) \<subseteq> C"
      using closed_same [OF C(1)] av C(2) h by auto
    then show ?thesis
      using a one s(2,3) h dn unfolding matching_inv_def by auto
  next
    case False
    with a have a': "assign edges n s [] asg = (False, seen', asg')"
      by simp
    have same: "asg' = asg"
      by (rule search_failure(1) [OF a'])
    have "fst ` set (edges s) \<subseteq> set seen'" "explored edges asg {} (set seen')"
      using search_closed(1) [OF a' K(1,2)] K(3) by auto
    then have "closed_under edges asg (C \<union> set seen')" "fst ` set (edges s) \<subseteq> C \<union> set seen'"
      using closed_explored [OF C(1)] by auto
    moreover from this C(2) have "\<forall>t \<in> insert s done. held asg t \<noteq> {} \<or> fst ` set (edges t) \<subseteq> C \<union> set seen'"
      by blast
    ultimately have "\<exists>C. closed_under edges asg C \<and> (\<forall>t \<in> insert s done. held asg t \<noteq> {} \<or> fst ` set (edges t) \<subseteq> C)"
      by (intro exI [of _ "C \<union> set seen'"] conjI)
    with m dn show ?thesis
      by (simp add: matching_inv_def a same)
  qed
qed

lemma assign_all_inv:
  assumes "edges_ok edges" and "finite K" "\<forall>t. fst ` set (edges t) \<subseteq> K" "card K < n" and "distinct ss"
  shows "matching_inv edges (set ss) (assign_all edges n ss)"
  using assms(5)
proof (induction ss rule: rev_induct)
  case Nil
  show ?case
    by (auto simp: assign_all_def matching_inv_def one_each_def legit_def held_def closed_under_def)
next
  case (snoc s ss)
  then have "matching_inv edges (set ss) (assign_all edges n ss)" "s \<notin> set ss"
    by auto
  from assign_step [OF this(1) assms(1) this(2) assms(2-4)] show ?case
    by (simp add: assign_all_def)
qed

text \<open>No choice of subjects with keys of their own is larger than the assignment.\<close>

lemma matching_maximum:
  assumes inv: "matching_inv edges done asg"
    and f: "inj_on f X" "X \<subseteq> done" "\<And>s. s \<in> X \<Longrightarrow> f s \<in> fst ` set (edges s)" and fin: "finite X"
  shows "card X \<le> length asg"
proof -
  obtain C where C: "closed_under edges asg C" "\<forall>t \<in> done. held asg t \<noteq> {} \<or> fst ` set (edges t) \<subseteq> C"
    using inv by (auto simp: matching_inv_def)
  define own where "own s = (SOME k. k \<in> held asg s)" for s
  define g where "g s = (if f s \<in> C then f s else own s)" for s
  have own: "own s \<in> held asg s \<and> own s \<notin> C" if "s \<in> X" "f s \<notin> C" for s
  proof -
    have "held asg s \<noteq> {}"
      using C(2) f(2,3) that by blast
    then have o: "own s \<in> held asg s"
      unfolding own_def by (rule some_in_eq [THEN iffD2])
    moreover have "own s \<notin> C"
    proof
      assume "own s \<in> C"
      with C(1) obtain p where "dict_get asg (own s) = Some p" "fst ` set (edges (pr_id p)) \<subseteq> C"
        by (auto simp: closed_under_def)
      with o have "fst ` set (edges s) \<subseteq> C"
        by (auto simp: held_def)
      with f(3) that show False by blast
    qed
    ultimately show ?thesis by blast
  qed
  have "inj_on g X"
  proof (rule inj_onI)
    fix s t
    assume st: "s \<in> X" "t \<in> X" "g s = g t"
    have mixed: False if "s \<in> X" "t \<in> X" "f s \<in> C" "f t \<notin> C" "g s = g t" for s t
      using own [OF that(2,4)] that(3-5) by (simp add: g_def)
    have "f s \<in> C \<longleftrightarrow> f t \<in> C"
      using mixed st mixed [OF st(2,1)] by metis
    then show "s = t"
    proof (cases "f s \<in> C")
      case True
      with \<open>f s \<in> C \<longleftrightarrow> f t \<in> C\<close> have "f t \<in> C" by blast
      with True st(3) have "f s = f t" by (simp add: g_def)
      with f(1) st show ?thesis by (simp add: inj_on_def)
    next
      case False
      with \<open>f s \<in> C \<longleftrightarrow> f t \<in> C\<close> have n: "f t \<notin> C" by blast
      with False have o: "own s = own t"
        using st(3) by (simp add: g_def)
      from own [OF st(1) False] own [OF st(2) n] show ?thesis
        unfolding o held_def by auto
    qed
  qed
  moreover have "g ` X \<subseteq> set (dict_keys asg)"
  proof
    fix k assume "k \<in> g ` X"
    then obtain s where s: "s \<in> X" "k = g s" by blast
    have "dict_get asg k \<noteq> None"
      using C(1) own [OF s(1)] s(2) by (cases "f s \<in> C") (auto simp: g_def closed_under_def held_def)
    then show "k \<in> set (dict_keys asg)"
      by (simp only: dict_get_keys)
  qed
  ultimately have "card X \<le> card (set (dict_keys asg))"
    by (metis card_image card_mono finite_set)
  also have "\<dots> \<le> length asg"
    by (metis card_length length_map)
  finally show ?thesis .
qed

section \<open>Grouping\<close>

lemma group_subjects_snoc:
  "group_subjects (ps @ [p]) = dict_set (pr_id p) (dict_set (pr_key p) p (dict_get_or (group_subjects ps) (pr_id p) [])) (group_subjects ps)"
  by (simp add: group_subjects_def)

lemma group_sound:
  "dict_wf (group_subjects ps) \<and> (\<forall>s. dict_wf (dict_get_or (group_subjects ps) s [])
     \<and> (\<forall>(k, p) \<in> set (dict_get_or (group_subjects ps) s []). p \<in> set ps \<and> pr_id p = s \<and> pr_key p = k))
   \<and> set (dict_keys (group_subjects ps)) = pr_id ` set ps
   \<and> (\<forall>p \<in> set ps. pr_key p \<in> fst ` set (dict_get_or (group_subjects ps) (pr_id p) []))"
proof (induction ps rule: rev_induct)
  case Nil
  show ?case by (simp add: group_subjects_def dict_get_or_def)
next
  case (snoc p ps)
  let ?d = "group_subjects ps"
  have get: "dict_get_or (group_subjects (ps @ [p])) s [] =
      (if s = pr_id p then dict_set (pr_key p) p (dict_get_or ?d (pr_id p) []) else dict_get_or ?d s [])" for s
    by (simp add: group_subjects_snoc dict_get_or_def dict_get_set)
  have sub: "x \<in> set (dict_set k v d) \<Longrightarrow> x = (k, v) \<or> x \<in> set d" for x k v and d :: key_map
    by (induction d) (auto split: if_splits)
  have keys: "fst ` set (dict_set k v d) = insert k (fst ` set d)" for k v and d :: key_map
    by (induction d) auto
  have keys': "fst ` set (dict_set k v d) = insert k (fst ` set d)" for k v and d :: "(string, key_map) dict"
    by (induction d) auto
  have 1: "dict_wf (group_subjects (ps @ [p]))"
    using snoc by (auto simp: group_subjects_snoc)
  have 2: "dict_wf (dict_get_or (group_subjects (ps @ [p])) s [])" for s
    using snoc unfolding get by auto
  have 3: "q \<in> set (ps @ [p]) \<and> pr_id q = s \<and> pr_key q = k"
    if "(k, q) \<in> set (dict_get_or (group_subjects (ps @ [p])) s [])" for k q s
    using that snoc unfolding get by (fastforce split: if_splits dest: sub)
  have 4: "set (dict_keys (group_subjects (ps @ [p]))) = pr_id ` set (ps @ [p])"
    using snoc by (simp add: group_subjects_snoc keys')
  have 5: "pr_key q \<in> fst ` set (dict_get_or (group_subjects (ps @ [p])) (pr_id q) [])" if "q \<in> set (ps @ [p])" for q
  proof (cases "pr_id q = pr_id p")
    case True
    have "q = p \<or> pr_key q \<in> fst ` set (dict_get_or ?d (pr_id p) [])"
      using that snoc True by (cases "q = p") (force simp flip: True)+
    with True show ?thesis
      by (auto simp: get keys)
  next
    case False
    with that have "q \<in> set ps" by auto
    with snoc have "pr_key q \<in> fst ` set (dict_get_or ?d (pr_id q) [])" by blast
    with False show ?thesis by (simp only: get if_False)
  qed
  from 1 2 3 4 5 show ?case by blast
qed

lemma subject_edge:
  assumes "(k, p) \<in> set (subject_keys (group_subjects ps) s)"
  shows "p \<in> set ps \<and> pr_id p = s \<and> pr_key p = k"
  using assms group_sound [of ps] unfolding subject_keys_def by (simp add: case_prod_beta) (metis fst_conv snd_conv)

lemma subject_edges_ok: "edges_ok (subject_keys (group_subjects ps))"
  using subject_edge by (fastforce simp: edges_ok_def)

lemma subject_edges_keys: "\<forall>t. fst ` set (subject_keys (group_subjects ps) t) \<subseteq> pr_key ` set ps"
  using subject_edge by fastforce

lemma subject_edges_complete:
  "p \<in> set ps \<Longrightarrow> pr_key p \<in> fst ` set (subject_keys (group_subjects ps) (pr_id p))"
  using group_sound [of ps] unfolding subject_keys_def by simp

text \<open>Every subject without a key has been refused by a search: the assignment is a maximum matching.\<close>

lemma matching_group:
  "matching_inv (subject_keys (group_subjects ps)) (pr_id ` set ps)
     (assign_all (subject_keys (group_subjects ps)) (Suc (Suc (length ps))) (sort (dict_keys (group_subjects ps))))"
proof -
  have "card (pr_key ` set ps) \<le> length ps"
    by (metis card_length length_map list.set_map)
  then have "card (pr_key ` set ps) < Suc (Suc (length ps))"
    by simp
  moreover have "distinct (sort (dict_keys (group_subjects ps)))" "set (sort (dict_keys (group_subjects ps))) = pr_id ` set ps"
    using group_sound [of ps] by (simp_all add: dict_wf_def)
  moreover have "finite (pr_key ` set ps)"
    by simp
  ultimately show ?thesis
    using assign_all_inv [OF subject_edges_ok _ subject_edges_keys, of ps "Suc (Suc (length ps))" "sort (dict_keys (group_subjects ps))"]
    by (simp only:)
qed

lemma assigned_distinct:
  assumes "one_each asg" and "dict_wf asg"
  shows "distinct (map pr_id (map snd asg))"
proof -
  have same: "x = y" if x: "x \<in> set asg" and y: "y \<in> set asg" and e: "pr_id (snd x) = pr_id (snd y)" for x y
  proof -
    have g: "dict_get asg (fst x) = Some (snd x)" "dict_get asg (fst y) = Some (snd y)"
      using dict_get_wf [OF assms(2)] x y by simp_all
    with e have "fst x \<in> held asg (pr_id (snd y))" "fst y \<in> held asg (pr_id (snd y))"
      by (simp_all add: held_def)
    with assms(1) have "fst x = fst y"
      by (simp add: one_each_def)
    with g show ?thesis
      by (simp add: prod_eq_iff)
  qed
  then have "inj_on (pr_id \<circ> snd) (set asg)"
    by (auto simp: inj_on_def)
  moreover have "distinct asg"
    using assms(2) by (simp add: dict_wf_def distinct_map)
  ultimately show ?thesis
    by (simp add: distinct_map comp_def)
qed

lemma independent_assigned:
  assumes "independent_principals ps = Some r"
  obtains asg where "r = sort_key pr_id (map snd asg)" "matching_inv (subject_keys (group_subjects ps)) (pr_id ` set ps) asg"
  using assms matching_group [of ps] unfolding independent_principals_def
  by (auto simp: Let_def split: if_splits)

lemma distinct_map_sort_key: "distinct (map f (sort_key g xs)) = distinct (map f xs)"
  by (simp add: distinct_map)

lemma independent_members:
  assumes "independent_principals ps = Some r"
  shows "set r \<subseteq> set ps \<and> distinct (map pr_id r) \<and> distinct (map pr_key r)"
proof -
  from independent_assigned [OF assms] obtain asg where r: "r = sort_key pr_id (map snd asg)"
    and m: "matching_inv (subject_keys (group_subjects ps)) (pr_id ` set ps) asg" .
  then have w: "one_each asg" "dict_wf asg" "legit (subject_keys (group_subjects ps)) asg"
    by (auto simp: matching_inv_def)
  have e: "p \<in> set ps \<and> pr_key p = k" if "(k, p) \<in> set asg" for k p
    using w(3) dict_get_wf [OF w(2) that] subject_edge [of k p ps "pr_id p"] unfolding legit_def by blast
  have "map pr_key (map snd asg) = dict_keys asg"
    using e by auto
  with w(2) have "distinct (map pr_key (map snd asg))"
    unfolding dict_wf_def by metis
  moreover have "set r \<subseteq> set ps"
    using r e by auto
  ultimately show ?thesis
    using assigned_distinct [OF w(1,2)] by (simp only: r distinct_map_sort_key simp_thms)
qed

lemma independent_largest:
  assumes "independent_principals ps = Some r" and "set qs \<subseteq> set ps" "distinct (map pr_id qs)" "distinct (map pr_key qs)"
  shows "length qs \<le> length r"
proof -
  from independent_assigned [OF assms(1)] obtain asg where r: "r = sort_key pr_id (map snd asg)"
    and m: "matching_inv (subject_keys (group_subjects ps)) (pr_id ` set ps) asg" .
  define f where "f s = pr_key (the (find (\<lambda>q. pr_id q = s) qs))" for s
  have ex: "\<exists>q \<in> set qs. pr_id q = s \<and> f s = pr_key q" if "s \<in> pr_id ` set qs" for s
  proof -
    from that obtain q where q: "find (\<lambda>q. pr_id q = s) qs = Some q"
      by (metis (mono_tags, lifting) find_None_iff image_iff not_None_eq)
    then have "q \<in> set qs \<and> pr_id q = s"
      by (auto simp: find_Some_iff)
    with q show ?thesis by (auto simp: f_def)
  qed
  have "inj_on f (pr_id ` set qs)"
  proof (rule inj_onI)
    fix s t assume "s \<in> pr_id ` set qs" "t \<in> pr_id ` set qs" "f s = f t"
    with ex [of s] ex [of t] assms(4) show "s = t"
      by (auto simp: distinct_map inj_on_def)
  qed
  moreover have "f s \<in> fst ` set (subject_keys (group_subjects ps) s)" if "s \<in> pr_id ` set qs" for s
    using ex [OF that] subject_edges_complete assms(2) by fastforce
  ultimately have "card (pr_id ` set qs) \<le> length asg"
    using matching_maximum [OF m] assms(2) by blast
  moreover have "card (pr_id ` set qs) = length qs"
    using assms(3) by (metis distinct_card length_map list.set_map)
  ultimately show ?thesis
    using r by simp
qed

section \<open>Properties\<close>

text \<open>
  C32: The principals counted for an approval are a maximum choice: among the given ones, no subject
  and no key twice, and no such choice is longer.  A second key of one person, or one key enrolled
  for two people, adds no vote, and the order of the proofs loses none.
\<close>

theorem independent_maximum:
  assumes "independent_principals ps = Some r"
  shows "set r \<subseteq> set ps \<and> distinct (map pr_id r) \<and> distinct (map pr_key r)
    \<and> (\<forall>qs. set qs \<subseteq> set ps \<longrightarrow> distinct (map pr_id qs) \<longrightarrow> distinct (map pr_key qs) \<longrightarrow> length qs \<le> length r)"
  using independent_members [OF assms] independent_largest [OF assms] by blast

definition sample_principal :: "string \<Rightarrow> string \<Rightarrow> principal" where
  "sample_principal i k = \<lparr>pr_id = i, pr_issuer = ''os'', pr_subject = i, pr_credential = i, pr_key = k, pr_expires = 100\<rparr>"

text \<open>Alice holds two keys, Bob shares the first and has no other: the search moves Alice to her second.\<close>

lemma sample_matching:
  "independent_principals [sample_principal ''alice'' ''k1'', sample_principal ''alice'' ''k2'', sample_principal ''bob'' ''k1'']
     = Some [sample_principal ''alice'' ''k2'', sample_principal ''bob'' ''k1'']"
  by code_simp

theorem independent_maximum_witness:
  "length [sample_principal ''alice'' ''k1''] \<le> length [sample_principal ''alice'' ''k2'', sample_principal ''bob'' ''k1'']"
  using conjunct2 [OF conjunct2 [OF conjunct2 [OF independent_maximum [OF sample_matching]]]]
  by (auto simp: sample_principal_def)

text \<open>
  Two approvals are found exactly when two of the verified proofs differ both in the subject and
  in the key that signed.
\<close>

theorem two_person_rule:
  "(\<exists>r. independent_principals ps = Some r \<and> 2 \<le> length r) \<longleftrightarrow>
     length ps \<le> 128 \<and> (\<exists>p \<in> set ps. \<exists>q \<in> set ps. pr_id p \<noteq> pr_id q \<and> pr_key p \<noteq> pr_key q)"
proof (cases "length ps \<le> 128")
  case False
  then show ?thesis by (simp add: independent_principals_def)
next
  case small: True
  then obtain r where r: "independent_principals ps = Some r"
    by (simp add: independent_principals_def Let_def)
  note m = independent_members [OF r]
  show ?thesis
  proof
    assume "\<exists>r. independent_principals ps = Some r \<and> 2 \<le> length r"
    with r have "2 \<le> length r" by simp
    then obtain p q rest where "r = p # q # rest"
      by (metis One_nat_def Suc_1 Suc_le_length_iff)
    with m small show "length ps \<le> 128 \<and> (\<exists>p \<in> set ps. \<exists>q \<in> set ps. pr_id p \<noteq> pr_id q \<and> pr_key p \<noteq> pr_key q)"
      by auto
  next
    assume "length ps \<le> 128 \<and> (\<exists>p \<in> set ps. \<exists>q \<in> set ps. pr_id p \<noteq> pr_id q \<and> pr_key p \<noteq> pr_key q)"
    then obtain p q where "p \<in> set ps" "q \<in> set ps" "pr_id p \<noteq> pr_id q" "pr_key p \<noteq> pr_key q"
      by blast
    with independent_largest [OF r, of "[p, q]"] have "2 \<le> length r"
      by simp
    with r show "\<exists>r. independent_principals ps = Some r \<and> 2 \<le> length r"
      by blast
  qed
qed

section \<open>What a verified proof stands for\<close>

lemma canonical_id_inj:
  assumes "float_printer flt" and "canonical_id flt v = canonical_id flt v'" and "json_finite v" "json_finite v'"
  shows "json_sorted v = json_sorted v'"
proof -
  have c: "canonical True flt w = Some (canonical_id flt w)" if "json_finite w" for w
    using that by (simp add: canonical_id_def canonical_def)
  from canonical_inj [OF assms(1) c [OF assms(3)]] c [OF assms(4)] show ?thesis
    by (simp only: assms(2))
qed

lemma num_of_finite: "num_of v = Some r \<Longrightarrow> json_finite v"
  by (auto simp: num_of_def split: pyval.splits pyfloat.splits if_splits)

lemma num_of_sorted: "num_of v = Some r \<Longrightarrow> json_sorted v = v"
  by (auto simp: num_of_def split: pyval.splits pyfloat.splits if_splits)

lemma proof_document_sorted:
  "json_sorted (proof_document p) = PDict [(''credential_id'', PStr (sp_credential p)), (''expires_at'', json_sorted (sp_expires p)),
     (''issued_at'', json_sorted (sp_issued p)), (''issuer'', PStr (sp_issuer p)), (''key_fingerprint'', PStr (sp_fingerprint p)),
     (''nonce'', PStr (sp_nonce p)), (''purpose_digest'', PStr (sp_purpose p)), (''subject'', PStr (sp_subject p))]"
  by (simp add: proof_document_def)

lemma signing_bytes_Some:
  assumes "signing_bytes flt p = Some body"
  obtains i e where "num_of (sp_issued p) = Some i" "num_of (sp_expires p) = Some e" "0 \<le> i" "i < e" "e \<le> i + 1800"
    "body = proof_domain @ canonical_id flt (proof_document p)" "hex_of_length 64 (sp_purpose p)"
  using assms unfolding signing_bytes_def by (auto split: if_splits option.splits)

text \<open>
  The signature binds the whole proof: two proofs with the same signing bytes differ at most in
  the signature.
\<close>

theorem signing_bytes_bind:
  assumes "float_printer flt" and "signing_bytes flt p = Some body" and "signing_bytes flt q = Some body"
  shows "q\<lparr>sp_signature := sp_signature p\<rparr> = p"
proof -
  from signing_bytes_Some [OF assms(2)] obtain i e where p: "num_of (sp_issued p) = Some i" "num_of (sp_expires p) = Some e"
    "body = proof_domain @ canonical_id flt (proof_document p)" .
  from signing_bytes_Some [OF assms(3)] obtain i' e' where q: "num_of (sp_issued q) = Some i'" "num_of (sp_expires q) = Some e'"
    "body = proof_domain @ canonical_id flt (proof_document q)" .
  have fin: "json_finite (proof_document p)" "json_finite (proof_document q)"
    using num_of_finite [OF p(1)] num_of_finite [OF p(2)] num_of_finite [OF q(1)] num_of_finite [OF q(2)]
    by (simp_all add: proof_document_def)
  have "canonical_id flt (proof_document p) = canonical_id flt (proof_document q)"
    using p(3) q(3) by simp
  from canonical_id_inj [OF assms(1) this fin] show ?thesis
    using num_of_sorted [OF p(1)] num_of_sorted [OF p(2)] num_of_sorted [OF q(1)] num_of_sorted [OF q(2)]
    by (simp add: proof_document_sorted)
qed


lemma vf_revoke_cases:
  "vf_revoke cid v = (v', Inr ()) \<Longrightarrow>
     \<exists>c. dict_get (vf_credentials v) cid = Some c \<and> v' = v\<lparr>vf_revoked := insert (cr_fingerprint c) (vf_revoked v)\<rparr>"
  by (auto simp: vf_revoke_def split: option.splits)

text \<open>
  Revoking a credential revokes its key: from then on every proof through any credential that
  carries the key is refused, and the verdict on every other proof is unchanged.
\<close>

theorem revocation_by_key:
  assumes "vf_revoke cid v = (v', Inr ())" and "dict_get (vf_credentials v) cid = Some c"
    and "dict_get (vf_credentials v) (sp_credential p) = Some d" and "num_of now = Some stamp"
  shows "verify_proof flt ed25519 v' p purpose now =
    (if cr_fingerprint d = cr_fingerprint c then Inl IdPermissionError else verify_proof flt ed25519 v p purpose now)"
  using vf_revoke_cases [OF assms(1)] assms(2-4) by (auto simp: verify_proof_def)

text \<open>
  C33: A proof is accepted only for a provisioned, enabled, unrevoked and unexpired credential.  Its fields are of
  their form, its issuer, subject and key fingerprint are the credential's, its purpose is exactly the one asked
  for, the clock is within the lifetime it states, of at most half an hour, and the credential's key verifies the
  signature over its signing bytes.  The principal it yields is that credential's, field by field, and expires
  with the proof or the credential, whichever is first; it has not expired.
\<close>

theorem verified_proof_sound:
  assumes "verify_proof flt ed25519 v p purpose now = Inr pr"
  shows "\<exists>c stamp issued expires body raw. dict_get (vf_credentials v) (sp_credential p) = Some c
    \<and> num_of now = Some stamp \<and> num_of (sp_issued p) = Some issued \<and> num_of (sp_expires p) = Some expires
    \<and> signing_bytes flt p = Some body \<and> signature_bytes (sp_signature p) = Some raw \<and> ed25519 (cr_public_key c) body raw
    \<and> cr_enabled c \<and> cr_fingerprint c \<notin> vf_revoked v \<and> (cr_expires c = 0 \<or> stamp < cr_expires c)
    \<and> sp_issuer p = cr_issuer c \<and> sp_subject p = cr_subject c \<and> sp_fingerprint p = cr_fingerprint c
    \<and> id_text (sp_credential p) \<and> id_text (sp_issuer p) \<and> id_text (sp_subject p) \<and> hex_of_length 64 (sp_fingerprint p)
    \<and> hex_of_length 32 (sp_nonce p) \<and> hex_of_length 64 purpose
    \<and> sp_purpose p = purpose \<and> 0 \<le> issued \<and> issued \<le> stamp \<and> stamp < expires \<and> expires \<le> issued + 1800
    \<and> pr = \<lparr>pr_id = cr_principal flt c, pr_issuer = cr_issuer c, pr_subject = cr_subject c, pr_credential = cr_id c,
        pr_key = cr_fingerprint c, pr_expires = (if cr_expires c = 0 then expires else min expires (cr_expires c))\<rparr>
    \<and> stamp < pr_expires pr"
proof -
  obtain stamp where now: "num_of now = Some stamp"
    using assms by (auto simp: verify_proof_def split: option.splits)
  with assms obtain c where c: "dict_get (vf_credentials v) (sp_credential p) = Some c"
    by (auto simp: verify_proof_def split: option.splits)
  with assms now have live: "cr_enabled c" "cr_fingerprint c \<notin> vf_revoked v" "cr_expires c = 0 \<or> stamp < cr_expires c"
    by (auto simp: verify_proof_def split: if_splits)
  with assms now c obtain body where body: "signing_bytes flt p = Some body"
    by (cases "signing_bytes flt p") (auto simp: verify_proof_def)
  then obtain issued e where ie: "num_of (sp_issued p) = Some issued" "num_of (sp_expires p) = Some e"
    and form: "id_text (sp_credential p)" "id_text (sp_issuer p)" "id_text (sp_subject p)" "hex_of_length 64 (sp_fingerprint p)"
      "hex_of_length 64 (sp_purpose p)" "hex_of_length 32 (sp_nonce p)" "0 \<le> issued" "e \<le> issued + 1800"
    by (auto simp: signing_bytes_def split: if_splits option.splits)
  with assms now c live body obtain raw where raw: "signature_bytes (sp_signature p) = Some raw"
    by (cases "signature_bytes (sp_signature p)") (auto simp: verify_proof_def)
  have "sp_purpose p = purpose \<and> issued \<le> stamp \<and> stamp < e \<and> ed25519 (cr_public_key c) body raw
      \<and> sp_issuer p = cr_issuer c \<and> sp_subject p = cr_subject c \<and> sp_fingerprint p = cr_fingerprint c
      \<and> pr = \<lparr>pr_id = cr_principal flt c, pr_issuer = cr_issuer c, pr_subject = cr_subject c, pr_credential = cr_id c,
        pr_key = cr_fingerprint c, pr_expires = (if cr_expires c = 0 then e else min e (cr_expires c))\<rparr>"
    using assms now c live body ie raw by (auto simp: verify_proof_def split: if_splits)
  with now c live body ie raw form show ?thesis
    by (intro exI [of _ c] exI [of _ stamp] exI [of _ issued] exI [of _ e] exI [of _ body] exI [of _ raw]) (auto split: if_splits)
qed

lemma hex_digit_lower:
  "n < 16 \<Longrightarrow> let m = (of_char (hex_digit n) :: nat) in 48 \<le> m \<and> m \<le> 57 \<or> 97 \<le> m \<and> m \<le> 102"
  by (simp add: hex_digit_def Let_def)

lemma hex_of_text: "hex_of_length (2 * length bs) (hex_text bs)"
proof (induction bs)
  case Nil
  show ?case by (simp add: hex_of_length_def hex_text_def)
next
  case (Cons b bs)
  have "unat b < 256"
    using unsigned_less [of b] by simp
  then have "unat b div 16 < 16" "unat b mod 16 < 16"
    by auto
  note d = this [THEN hex_digit_lower]
  from Cons show ?case
    using d unfolding hex_of_length_def hex_text_def by simp
qed

lemma fingerprint_hex [simp]: "hex_of_length 64 (cr_fingerprint c)"
  using hex_of_text [of "sha256 (cr_public_key c)"] by (simp add: cr_fingerprint_def)

text \<open>A concrete enrollment and proof.\<close>

definition sample_credential :: credential where
  "sample_credential = \<lparr>cr_id = ''c1'', cr_issuer = ''os'', cr_subject = ''alice'', cr_public_key = replicate 32 7,
     cr_enabled = True, cr_expires = 0\<rparr>"

definition sample_verifier :: verifier where
  "sample_verifier = \<lparr>vf_credentials = [(''c1'', sample_credential)], vf_revoked = {}\<rparr>"

definition sample_proof :: "string \<Rightarrow> signed_proof" where
  "sample_proof purpose = \<lparr>sp_credential = ''c1'', sp_issuer = ''os'', sp_subject = ''alice'',
     sp_fingerprint = cr_fingerprint sample_credential, sp_purpose = purpose, sp_issued = PInt 100, sp_expires = PInt 200,
     sp_nonce = replicate 32 (CHR ''0''), sp_signature = replicate 86 (CHR ''A'')\<rparr>"

definition sample_ed25519 :: "bytes \<Rightarrow> bytes \<Rightarrow> bytes \<Rightarrow> bool" where
  "sample_ed25519 key body raw \<longleftrightarrow> key = replicate 32 7 \<and> raw = replicate 64 0"

lemma sample_signature: "signature_bytes (replicate 86 (CHR ''A'')) = Some (replicate 64 0)"
  by code_simp

lemma sample_num: "num_of (PInt 100) = Some 100" "num_of (PInt 150) = Some 150" "num_of (PInt 200) = Some 200"
  by (simp_all add: num_of_def float_overflow_def)

lemma sample_ids: "id_text ''c1''" "id_text ''os''" "id_text ''alice''" "hex_of_length 32 (replicate 32 (CHR ''0''))"
  by code_simp+

lemma sample_verified:
  assumes "hex_of_length 64 purpose"
  shows "\<exists>body. signing_bytes flt (sample_proof purpose) = Some body"
    and "verify_proof flt sample_ed25519 sample_verifier (sample_proof purpose) purpose (PInt 150) =
      Inr \<lparr>pr_id = cr_principal flt sample_credential, pr_issuer = ''os'', pr_subject = ''alice'', pr_credential = ''c1'',
        pr_key = cr_fingerprint sample_credential, pr_expires = 200\<rparr>"
proof -
  show s: "\<exists>body. signing_bytes flt (sample_proof purpose) = Some body"
    using assms by (simp add: signing_bytes_def sample_proof_def sample_num sample_ids)
  then show "verify_proof flt sample_ed25519 sample_verifier (sample_proof purpose) purpose (PInt 150) =
      Inr \<lparr>pr_id = cr_principal flt sample_credential, pr_issuer = ''os'', pr_subject = ''alice'', pr_credential = ''c1'',
        pr_key = cr_fingerprint sample_credential, pr_expires = 200\<rparr>"
    by (auto simp: verify_proof_def sample_num sample_verifier_def sample_proof_def sample_signature sample_ed25519_def
      sample_credential_def)
qed

theorem verified_proof_sound_witness:
  "\<exists>c. dict_get (vf_credentials sample_verifier) ''c1'' = Some c \<and> cr_enabled c"
proof -
  have "hex_of_length 64 (replicate 64 (CHR ''a''))" by code_simp
  from verified_proof_sound [OF sample_verified(2) [OF this, of fraction_text]] show ?thesis
    by (auto simp: sample_proof_def)
qed

theorem signing_bytes_bind_witness:
  "sample_proof (replicate 64 (CHR ''a'')) \<lparr>sp_signature := sp_signature (sample_proof (replicate 64 (CHR ''a'')))\<rparr>
     = sample_proof (replicate 64 (CHR ''a''))"
proof -
  have "hex_of_length 64 (replicate 64 (CHR ''a''))" by code_simp
  from sample_verified(1) [OF this, of fraction_text] obtain body
    where "signing_bytes fraction_text (sample_proof (replicate 64 (CHR ''a''))) = Some body" ..
  from signing_bytes_bind [OF fraction_printer this this] show ?thesis .
qed

theorem revocation_by_key_witness:
  "verify_proof fraction_text sample_ed25519 (sample_verifier\<lparr>vf_revoked := {cr_fingerprint sample_credential}\<rparr>)
     (sample_proof (replicate 64 (CHR ''a''))) (replicate 64 (CHR ''a'')) (PInt 150) = Inl IdPermissionError"
proof -
  have "vf_revoke ''c1'' sample_verifier = (sample_verifier\<lparr>vf_revoked := {cr_fingerprint sample_credential}\<rparr>, Inr ())"
    by (simp add: vf_revoke_def sample_verifier_def)
  moreover have "dict_get (vf_credentials sample_verifier) ''c1'' = Some sample_credential"
    "dict_get (vf_credentials sample_verifier) (sp_credential (sample_proof (replicate 64 (CHR ''a'')))) = Some sample_credential"
    by (simp_all add: sample_verifier_def sample_proof_def)
  ultimately show ?thesis
    using revocation_by_key [OF _ _ _ sample_num(2)] by fastforce
qed

end
