(* ===== verification/Response_Broker.thy ===== *)
theory Response_Broker
  imports Approval_Identity
begin

text \<open>
  The approval-gated response broker, \<^verbatim>\<open>src/angerona/core/response_broker.py\<close>: typed operations and
  proposals, approvals, the execution path with its burn before the action and its checks after the
  durable write, receipts, revocation, admission and close, and the durable state file.

  Outside the sources or the process, read from an environment at the broker's next moment (a
  counter that every reading advances): the clock, whether another thread has called \<open>close\<close>, the
  keys the identity verifier has revoked meanwhile, whether a durable write or the release of the
  lease succeeds, and what validators, handlers and outcome verifiers do.  Handlers do not call back
  into the broker here.  \<open>bk_dispatched\<close> is the trace of the handler calls, the effect the broker
  exists to guard; nothing reads it.
\<close>

section \<open>Operations and proposals\<close>

datatype broker_error = BValueError | BPermissionError | BTypeError | BIOError | BExternalError | BOverflowError

datatype risk = Low | Medium | High | Critical

record operation =
  op_id :: string
  op_risk :: risk
  op_description :: string
  op_rollback :: string
  op_verifies :: bool \<comment> \<open>an outcome verifier is present\<close>

definition operation_name :: "string \<Rightarrow> bool" where
  "operation_name s \<longleftrightarrow> (case s of [] \<Rightarrow> False
     | c # r \<Rightarrow> (let low = (\<lambda>d. let n = (of_char d :: nat) in 97 \<le> n \<and> n \<le> 122) in
        low c \<and> 2 \<le> length r \<and> length r \<le> 79
        \<and> list_all (\<lambda>d. low d \<or> (let n = (of_char d :: nat) in 48 \<le> n \<and> n \<le> 57) \<or> d \<in> set ''_.-'') r))"

definition operation_ok :: "operation \<Rightarrow> bool" where
  "operation_ok p \<longleftrightarrow> operation_name (op_id p) \<and> py_strip (op_description p) \<noteq> [] \<and> py_strip (op_rollback p) \<noteq> []
     \<and> length (op_description p) \<le> 2000 \<and> length (op_rollback p) \<le> 2000"

fun risk_text :: "risk \<Rightarrow> string" where
  "risk_text Low = ''low''"
| "risk_text Medium = ''medium''"
| "risk_text High = ''high''"
| "risk_text Critical = ''critical''"

definition high_impact :: "operation \<Rightarrow> bool" where
  "high_impact p \<longleftrightarrow> op_risk p = High \<or> op_risk p = Critical"

definition required_approvals :: "operation \<Rightarrow> nat" where
  "required_approvals p = (if high_impact p then 2 else 1)"

record proposal =
  rp_id :: string
  rp_operation :: string
  rp_arguments :: "(string \<times> pyval) list"
  rp_target :: string
  rp_requester :: string
  rp_created :: pyval
  rp_expires :: pyval
  rp_dry_run :: bool

definition response_id :: "string \<Rightarrow> bool" where
  "response_id s \<longleftrightarrow> (case s of [] \<Rightarrow> False
     | c # r \<Rightarrow> id_char c \<and> 2 \<le> length r \<and> length r \<le> 127 \<and> list_all (\<lambda>d. id_char d \<or> d \<in> set ''._:@-'') r)"

definition broker_max_bytes :: nat where
  "broker_max_bytes = 65536"

definition proposal_document :: "proposal \<Rightarrow> pyval" where
  "proposal_document p = PDict [(''proposal_id'', PStr (rp_id p)), (''operation_id'', PStr (rp_operation p)),
     (''arguments'', PDict (rp_arguments p)), (''target_id'', PStr (rp_target p)), (''requested_by'', PStr (rp_requester p)),
     (''created_at'', rp_created p), (''expires_at'', rp_expires p), (''dry_run'', PBool (rp_dry_run p))]"

definition proposal_ok :: "(rat \<Rightarrow> string) \<Rightarrow> proposal \<Rightarrow> bool" where
  "proposal_ok flt p \<longleftrightarrow> response_id (rp_id p) \<and> response_id (rp_target p) \<and> response_id (rp_requester p)
     \<and> operation_name (rp_operation p) \<and> length (rp_arguments p) \<le> 64
     \<and> (case (num_of (rp_created p), num_of (rp_expires p)) of
          (Some c, Some e) \<Rightarrow> c < e \<and> e \<le> c + 3600
        | _ \<Rightarrow> False)
     \<and> (case canonical True flt (proposal_document p) of None \<Rightarrow> False | Some bs \<Rightarrow> length bs \<le> broker_max_bytes)"

definition proposal_digest :: "(rat \<Rightarrow> string) \<Rightarrow> proposal \<Rightarrow> string" where
  "proposal_digest flt p = hex_text (sha256 (canonical_id flt (proposal_document p)))"

section \<open>Receipts\<close>

record receipt =
  rc_proposal :: string
  rc_digest :: string
  rc_operation :: string
  rc_target :: string
  rc_outcome :: string
  rc_executed :: bool
  rc_approvals :: "string list"
  rc_result :: "(string \<times> pyval) list"
  rc_recorded :: pyval
  rc_hmac :: string

definition receipt_core :: "receipt \<Rightarrow> (string \<times> pyval) list" where
  "receipt_core r = [(''proposal_id'', PStr (rc_proposal r)), (''proposal_digest'', PStr (rc_digest r)),
     (''operation_id'', PStr (rc_operation r)), (''target_id'', PStr (rc_target r)), (''outcome'', PStr (rc_outcome r)),
     (''executed'', PBool (rc_executed r)), (''approvals'', PList (map PStr (rc_approvals r))),
     (''result'', PDict (rc_result r)), (''recorded_at'', rc_recorded r)]"

definition receipt_tag :: "(rat \<Rightarrow> string) \<Rightarrow> bytes \<Rightarrow> receipt \<Rightarrow> string" where
  "receipt_tag flt key r = hex_text (hmac_sha256 key (canonical_id flt (PDict (receipt_core r))))"

definition verify_receipt :: "(rat \<Rightarrow> string) \<Rightarrow> bytes \<Rightarrow> receipt \<Rightarrow> bool" where
  "verify_receipt flt key r \<longleftrightarrow> hex_of_length 64 (rc_hmac r) \<and> json_finite (PDict (receipt_core r))
     \<and> rc_hmac r = receipt_tag flt key r"

section \<open>State\<close>

record broker_files =
  bf_marker :: "string option" \<comment> \<open>the enrollment marker\<close>
  bf_state :: "pyval option" \<comment> \<open>the document the state file decodes to\<close>

record dispatched =
  dp_id :: string
  dp_digest :: string
  dp_operation :: operation
  dp_approvals :: "principal list"
  dp_at :: rat

record broker =
  bk_key :: bytes
  bk_identity :: "verifier option"
  bk_operations :: "(string, operation) dict"
  bk_approvals :: "(string, (string, signed_proof) dict) dict"
  bk_receipts :: "(string, receipt) dict"
  bk_attempts :: "(string, string) dict"
  bk_revoked_proposals :: "string list"
  bk_revoked_keys :: "string list"
  bk_revoked_subjects :: "string list"
  bk_closing :: bool
  bk_active :: nat
  bk_durable :: bool \<comment> \<open>a state path was given\<close>
  bk_lease :: "bool option" \<comment> \<open>the lease, if there is one, and whether it is held\<close>
  bk_degraded :: bool
  bk_files :: broker_files
  bk_tick :: nat
  bk_dispatched :: "dispatched list"

datatype handler_reply = HandlerRaised | HandlerNoMapping | HandlerReturned "(string \<times> pyval) list"
datatype outcome_reply = OutcomeRaised | OutcomeTrue | OutcomeOther

record broker_env =
  ev_float :: "rat \<Rightarrow> string"
  ev_ed25519 :: "bytes \<Rightarrow> bytes \<Rightarrow> bytes \<Rightarrow> bool"
  ev_clock :: "nat \<Rightarrow> rat option"
  ev_close :: "nat \<Rightarrow> bool"
  ev_revoked :: "nat \<Rightarrow> string set"
  ev_write :: "nat \<Rightarrow> bool"
  ev_release :: "nat \<Rightarrow> bool"
  ev_validator :: "nat \<Rightarrow> string \<Rightarrow> (string \<times> pyval) list \<Rightarrow> bool"
  ev_handler :: "nat \<Rightarrow> string \<Rightarrow> (string \<times> pyval) list \<Rightarrow> handler_reply"
  ev_outcome :: "nat \<Rightarrow> string \<Rightarrow> (string \<times> pyval) list \<Rightarrow> (string \<times> pyval) list \<Rightarrow> outcome_reply"

type_synonym 'a broker_op = "(broker, broker_error, 'a) oper"

text \<open>One reading of the environment.\<close>

definition sense :: "(nat \<Rightarrow> 'a) \<Rightarrow> 'a broker_op" where
  "sense f b = (b\<lparr>bk_tick := Suc (bk_tick b)\<rparr>, Inr (f (bk_tick b)))"

definition broker_now :: "broker_env \<Rightarrow> rat broker_op" where
  "broker_now ev = op_then (sense (ev_clock ev)) (\<lambda>t. case t of None \<Rightarrow> op_raise BValueError | Some r \<Rightarrow> op_return r)"

text \<open>\<open>_closing.is_set()\<close>: once set, by this thread or another, the event stays set.\<close>

definition is_closing :: "broker_env \<Rightarrow> bool broker_op" where
  "is_closing ev b = (let c = (bk_closing b \<or> ev_close ev (bk_tick b))
     in (b\<lparr>bk_closing := c, bk_tick := Suc (bk_tick b)\<rparr>, Inr c))"

definition ensure_accepting :: "broker_env \<Rightarrow> unit broker_op" where
  "ensure_accepting ev = op_then (is_closing ev) (\<lambda>c. op_guard (\<not> c) BPermissionError)"

section \<open>Close and admission\<close>

definition finish_close :: "broker_env \<Rightarrow> broker \<Rightarrow> broker \<times> bool" where
  "finish_close ev b = (case bk_lease b of
     None \<Rightarrow> (b\<lparr>bk_degraded := True\<rparr>, True)
   | Some _ \<Rightarrow> (let ok = ev_release ev (bk_tick b); b = b\<lparr>bk_tick := Suc (bk_tick b), bk_degraded := True\<rparr> in
       if ok then (b\<lparr>bk_lease := None\<rparr>, True) else (b, False)))"

text \<open>\<open>close\<close> once the lock is free (or from within an admitted call); it gives \<open>False\<close> without it.\<close>

definition close_broker :: "broker_env \<Rightarrow> pyval \<Rightarrow> bool \<Rightarrow> bool broker_op" where
  "close_broker ev timeout acquired b =
     (case num_of timeout of
        None \<Rightarrow> (b, Inl (case timeout of PInt _ \<Rightarrow> BOverflowError | _ \<Rightarrow> BValueError))
      | Some t \<Rightarrow>
        if \<not> (0 \<le> t \<and> t \<le> 30) then (b, Inl BValueError)
        else let b = b\<lparr>bk_closing := True\<rparr> in
          if \<not> acquired \<or> bk_active b \<noteq> 0 then (b, Inr False)
          else case finish_close ev b of (b', ok) \<Rightarrow> (b', Inr ok))"

text \<open>
  \<open>_admitted\<close>: the event is polled before and while waiting for the lock, and once more with it.
\<close>

definition retire :: "broker_env \<Rightarrow> broker \<Rightarrow> broker" where
  "retire ev b = (let b = b\<lparr>bk_active := bk_active b - 1\<rparr>; b = fst (is_closing ev b) in
     if bk_closing b \<and> bk_active b = 0 then fst (finish_close ev b) else b)"

definition admitted :: "broker_env \<Rightarrow> 'a broker_op \<Rightarrow> 'a broker_op" where
  "admitted ev f = op_then (ensure_accepting ev) (\<lambda>_. op_then (ensure_accepting ev) (\<lambda>_ b.
     case f (b\<lparr>bk_active := Suc (bk_active b)\<rparr>) of (b', r) \<Rightarrow> (retire ev b', r)))"

text \<open>\<open>approval_status()["state"] == "configured"\<close>.\<close>

definition status_configured :: "broker_env \<Rightarrow> bool broker_op" where
  "status_configured ev b =
     (let t = bk_tick b;
          identity = (case bk_identity b of None \<Rightarrow> False
            | Some v \<Rightarrow> vf_configured (ev_clock ev t) (v\<lparr>vf_revoked := ev_revoked ev t\<rparr>));
          durable = (bk_lease b = Some True)
      in op_then (is_closing ev) (\<lambda>closing. op_return (identity \<and> durable \<and> \<not> bk_degraded b \<and> \<not> closing))
           (b\<lparr>bk_tick := Suc t\<rparr>))"

section \<open>The durable state\<close>

definition proof_items :: "signed_proof \<Rightarrow> pyval" where
  "proof_items p = PDict [(''credential_id'', PStr (sp_credential p)), (''issuer'', PStr (sp_issuer p)),
     (''subject'', PStr (sp_subject p)), (''key_fingerprint'', PStr (sp_fingerprint p)),
     (''purpose_digest'', PStr (sp_purpose p)), (''issued_at'', sp_issued p), (''expires_at'', sp_expires p),
     (''nonce'', PStr (sp_nonce p)), (''signature'', PStr (sp_signature p))]"

definition receipt_items :: "receipt \<Rightarrow> pyval" where
  "receipt_items r = PDict (receipt_core r @ [(''receipt_hmac'', PStr (rc_hmac r))])"

definition map_values :: "('v \<Rightarrow> 'w) \<Rightarrow> ('k, 'v) dict \<Rightarrow> ('k, 'w) dict" where
  "map_values f d = map (\<lambda>(k, v). (k, f v)) d"

definition state_core :: "broker \<Rightarrow> pyval" where
  "state_core b = PDict [
     (''approvals'', PDict (map_values (\<lambda>ps. PDict (map_values proof_items ps)) (bk_approvals b))),
     (''receipts'', PDict (map_values receipt_items (bk_receipts b))),
     (''attempts'', PDict (map_values PStr (bk_attempts b))),
     (''revoked_proposals'', PList (map PStr (sort (bk_revoked_proposals b)))),
     (''revoked_keys'', PList (map PStr (sort (bk_revoked_keys b)))),
     (''revoked_subjects'', PList (map PStr (sort (bk_revoked_subjects b))))]"

definition broker_schema :: string where
  "broker_schema = ''angerona.response-broker-state.v1''"

definition state_tag :: "(rat \<Rightarrow> string) \<Rightarrow> bytes \<Rightarrow> pyval \<Rightarrow> string" where
  "state_tag flt key body = hex_text (hmac_sha256 key (utf8 (''response-broker-state'' @ [CHR 0x00]) @ canonical_id flt body))"

definition broker_document :: "(rat \<Rightarrow> string) \<Rightarrow> broker \<Rightarrow> pyval" where
  "broker_document flt b = PDict [(''schema'', PStr broker_schema), (''records'', state_core b),
     (''hmac'', PStr (state_tag flt (bk_key b) (state_core b)))]"

definition broker_state_bytes :: nat where
  "broker_state_bytes = 4 * 1024 * 1024"

text \<open>The file holds the canonical encoding, which sorts every dictionary.\<close>

definition save_broker :: "broker_env \<Rightarrow> unit broker_op" where
  "save_broker ev b =
     (if \<not> bk_durable b then (b, Inr ())
      else if bk_lease b \<noteq> Some True then (b, Inl BPermissionError)
      else case canonical True (ev_float ev) (broker_document (ev_float ev) b) of
        None \<Rightarrow> (b, Inl BValueError)
      | Some bs \<Rightarrow>
          if broker_state_bytes < length bs then (b\<lparr>bk_degraded := True\<rparr>, Inl BValueError)
          else (let ok = ev_write ev (bk_tick b); b1 = b\<lparr>bk_tick := Suc (bk_tick b)\<rparr> in
            if ok then (b1\<lparr>bk_files := (bk_files b)\<lparr>bf_state := Some (json_sorted (broker_document (ev_float ev) b))\<rparr>\<rparr>, Inr ())
            else (b1\<lparr>bk_degraded := True\<rparr>, Inl BIOError)))"

text \<open>Reading the document back; anything of another shape is refused.\<close>

definition str_of :: "pyval \<Rightarrow> string option" where
  "str_of v = (case v of PStr s \<Rightarrow> Some s | _ \<Rightarrow> None)"

fun all_some :: "'a option list \<Rightarrow> 'a list option" where
  "all_some [] = Some []"
| "all_some (None # xs) = None"
| "all_some (Some x # xs) = map_option ((#) x) (all_some xs)"

definition items_of :: "pyval \<Rightarrow> (string \<times> pyval) list option" where
  "items_of v = (case v of PDict d \<Rightarrow> Some d | _ \<Rightarrow> None)"

definition strings_of :: "pyval \<Rightarrow> string list option" where
  "strings_of v = (case v of PList vs \<Rightarrow> all_some (map str_of vs) | _ \<Rightarrow> None)"

definition read_values :: "('v \<Rightarrow> 'w option) \<Rightarrow> ('k, 'v) dict \<Rightarrow> ('k, 'w) dict option" where
  "read_values f d = all_some (map (\<lambda>(k, v). map_option (Pair k) (f v)) d)"

definition str_item :: "(string \<times> pyval) list \<Rightarrow> string \<Rightarrow> string option" where
  "str_item d k = Option.bind (dict_get d k) str_of"

definition proof_fields :: "string list" where
  "proof_fields = [''credential_id'', ''issuer'', ''subject'', ''key_fingerprint'', ''purpose_digest'', ''issued_at'',
     ''expires_at'', ''nonce'', ''signature'']"

definition read_proof :: "pyval \<Rightarrow> signed_proof option" where
  "read_proof v = Option.bind (items_of v) (\<lambda>d.
     if set (dict_keys d) \<noteq> set proof_fields then None
     else case (str_item d ''credential_id'', str_item d ''issuer'', str_item d ''subject'', str_item d ''key_fingerprint'',
                str_item d ''purpose_digest'', dict_get d ''issued_at'', dict_get d ''expires_at'', str_item d ''nonce'',
                str_item d ''signature'') of
       (Some c, Some i, Some s, Some f, Some p, Some t, Some e, Some n, Some g) \<Rightarrow>
         Some \<lparr>sp_credential = c, sp_issuer = i, sp_subject = s, sp_fingerprint = f, sp_purpose = p, sp_issued = t,
           sp_expires = e, sp_nonce = n, sp_signature = g\<rparr>
     | _ \<Rightarrow> None)"

definition receipt_fields :: "string list" where
  "receipt_fields = [''proposal_id'', ''proposal_digest'', ''operation_id'', ''target_id'', ''outcome'', ''executed'',
     ''approvals'', ''result'', ''recorded_at'', ''receipt_hmac'']"

definition read_receipt :: "pyval \<Rightarrow> receipt option" where
  "read_receipt v = Option.bind (items_of v) (\<lambda>d.
     if set (dict_keys d) \<noteq> set receipt_fields then None
     else case (str_item d ''proposal_id'', str_item d ''proposal_digest'', str_item d ''operation_id'', str_item d ''target_id'',
                str_item d ''outcome'', dict_get d ''executed'', Option.bind (dict_get d ''approvals'') strings_of,
                Option.bind (dict_get d ''result'') items_of, dict_get d ''recorded_at'', str_item d ''receipt_hmac'') of
       (Some p, Some g, Some q, Some t, Some u, Some (PBool x), Some a, Some r, Some w, Some h) \<Rightarrow>
         Some \<lparr>rc_proposal = p, rc_digest = g, rc_operation = q, rc_target = t, rc_outcome = u, rc_executed = x,
           rc_approvals = a, rc_result = r, rc_recorded = w, rc_hmac = h\<rparr>
     | _ \<Rightarrow> None)"

record broker_records =
  br_approvals :: "(string, (string, signed_proof) dict) dict"
  br_receipts :: "(string, receipt) dict"
  br_attempts :: "(string, string) dict"
  br_revoked_proposals :: "string list"
  br_revoked_keys :: "string list"
  br_revoked_subjects :: "string list"

definition read_records :: "(rat \<Rightarrow> string) \<Rightarrow> bytes \<Rightarrow> pyval \<Rightarrow> broker_records option" where
  "read_records flt key v = Option.bind (items_of v) (\<lambda>d.
     case (Option.bind (dict_get d ''approvals'') (\<lambda>x. Option.bind (items_of x)
             (read_values (\<lambda>y. Option.bind (items_of y) (read_values read_proof)))),
           Option.bind (dict_get d ''receipts'') (\<lambda>x. Option.bind (items_of x) (read_values read_receipt)),
           Option.bind (dict_get d ''attempts'') (\<lambda>x. Option.bind (items_of x) (read_values str_of)),
           Option.bind (dict_get d ''revoked_proposals'') strings_of,
           Option.bind (dict_get d ''revoked_keys'') strings_of,
           Option.bind (dict_get d ''revoked_subjects'') strings_of) of
       (Some a, Some r, Some t, Some p, Some k, Some s) \<Rightarrow>
         if list_all (\<lambda>(_, ps). length ps \<le> 128 \<and> list_all (\<lambda>(_, q). signing_bytes flt q \<noteq> None) ps) a
           \<and> list_all (\<lambda>(_, q). verify_receipt flt key q) r
         then Some \<lparr>br_approvals = a, br_receipts = r, br_attempts = t, br_revoked_proposals = p, br_revoked_keys = k,
           br_revoked_subjects = s\<rparr>
         else None
     | _ \<Rightarrow> None)"

text \<open>\<open>str(value.get("hmac", ""))\<close>, for the values it can turn into a tag of hexadecimal digits.\<close>

definition tag_text :: "pyval option \<Rightarrow> string" where
  "tag_text v = (case v of Some (PStr s) \<Rightarrow> s | Some (PInt i) \<Rightarrow> show_int i | _ \<Rightarrow> '''')"

definition load_document :: "(rat \<Rightarrow> string) \<Rightarrow> bytes \<Rightarrow> pyval \<Rightarrow> broker_records option" where
  "load_document flt key v = Option.bind (items_of v) (\<lambda>d. Option.bind (dict_get d ''records'') (\<lambda>body.
     if dict_get d ''schema'' \<noteq> Some (PStr broker_schema) \<or> items_of body = None \<or> \<not> json_finite body
       \<or> tag_text (dict_get d ''hmac'') \<noteq> state_tag flt key body
     then None else read_records flt key body))"

definition broker_marker :: "bytes \<Rightarrow> string" where
  "broker_marker key = hex_text (hmac_sha256 key (utf8 ''response-broker-enrollment-v1''))"

definition with_records :: "broker_records \<Rightarrow> broker \<Rightarrow> broker" where
  "with_records r b = b\<lparr>bk_approvals := br_approvals r, bk_receipts := br_receipts r, bk_attempts := br_attempts r,
     bk_revoked_proposals := remdups (br_revoked_proposals r), bk_revoked_keys := remdups (br_revoked_keys r),
     bk_revoked_subjects := remdups (br_revoked_subjects r)\<rparr>"

text \<open>\<open>_load_state\<close>: with no marker and no state the backend is enrolled and an empty state saved.\<close>

definition load_broker :: "broker_env \<Rightarrow> unit broker_op" where
  "load_broker ev b =
     (case bf_marker (bk_files b) of
        None \<Rightarrow>
          if bf_state (bk_files b) \<noteq> None then (b, Inl BValueError)
          else if \<not> ev_write ev (bk_tick b) then (b\<lparr>bk_tick := Suc (bk_tick b)\<rparr>, Inl BIOError)
          else save_broker ev (b\<lparr>bk_tick := Suc (bk_tick b), bk_files := (bk_files b)\<lparr>bf_marker := Some (broker_marker (bk_key b))\<rparr>\<rparr>)
      | Some m \<Rightarrow>
          (case (if m = broker_marker (bk_key b) then bf_state (bk_files b) else None) of
             None \<Rightarrow> (b, Inl BValueError)
           | Some doc \<Rightarrow> (case load_document (ev_float ev) (bk_key b) doc of
               None \<Rightarrow> (b, Inl BValueError)
             | Some r \<Rightarrow> (with_records r b, Inr ()))))"

text \<open>
  The constructor on given files: \<open>files = None\<close> is a broker in memory only.  The moment and the
  trace of handler calls go on from those given.
\<close>

definition fresh_broker :: "bytes \<Rightarrow> verifier option \<Rightarrow> broker_files option \<Rightarrow> nat \<Rightarrow> dispatched list \<Rightarrow> broker" where
  "fresh_broker key identity files tick trace =
     \<lparr>bk_key = key, bk_identity = identity, bk_operations = [], bk_approvals = [], bk_receipts = [], bk_attempts = [],
      bk_revoked_proposals = [], bk_revoked_keys = [], bk_revoked_subjects = [], bk_closing = False, bk_active = 0,
      bk_durable = (files \<noteq> None), bk_lease = (if files = None then None else Some True), bk_degraded = False,
      bk_files = (case files of None \<Rightarrow> \<lparr>bf_marker = None, bf_state = None\<rparr> | Some f \<Rightarrow> f), bk_tick = tick,
      bk_dispatched = trace\<rparr>"

definition open_broker :: "broker_env \<Rightarrow> bytes \<Rightarrow> verifier option \<Rightarrow> broker_files option \<Rightarrow> nat \<Rightarrow> dispatched list \<Rightarrow> broker \<times> (broker_error + unit)" where
  "open_broker ev key identity files tick trace =
     (let b = fresh_broker key identity files tick trace in
      if length key < 32 then (b, Inl BValueError)
      else if \<not> bk_durable b then (b, Inr ())
      else case load_broker ev b of
        (b', Inl e) \<Rightarrow> (fst (close_broker ev (PInt 3) True b'), Inl e)
      | (b', Inr _) \<Rightarrow> (b', Inr ()))"

section \<open>Approvals\<close>

definition own_approval :: "(rat \<Rightarrow> string) \<Rightarrow> verifier \<Rightarrow> string \<Rightarrow> principal \<Rightarrow> bool" where
  "own_approval flt v who pr \<longleftrightarrow> pr_id pr = who
     \<or> list_ex (\<lambda>c. cr_principal flt c = who \<and> cr_fingerprint c = pr_key pr) (map snd (vf_credentials v))"

definition verify_approval :: "broker_env \<Rightarrow> signed_proof \<Rightarrow> string \<Rightarrow> string \<Rightarrow> principal broker_op" where
  "verify_approval ev p digest requester =
     op_then (ensure_accepting ev) (\<lambda>_.
     op_then (op_get bk_identity) (\<lambda>identity. case identity of
       None \<Rightarrow> op_raise BPermissionError
     | Some v \<Rightarrow>
         op_then (broker_now ev) (\<lambda>now.
         op_then (sense (ev_revoked ev)) (\<lambda>revoked.
         case verify_proof (ev_float ev) (ev_ed25519 ev) (v\<lparr>vf_revoked := revoked\<rparr>) p digest (PFloat (Fin now)) of
           Inl _ \<Rightarrow> op_raise BPermissionError
         | Inr pr \<Rightarrow>
             (case resolve_principal (ev_float ev) v requester of
                Inl _ \<Rightarrow> op_raise BPermissionError
              | Inr who \<Rightarrow>
                  op_then (op_get (\<lambda>b. pr_key pr \<in> set (bk_revoked_keys b) \<or> pr_id pr \<in> set (bk_revoked_subjects b))) (\<lambda>barred.
                    if own_approval (ev_float ev) v who pr \<or> barred then op_raise BPermissionError else op_return pr))))))"

text \<open>A proof that is refused is passed over; any other error ends the count.\<close>

fun verified_list :: "broker_env \<Rightarrow> string \<Rightarrow> string \<Rightarrow> signed_proof list \<Rightarrow> principal list broker_op" where
  "verified_list ev digest requester [] b = (b, Inr [])"
| "verified_list ev digest requester (p # ps) b =
     (case verify_approval ev p digest requester b of
        (b', Inr pr) \<Rightarrow> op_then (verified_list ev digest requester ps) (\<lambda>prs. op_return (pr # prs)) b'
      | (b', Inl BPermissionError) \<Rightarrow> verified_list ev digest requester ps b'
      | (b', Inl e) \<Rightarrow> (b', Inl e))"

definition verified_approvals :: "broker_env \<Rightarrow> signed_proof list \<Rightarrow> string \<Rightarrow> string \<Rightarrow> principal list broker_op" where
  "verified_approvals ev ps digest requester =
     op_then (verified_list ev digest requester ps) (\<lambda>prs.
       case independent_principals prs of None \<Rightarrow> op_raise BValueError | Some r \<Rightarrow> op_return r)"

definition stored_proofs :: "string \<Rightarrow> broker \<Rightarrow> signed_proof list" where
  "stored_proofs digest b = map snd (dict_get_or (bk_approvals b) digest [])"

section \<open>Registration and revocation\<close>

definition register_operation :: "broker_env \<Rightarrow> operation \<Rightarrow> unit broker_op" where
  "register_operation ev p = admitted ev (\<lambda>b.
     if dict_get (bk_operations b) (op_id p) \<noteq> None then (b, Inl BValueError)
     else (b\<lparr>bk_operations := dict_set (op_id p) p (bk_operations b)\<rparr>, Inr ()))"

definition registered_operation_ids :: "broker \<Rightarrow> string list" where
  "registered_operation_ids b = sort (dict_keys (bk_operations b))"

definition revoke_credential :: "broker_env \<Rightarrow> string \<Rightarrow> unit broker_op" where
  "revoke_credential ev cid b =
     (case Option.bind (bk_identity b) (\<lambda>v. dict_get (vf_credentials v) cid) of
        None \<Rightarrow> (b, Inl BPermissionError)
      | Some c \<Rightarrow> admitted ev (\<lambda>b. save_broker ev (b\<lparr>bk_revoked_keys := List.insert (cr_fingerprint c) (bk_revoked_keys b)\<rparr>)) b)"

definition revoke_proposal :: "broker_env \<Rightarrow> string \<Rightarrow> unit broker_op" where
  "revoke_proposal ev digest b =
     (if \<not> hex_of_length 64 digest then (b, Inl BValueError)
      else admitted ev (\<lambda>b. save_broker ev (b\<lparr>bk_revoked_proposals := List.insert digest (bk_revoked_proposals b)\<rparr>)) b)"

section \<open>Approving\<close>

definition store_proof :: "broker_env \<Rightarrow> string \<Rightarrow> string \<Rightarrow> signed_proof \<Rightarrow> nat broker_op" where
  "store_proof ev digest requester p b =
     (let known = dict_get_or (bk_approvals b) digest [] in
      if digest \<in> set (bk_revoked_proposals b) then (b, Inl BPermissionError)
      else if 1000 \<le> length (bk_approvals b) \<and> dict_get (bk_approvals b) digest = None then (b, Inl BValueError)
      else if 128 \<le> length known \<and> dict_get known (sp_credential p) = None then (b, Inl BValueError)
      else op_then (save_broker ev) (\<lambda>_ b.
          op_then (verified_approvals ev (stored_proofs digest b) digest requester) (\<lambda>prs. op_return (length prs)) b)
        (b\<lparr>bk_approvals := dict_set digest (dict_set (sp_credential p) p known) (bk_approvals b)\<rparr>))"

definition approve :: "broker_env \<Rightarrow> proposal \<Rightarrow> signed_proof \<Rightarrow> nat broker_op" where
  "approve ev q p =
     (let digest = proposal_digest (ev_float ev) q in
      op_then (op_guard (proposal_ok (ev_float ev) q) BValueError) (\<lambda>_.
      op_then (verify_approval ev p digest (rp_requester q)) (\<lambda>_.
      op_then (broker_now ev) (\<lambda>now.
      op_then (op_guard (now < the (num_of (rp_expires q))) BPermissionError) (\<lambda>_.
        admitted ev (store_proof ev digest (rp_requester q) p))))))"

section \<open>Executing\<close>

text \<open>The stages of \<open>execute\<close>: an existing receipt, admission, the burn, the checks after it, the call, the receipt.\<close>

definition existing_receipt :: "broker_env \<Rightarrow> proposal \<Rightarrow> receipt option broker_op" where
  "existing_receipt ev q b = (case dict_get (bk_receipts b) (rp_id q) of
     None \<Rightarrow> (b, Inr None)
   | Some r \<Rightarrow>
       if rc_digest r \<noteq> proposal_digest (ev_float ev) q then (b, Inl BValueError)
       else if rp_dry_run q then (b, Inr (Some r))
       else op_then (status_configured ev) (\<lambda>ok. if ok then op_return (Some r) else op_raise BPermissionError) b)"

definition admit :: "broker_env \<Rightarrow> proposal \<Rightarrow> (operation \<times> rat \<times> principal list) broker_op" where
  "admit ev q =
     (let digest = proposal_digest (ev_float ev) q in
      op_then (op_get (\<lambda>b. dict_get (bk_operations b) (rp_operation q))) (\<lambda>known. case known of
        None \<Rightarrow> op_raise BPermissionError
      | Some p \<Rightarrow>
          op_then (broker_now ev) (\<lambda>now.
          op_then (op_guard (now < the (num_of (rp_expires q))) BPermissionError) (\<lambda>_.
          op_then (sense (ev_validator ev)) (\<lambda>valid.
          op_then (op_guard (valid (rp_operation q) (rp_arguments q)) BExternalError) (\<lambda>_.
          op_then (op_get (stored_proofs digest)) (\<lambda>proofs.
          op_then (verified_approvals ev proofs digest (rp_requester q)) (\<lambda>prs.
          op_then (op_guard (rp_dry_run q \<or> required_approvals p \<le> length prs) BPermissionError) (\<lambda>_.
            op_return (p, now, prs))))))))))"

definition burn_attempt :: "broker_env \<Rightarrow> proposal \<Rightarrow> operation \<Rightarrow> unit broker_op" where
  "burn_attempt ev q p =
     (let digest = proposal_digest (ev_float ev) q in
      op_then (status_configured ev) (\<lambda>ok b.
        if \<not> ok \<or> digest \<in> set (bk_revoked_proposals b) \<or> dict_get (bk_attempts b) (rp_id q) \<noteq> None
          \<or> (high_impact p \<and> \<not> op_verifies p)
        then (b, Inl BPermissionError)
        else save_broker ev (b\<lparr>bk_attempts := dict_set (rp_id q) digest (bk_attempts b)\<rparr>)))"

definition not_before :: "rat \<Rightarrow> rat \<Rightarrow> unit broker_op" where
  "not_before t now b = (if now < t then (b\<lparr>bk_degraded := True\<rparr>, Inl BPermissionError) else (b, Inr ()))"

definition valid_at :: "proposal \<Rightarrow> rat \<Rightarrow> bool" where
  "valid_at q now \<longleftrightarrow> the (num_of (rp_created q)) \<le> now \<and> now < the (num_of (rp_expires q))"

definition recheck :: "broker_env \<Rightarrow> proposal \<Rightarrow> operation \<Rightarrow> rat \<Rightarrow> (rat \<times> principal list) broker_op" where
  "recheck ev q p admitted_at =
     (let digest = proposal_digest (ev_float ev) q in
      op_then (ensure_accepting ev) (\<lambda>_.
      op_then (broker_now ev) (\<lambda>dispatch_at.
      op_then (not_before admitted_at dispatch_at) (\<lambda>_.
      op_then (op_guard (valid_at q dispatch_at) BPermissionError) (\<lambda>_.
      op_then (op_get (\<lambda>b. dict_get (bk_attempts b) (rp_id q))) (\<lambda>burned.
      op_then (op_guard (burned = Some digest) BPermissionError) (\<lambda>_.
      op_then (status_configured ev) (\<lambda>ok.
      op_then (op_get bk_revoked_proposals) (\<lambda>revoked.
      op_then (op_guard (ok \<and> digest \<notin> set revoked) BPermissionError) (\<lambda>_.
      op_then (op_get (stored_proofs digest)) (\<lambda>proofs.
      op_then (verified_approvals ev proofs digest (rp_requester q)) (\<lambda>prs.
      op_then (broker_now ev) (\<lambda>final_at.
      op_then (not_before dispatch_at final_at) (\<lambda>_.
      op_then (op_guard (valid_at q final_at \<and> required_approvals p \<le> length prs \<and> list_all (\<lambda>r. final_at < pr_expires r) prs)
          BPermissionError) (\<lambda>_.
      op_then (ensure_accepting ev) (\<lambda>_. op_return (final_at, prs)))))))))))))))))"

text \<open>The handler call, recorded in the trace, then the outcome verifier.\<close>

definition call_handler :: "broker_env \<Rightarrow> proposal \<Rightarrow> operation \<Rightarrow> rat \<Rightarrow> principal list \<Rightarrow> ((string \<times> pyval) list) broker_op" where
  "call_handler ev q p t0 prs b =
     op_then (sense (ev_handler ev)) (\<lambda>h.
       case h (rp_operation q) (rp_arguments q) of
         HandlerRaised \<Rightarrow> op_raise BExternalError
       | HandlerNoMapping \<Rightarrow> op_raise BTypeError
       | HandlerReturned result \<Rightarrow> op_return result)
     (b\<lparr>bk_dispatched := bk_dispatched b @ [\<lparr>dp_id = rp_id q, dp_digest = proposal_digest (ev_float ev) q,
         dp_operation = p, dp_approvals = prs, dp_at = t0\<rparr>]\<rparr>)"

definition judge_outcome :: "broker_env \<Rightarrow> proposal \<Rightarrow> operation \<Rightarrow> (string \<times> pyval) list \<Rightarrow> string broker_op" where
  "judge_outcome ev q p result =
     (if \<not> op_verifies p then op_return ''completed-unverified''
      else op_then (sense (ev_outcome ev)) (\<lambda>v. case v (rp_operation q) (rp_arguments q) result of
        OutcomeRaised \<Rightarrow> op_raise BExternalError
      | OutcomeTrue \<Rightarrow> op_return ''completed''
      | OutcomeOther \<Rightarrow> op_return ''verification-failed''))"

definition make_receipt :: "broker_env \<Rightarrow> bytes \<Rightarrow> proposal \<Rightarrow> string \<Rightarrow> bool \<Rightarrow> string list \<Rightarrow> (string \<times> pyval) list \<Rightarrow> rat \<Rightarrow> receipt" where
  "make_receipt ev key q outcome executed approvals result now =
     (let r = \<lparr>rc_proposal = rp_id q, rc_digest = proposal_digest (ev_float ev) q, rc_operation = rp_operation q,
           rc_target = rp_target q, rc_outcome = outcome, rc_executed = executed, rc_approvals = approvals,
           rc_result = result, rc_recorded = PFloat (Fin now), rc_hmac = ''''\<rparr>
      in r\<lparr>rc_hmac := receipt_tag (ev_float ev) key r\<rparr>)"

definition store_receipt :: "broker_env \<Rightarrow> receipt \<Rightarrow> receipt broker_op" where
  "store_receipt ev r b =
     op_then (save_broker ev) (\<lambda>_. op_return r) (b\<lparr>bk_receipts := dict_set (rc_proposal r) r (bk_receipts b)\<rparr>)"

definition record_receipt :: "broker_env \<Rightarrow> proposal \<Rightarrow> string \<Rightarrow> bool \<Rightarrow> string list \<Rightarrow> (string \<times> pyval) list \<Rightarrow> receipt broker_op" where
  "record_receipt ev q outcome executed approvals result =
     op_then (op_guard (case canonical True (ev_float ev) (PDict result) of None \<Rightarrow> False | Some bs \<Rightarrow> length bs \<le> broker_max_bytes)
       BValueError) (\<lambda>_.
     op_then (broker_now ev) (\<lambda>now.
     op_then (op_get bk_key) (\<lambda>key.
       store_receipt ev (make_receipt ev key q outcome executed approvals result now))))"

definition preview :: "operation \<Rightarrow> (string \<times> pyval) list" where
  "preview p = [(''validated'', PBool True), (''risk'', PStr (risk_text (op_risk p))), (''rollback'', PStr (op_rollback p))]"

definition burned_and_checked :: "broker_env \<Rightarrow> proposal \<Rightarrow> operation \<Rightarrow> rat \<Rightarrow> (rat \<times> principal list) broker_op" where
  "burned_and_checked ev q p t0 = op_then (burn_attempt ev q p) (\<lambda>_. recheck ev q p t0)"

definition act :: "broker_env \<Rightarrow> proposal \<Rightarrow> operation \<Rightarrow> rat \<Rightarrow> (principal list \<times> (string \<times> pyval) list) broker_op" where
  "act ev q p t0 = op_then (burned_and_checked ev q p t0) (\<lambda>(final_at, prs).
     op_then (call_handler ev q p final_at prs) (\<lambda>result. op_return (prs, result)))"

definition run_proposal :: "broker_env \<Rightarrow> proposal \<Rightarrow> receipt broker_op" where
  "run_proposal ev q = op_then (admit ev q) (\<lambda>(p, t0, prs).
     if rp_dry_run q then record_receipt ev q ''previewed'' False (map pr_id prs) (preview p)
     else op_then (act ev q p t0) (\<lambda>(prs, result).
          op_then (judge_outcome ev q p result) (\<lambda>outcome.
            record_receipt ev q outcome True (map pr_id prs) result)))"

definition execute :: "broker_env \<Rightarrow> proposal \<Rightarrow> receipt broker_op" where
  "execute ev q = op_then (op_guard (proposal_ok (ev_float ev) q) BValueError) (\<lambda>_.
     admitted ev (op_then (existing_receipt ev q) (\<lambda>r. case r of
       Some r \<Rightarrow> op_return r
     | None \<Rightarrow> run_proposal ev q)))"

section \<open>What the stages leave unchanged\<close>

text \<open>Readings of the environment change the moment only, and may close or degrade the broker.\<close>

definition sensed :: "broker \<Rightarrow> broker \<Rightarrow> bool" where
  "sensed b b' \<longleftrightarrow> bk_key b' = bk_key b \<and> bk_identity b' = bk_identity b \<and> bk_operations b' = bk_operations b
     \<and> bk_approvals b' = bk_approvals b \<and> bk_receipts b' = bk_receipts b \<and> bk_attempts b' = bk_attempts b
     \<and> bk_revoked_proposals b' = bk_revoked_proposals b \<and> bk_revoked_keys b' = bk_revoked_keys b
     \<and> bk_revoked_subjects b' = bk_revoked_subjects b \<and> bk_active b' = bk_active b \<and> bk_durable b' = bk_durable b
     \<and> bk_lease b' = bk_lease b \<and> bk_files b' = bk_files b \<and> bk_dispatched b' = bk_dispatched b
     \<and> (bk_closing b \<longrightarrow> bk_closing b') \<and> (bk_degraded b \<longrightarrow> bk_degraded b')"

interpretation sensed: evolution sensed
  by unfold_locales (auto simp: sensed_def)

lemma sensed_sense: "evolves sensed (sense f)"
  by (simp add: evolves_def sense_def sensed_def)

lemma sensed_now: "evolves sensed (broker_now ev)"
  unfolding broker_now_def by (rule sensed.then_evolves [OF sensed_sense]) (simp add: sensed.unchanged split: option.split)

lemma sensed_is_closing: "evolves sensed (is_closing ev)"
  by (simp add: evolves_def is_closing_def sensed_def Let_def)

lemma sensed_accepting: "evolves sensed (ensure_accepting ev)"
  unfolding ensure_accepting_def by (rule sensed.then_evolves [OF sensed_is_closing]) (rule sensed.unchanged)

lemma sensed_status: "evolves sensed (status_configured ev)"
  unfolding evolves_def
proof
  fix b
  show "sensed b (fst (status_configured ev b))"
    by (simp add: status_configured_def is_closing_def op_then_def sensed_def Let_def)
qed

lemma sensed_not_before: "evolves sensed (not_before t now)"
  by (simp add: evolves_def not_before_def sensed_def)

lemma sensed_verify: "evolves sensed (verify_approval ev p digest who)"
  unfolding verify_approval_def
  by (intro sensed.then_evolves sensed_accepting sensed.unchanged)
    (auto split: option.split sum.split intro!: sensed.then_evolves sensed_now sensed_sense sensed.unchanged)

lemma sensed_verified_list: "evolves sensed (verified_list ev digest who ps)"
proof (induction ps)
  case Nil
  show ?case by (simp add: evolves_def sensed.refl)
next
  case (Cons p ps)
  show ?case
    unfolding evolves_def
  proof
    fix b
    obtain b1 r where v: "verify_approval ev p digest who b = (b1, r)" by fastforce
    note s = sensed.step [OF sensed_verify v]
    have t: "sensed b1 (fst (op_then (verified_list ev digest who ps) (\<lambda>prs. op_return (pr # prs)) b1))" for pr
      using sensed.then_evolves [OF Cons sensed.unchanged(3)] unfolding evolves_def by blast
    have u: "sensed b1 (fst (verified_list ev digest who ps b1))"
      using Cons unfolding evolves_def by blast
    show "sensed b (fst (verified_list ev digest who (p # ps) b))"
      using v s t u by (auto split: sum.split broker_error.split intro: sensed.trans)
  qed
qed

lemma sensed_verified: "evolves sensed (verified_approvals ev ps digest who)"
  unfolding verified_approvals_def
  by (rule sensed.then_evolves [OF sensed_verified_list]) (simp add: sensed.unchanged split: option.split)

lemmas sensed_parts = sensed_sense sensed_now sensed_is_closing sensed_accepting sensed_status sensed_not_before
  sensed_verified sensed.unchanged

lemma sensed_admit: "evolves sensed (admit ev q)"
  unfolding admit_def Let_def
  by (intro sensed.then_evolves sensed_parts) (auto split: option.split intro!: sensed.then_evolves sensed_parts)

lemma sensed_recheck: "evolves sensed (recheck ev q p t)"
  unfolding recheck_def Let_def by (intro sensed.then_evolves sensed_parts)

lemma sensed_judge: "evolves sensed (judge_outcome ev q p result)"
proof (cases "op_verifies p")
  case True
  have "evolves sensed (op_then (sense (ev_outcome ev)) (\<lambda>v. case v (rp_operation q) (rp_arguments q) result of
        OutcomeRaised \<Rightarrow> op_raise BExternalError
      | OutcomeTrue \<Rightarrow> op_return ''completed''
      | OutcomeOther \<Rightarrow> op_return ''verification-failed''))"
    by (intro sensed.then_evolves sensed_parts) (simp add: sensed.unchanged split: outcome_reply.split)
  with True show ?thesis
    by (simp add: evolves_def judge_outcome_def)
next
  case False
  then show ?thesis by (simp add: evolves_def judge_outcome_def sensed.refl)
qed

lemma sensed_existing: "evolves sensed (existing_receipt ev q)"
proof -
  have s: "evolves sensed (op_then (status_configured ev) (\<lambda>ok. if ok then op_return (Some r) else op_raise BPermissionError))" for r :: receipt
    by (intro sensed.then_evolves sensed_parts) (simp add: sensed.unchanged)
  then have "sensed b (fst (op_then (status_configured ev) (\<lambda>ok. if ok then op_return (Some r) else op_raise BPermissionError) b))" for r :: receipt and b
    by (simp only: evolves_def)
  then show ?thesis
    by (simp add: evolves_def existing_receipt_def sensed.refl split: option.split)
qed

section \<open>The invariant\<close>

text \<open>
  Every handler call so far was authorised, no proposal was handed to a handler twice, and the
  attempt of each is burned: in memory while the broker is open, and in the state file.
\<close>

definition authorised :: "dispatched \<Rightarrow> bool" where
  "authorised d \<longleftrightarrow> required_approvals (dp_operation d) \<le> length (dp_approvals d)
     \<and> distinct (map pr_id (dp_approvals d)) \<and> distinct (map pr_key (dp_approvals d))
     \<and> list_all (\<lambda>r. dp_at d < pr_expires r) (dp_approvals d) \<and> (high_impact (dp_operation d) \<longrightarrow> op_verifies (dp_operation d))"

text \<open>
  The invariant also watches a set of digests: they stay revoked, in memory and on file, and the
  handler calls made for them stay those given.
\<close>

type_synonym watch = "string set \<times> dispatched list"

definition watched_calls :: "watch \<Rightarrow> broker \<Rightarrow> bool" where
  "watched_calls w b \<longleftrightarrow> filter (\<lambda>d. dp_digest d \<in> fst w) (bk_dispatched b) = snd w"

abbreviation handled :: "broker \<Rightarrow> string list" where
  "handled b \<equiv> map dp_id (bk_dispatched b)"

definition file_covers :: "broker_env \<Rightarrow> watch \<Rightarrow> broker \<Rightarrow> bool" where
  "file_covers ev w b \<longleftrightarrow> (case bf_state (bk_files b) of
     None \<Rightarrow> bf_marker (bk_files b) = None \<longrightarrow> bk_dispatched b = [] \<and> fst w = {}
   | Some doc \<Rightarrow> (\<forall>r. load_document (ev_float ev) (bk_key b) doc = Some r \<longrightarrow>
       set (handled b) \<subseteq> set (dict_keys (br_attempts r)) \<and> fst w \<subseteq> set (br_revoked_proposals r)))"

definition trace_inv :: "broker_env \<Rightarrow> watch \<Rightarrow> broker \<Rightarrow> bool" where
  "trace_inv ev w b \<longleftrightarrow> distinct (handled b) \<and> list_all authorised (bk_dispatched b) \<and> watched_calls w b \<and> file_covers ev w b
     \<and> (bk_lease b \<noteq> None \<longrightarrow> bk_durable b) \<and> (\<not> bk_durable b \<longrightarrow> bk_dispatched b = [] \<and> fst w = {})"

definition burned_inv :: "broker_env \<Rightarrow> watch \<Rightarrow> broker \<Rightarrow> bool" where
  "burned_inv ev w b \<longleftrightarrow> trace_inv ev w b \<and> set (handled b) \<subseteq> set (dict_keys (bk_attempts b))
     \<and> fst w \<subseteq> set (bk_revoked_proposals b)"

definition broker_inv :: "broker_env \<Rightarrow> watch \<Rightarrow> broker \<Rightarrow> bool" where
  "broker_inv ev w b \<longleftrightarrow> trace_inv ev w b \<and> (bk_closing b
     \<or> set (handled b) \<subseteq> set (dict_keys (bk_attempts b)) \<and> fst w \<subseteq> set (bk_revoked_proposals b))"

definition keeps :: "broker_env \<Rightarrow> watch \<Rightarrow> broker \<Rightarrow> broker \<Rightarrow> bool" where
  "keeps ev w b b' \<longleftrightarrow> (burned_inv ev w b \<longrightarrow> burned_inv ev w b') \<and> (bk_closing b \<longrightarrow> bk_closing b')"

interpretation keeps: evolution "keeps ev w" for ev w
  by unfold_locales (auto simp: keeps_def)

lemma sensed_keeps: "sensed b b' \<Longrightarrow> keeps ev w b b'"
  by (simp add: keeps_def sensed_def burned_inv_def trace_inv_def watched_calls_def file_covers_def cong: option.case_cong)

lemma evolves_keeps: "evolves sensed f \<Longrightarrow> evolves (keeps ev w) f"
  by (auto simp: evolves_def sensed_keeps)

subsection \<open>What the state file says of the attempts\<close>

lemma all_some_map: "all_some (map Some xs) = Some xs"
  by (induction xs) auto

lemma all_some_iff: "all_some xs = Some ys \<longleftrightarrow> xs = map Some ys"
proof (induction xs arbitrary: ys rule: all_some.induct)
  case (3 x xs)
  then show ?case by (cases ys) auto
qed auto

lemma sort_key_map_prod: "sort_key fst (map (map_prod id h) d) = map (map_prod id h) (sort_key fst d)"
proof (induction d)
  case (Cons x d)
  have "insort_key fst (map_prod id h x) (map (map_prod id h) ys) = map (map_prod id h) (insort_key fst x ys)" for ys
    by (induction ys) auto
  with Cons show ?case by (simp only: list.map sort_key_simps)
qed simp

lemma map_values_prod: "map_values f d = map (map_prod id f) d"
  by (simp add: map_values_def map_prod_def)

lemma sort_key_values: "sort_key fst (map (map_prod id g) (map_values f d)) = map_values (\<lambda>v. g (f v)) (sort_key fst d)"
proof -
  have "map (map_prod id g) (map_values f d) = map (map_prod id (\<lambda>v. g (f v))) d"
    by (auto simp: map_values_def)
  then show ?thesis
    by (simp only: sort_key_map_prod map_values_prod)
qed

lemma read_map_values:
  assumes "\<And>k v. (k, v) \<in> set d \<Longrightarrow> f (g v) = Some (h v)"
  shows "read_values f (map_values g d) = Some (map_values h d)"
proof -
  have "map (\<lambda>(k, v). map_option (Pair k) (f v)) (map_values g d) = map Some (map_values h d)"
    using assms by (auto simp: map_values_def)
  then show ?thesis
    by (simp add: read_values_def all_some_map)
qed

lemma document_sorted:
  "json_sorted (broker_document flt b) =
     PDict [(''hmac'', PStr (state_tag flt (bk_key b) (state_core b))), (''records'', json_sorted (state_core b)), (''schema'', PStr broker_schema)]"
  by (simp add: broker_document_def)

lemma core_sorted:
  "json_sorted (state_core b) = PDict [
     (''approvals'', json_sorted (PDict (map_values (\<lambda>ps. PDict (map_values proof_items ps)) (bk_approvals b)))),
     (''attempts'', json_sorted (PDict (map_values PStr (bk_attempts b)))),
     (''receipts'', json_sorted (PDict (map_values receipt_items (bk_receipts b)))),
     (''revoked_keys'', PList (map PStr (sort (bk_revoked_keys b)))),
     (''revoked_proposals'', PList (map PStr (sort (bk_revoked_proposals b)))),
     (''revoked_subjects'', PList (map PStr (sort (bk_revoked_subjects b))))]"
  by (simp add: state_core_def comp_def)

lemma attempts_read:
  "Option.bind (items_of (json_sorted (PDict (map_values PStr d)))) (read_values str_of) = Some (sort_key fst d)"
proof -
  have "read_values str_of (map_values PStr (sort_key fst d)) = Some (map_values (\<lambda>v. v) (sort_key fst d))"
    by (rule read_map_values) (simp add: str_of_def)
  then show ?thesis
    by (simp add: items_of_def sort_key_values) (simp add: map_values_def)
qed

lemma strings_read: "strings_of (PList (map PStr xs)) = Some xs"
proof -
  have "map (str_of \<circ> PStr) xs = map Some xs"
    by (simp add: str_of_def)
  then show ?thesis
    by (simp add: strings_of_def all_some_map del: map_eq_conv)
qed

lemma read_records_core:
  assumes "read_records flt key (json_sorted (state_core b)) = Some r"
  shows "br_attempts r = sort_key fst (bk_attempts b) \<and> br_revoked_proposals r = sort (bk_revoked_proposals b)
    \<and> br_revoked_keys r = sort (bk_revoked_keys b) \<and> br_revoked_subjects r = sort (bk_revoked_subjects b)"
  using assms attempts_read [of "bk_attempts b"] strings_read
  by (auto simp: core_sorted read_records_def items_of_def split: option.splits if_splits)

lemma broker_load_saved:
  assumes "load_document flt key (json_sorted (broker_document flt b)) = Some r"
  shows "br_attempts r = sort_key fst (bk_attempts b) \<and> br_revoked_proposals r = sort (bk_revoked_proposals b)
    \<and> br_revoked_keys r = sort (bk_revoked_keys b) \<and> br_revoked_subjects r = sort (bk_revoked_subjects b)"
proof -
  have "read_records flt key (json_sorted (state_core b)) = Some r"
    using assms unfolding load_document_def document_sorted
    by (auto simp: items_of_def split: if_splits pyval.splits)
  then show ?thesis by (rule read_records_core)
qed

subsection \<open>The writing stages\<close>

lemma save_cases:
  assumes "save_broker ev b = (b', r)"
  obtains "\<not> bk_durable b" "b' = b" "r = Inr ()"
  | e where "r = Inl e" "sensed b b'"
  | "bk_durable b" "bk_lease b = Some True" "r = Inr ()"
    "b' = b\<lparr>bk_tick := Suc (bk_tick b), bk_files := (bk_files b)\<lparr>bf_state := Some (json_sorted (broker_document (ev_float ev) b))\<rparr>\<rparr>"
proof -
  note cases = that
  show ?thesis
  proof (cases "bk_durable b \<and> bk_lease b = Some True")
    case True
    show ?thesis
    proof (cases "canonical True (ev_float ev) (broker_document (ev_float ev) b)")
      case None
      with True assms show ?thesis
        by (intro cases(2)) (auto simp: save_broker_def sensed_def)
    next
      case (Some bs)
      show ?thesis
      proof (cases "length bs \<le> broker_state_bytes \<and> ev_write ev (bk_tick b)")
        case True
        with Some \<open>bk_durable b \<and> bk_lease b = Some True\<close> assms show ?thesis
          by (intro cases(3)) (auto simp: save_broker_def)
      next
        case False
        note unsaved = this
        show ?thesis
        proof (cases "length bs \<le> broker_state_bytes")
          case True
          with unsaved Some \<open>bk_durable b \<and> bk_lease b = Some True\<close> assms show ?thesis
            by (intro cases(2) [of BIOError]) (auto simp: save_broker_def sensed_def)
        next
          case False
          with Some \<open>bk_durable b \<and> bk_lease b = Some True\<close> assms show ?thesis
            by (intro cases(2) [of BValueError]) (auto simp: save_broker_def sensed_def)
        qed
      qed
    qed
  next
    case False
    with assms show ?thesis
      by (cases "bk_durable b") (auto simp: save_broker_def sensed.refl intro: cases(1,2))
  qed
qed

lemma file_covers_saved:
  assumes "set (handled b) \<subseteq> set (dict_keys (bk_attempts b))" and "fst w \<subseteq> set (bk_revoked_proposals b)" and "bk_key b' = bk_key b" and "bk_dispatched b' = bk_dispatched b"
    and "bf_state (bk_files b') = Some (json_sorted (broker_document (ev_float ev) b))"
  shows "file_covers ev w b'"
  using assms broker_load_saved [of "ev_float ev" "bk_key b" b] by (auto simp: file_covers_def)

lemma save_keeps: "evolves (keeps ev w) (save_broker ev)"
  unfolding evolves_def
proof
  fix b
  obtain b' r where s: "save_broker ev b = (b', r)" by fastforce
  then show "keeps ev w b (fst (save_broker ev b))"
  proof (cases rule: save_cases)
    case 3
    have "burned_inv ev w b'" if "burned_inv ev w b"
      using that 3 file_covers_saved [of b w b' ev] by (auto simp: burned_inv_def trace_inv_def watched_calls_def)
    with 3 s show ?thesis by (simp add: keeps_def)
  qed (use s in \<open>auto simp: keeps.refl sensed_keeps\<close>)
qed

text \<open>A change of memory that leaves the trace, the files and the lease alone, and loses no attempt.\<close>

definition updated :: "broker \<Rightarrow> broker \<Rightarrow> bool" where
  "updated b b' \<longleftrightarrow> bk_key b' = bk_key b \<and> bk_durable b' = bk_durable b \<and> bk_files b' = bk_files b
     \<and> (bk_lease b' \<noteq> None \<longrightarrow> bk_lease b \<noteq> None) \<and> bk_dispatched b' = bk_dispatched b
     \<and> set (dict_keys (bk_attempts b)) \<subseteq> set (dict_keys (bk_attempts b'))
     \<and> set (bk_revoked_proposals b) \<subseteq> set (bk_revoked_proposals b') \<and> (bk_closing b \<longrightarrow> bk_closing b')"

lemma updated_burned:
  assumes "updated b b'" and "set (handled b) \<subseteq> set (dict_keys (bk_attempts b))" "fst w \<subseteq> set (bk_revoked_proposals b)"
  shows "set (handled b') \<subseteq> set (dict_keys (bk_attempts b'))" and "fst w \<subseteq> set (bk_revoked_proposals b')"
proof -
  have u: "handled b' = handled b" "set (dict_keys (bk_attempts b)) \<subseteq> set (dict_keys (bk_attempts b'))"
    "set (bk_revoked_proposals b) \<subseteq> set (bk_revoked_proposals b')"
    using assms(1) by (simp_all add: updated_def)
  show "set (handled b') \<subseteq> set (dict_keys (bk_attempts b'))"
    unfolding u(1) by (rule subset_trans [OF assms(2) u(2)])
  show "fst w \<subseteq> set (bk_revoked_proposals b')"
    by (rule subset_trans [OF assms(3) u(3)])
qed

lemma updated_keeps: "updated b b' \<Longrightarrow> keeps ev w b b'"
proof -
  assume u: "updated b b'"
  then have "file_covers ev w b' = file_covers ev w b"
    by (cases "bf_state (bk_files b)") (simp_all add: updated_def file_covers_def)
  with u have "trace_inv ev w b \<Longrightarrow> trace_inv ev w b'"
    by (simp add: trace_inv_def watched_calls_def updated_def)
  moreover have "bk_closing b \<longrightarrow> bk_closing b'"
    using u by (simp add: updated_def)
  ultimately show ?thesis
    using updated_burned [OF u] unfolding keeps_def burned_inv_def by blast
qed

lemma keeps_after:
  assumes "evolves (keeps ev w) f" and "\<And>b. updated b (h b)"
  shows "evolves (keeps ev w) (\<lambda>b. f (h b))"
proof (rule evolvesI)
  fix b
  show "keeps ev w b (fst (f (h b)))"
    by (rule keeps.trans [OF updated_keeps [OF assms(2)]]) (rule evolvesD [OF assms(1)])
qed

lemma finish_updated: "updated b (fst (finish_close ev b))"
  by (auto simp: finish_close_def updated_def Let_def split: option.split)

lemma updated_trans: "updated a b \<Longrightarrow> updated b c \<Longrightarrow> updated a c"
  by (auto simp: updated_def)

lemma retire_updated: "updated b (retire ev b)"
proof -
  define b1 where "b1 = fst (is_closing ev (b\<lparr>bk_active := bk_active b - 1\<rparr>))"
  have "updated b b1"
    by (simp add: b1_def is_closing_def updated_def Let_def)
  moreover have "retire ev b = (if bk_closing b1 \<and> bk_active b1 = 0 then fst (finish_close ev b1) else b1)"
    by (simp only: retire_def Let_def b1_def)
  ultimately show ?thesis
    using updated_trans [OF _ finish_updated] by simp
qed

lemma admitted_keeps:
  assumes "evolves (keeps ev w) f"
  shows "evolves (keeps ev w) (admitted ev f)"
proof -
  have "keeps ev w b (retire ev (fst (f (b\<lparr>bk_active := Suc (bk_active b)\<rparr>))))" for b
  proof -
    have "keeps ev w b (b\<lparr>bk_active := Suc (bk_active b)\<rparr>)"
      by (rule updated_keeps) (simp add: updated_def)
    moreover have "keeps ev w (b\<lparr>bk_active := Suc (bk_active b)\<rparr>) (fst (f (b\<lparr>bk_active := Suc (bk_active b)\<rparr>)))"
      using assms unfolding evolves_def by blast
    ultimately show ?thesis
      using updated_keeps [OF retire_updated] keeps.trans by blast
  qed
  then have "evolves (keeps ev w) (\<lambda>b. case f (b\<lparr>bk_active := Suc (bk_active b)\<rparr>) of (b', r) \<Rightarrow> (retire ev b', r))"
    unfolding evolves_def by (simp only: split_def fst_conv simp_thms)
  then show ?thesis
    unfolding admitted_def by (intro keeps.then_evolves evolves_keeps [OF sensed_accepting])
qed

lemmas keeps_parts = evolves_keeps [OF sensed_accepting] evolves_keeps [OF sensed_now] evolves_keeps [OF sensed_verified]
  evolves_keeps [OF sensed_verify] evolves_keeps [OF sensed_status] keeps.unchanged save_keeps

lemma register_keeps: "evolves (keeps ev w) (register_operation ev p)"
  unfolding register_operation_def
proof (rule admitted_keeps)
  show "evolves (keeps ev w) (\<lambda>b. if dict_get (bk_operations b) (op_id p) \<noteq> None then (b, Inl BValueError)
     else (b\<lparr>bk_operations := dict_set (op_id p) p (bk_operations b)\<rparr>, Inr ()))"
    by (simp add: evolves_def keeps.refl updated_keeps updated_def)
qed

lemma revoke_credential_keeps: "evolves (keeps ev w) (revoke_credential ev cid)"
proof -
  have "evolves (keeps ev w) (admitted ev (\<lambda>b. save_broker ev (b\<lparr>bk_revoked_keys := List.insert k (bk_revoked_keys b)\<rparr>)))" for k
    by (rule admitted_keeps, rule keeps_after [OF save_keeps]) (simp add: updated_def)
  then have k: "keeps ev w b (fst (admitted ev (\<lambda>b. save_broker ev (b\<lparr>bk_revoked_keys := List.insert k (bk_revoked_keys b)\<rparr>)) b))" for k b
    by (rule evolvesD)
  show ?thesis
    unfolding evolves_def revoke_credential_def by (simp add: k keeps.refl split: option.split)
qed

lemma revoke_proposal_keeps: "evolves (keeps ev w) (revoke_proposal ev digest)"
proof -
  have "evolves (keeps ev w) (admitted ev (\<lambda>b. save_broker ev (b\<lparr>bk_revoked_proposals := List.insert digest (bk_revoked_proposals b)\<rparr>)))"
    by (rule admitted_keeps, rule keeps_after [OF save_keeps]) (auto simp: updated_def)
  then have k: "keeps ev w b (fst (admitted ev (\<lambda>b. save_broker ev (b\<lparr>bk_revoked_proposals := List.insert digest (bk_revoked_proposals b)\<rparr>)) b))" for b
    by (rule evolvesD)
  show ?thesis
    unfolding evolves_def revoke_proposal_def by (simp add: k keeps.refl)
qed

lemma store_proof_keeps: "evolves (keeps ev w) (store_proof ev digest who p)"
proof (rule evolvesI)
  fix b :: broker
  define known where "known = dict_get_or (bk_approvals b) digest []"
  define b1 where "b1 = b\<lparr>bk_approvals := dict_set digest (dict_set (sp_credential p) p known) (bk_approvals b)\<rparr>"
  define rest where "rest = op_then (save_broker ev) (\<lambda>_ b.
      op_then (verified_approvals ev (stored_proofs digest b) digest who) (\<lambda>prs. op_return (length prs)) b)"
  have "evolves (keeps ev w) (\<lambda>b. op_then (verified_approvals ev (stored_proofs digest b) digest who) (\<lambda>prs. op_return (length prs)) b)"
  proof (rule evolvesI)
    fix b
    show "keeps ev w b (fst (op_then (verified_approvals ev (stored_proofs digest b) digest who) (\<lambda>prs. op_return (length prs)) b))"
      by (rule evolvesD [OF keeps.then_evolves]) (rule keeps_parts)+
  qed
  then have "evolves (keeps ev w) rest"
    unfolding rest_def by (rule keeps.then_evolves [OF save_keeps])
  then have "keeps ev w b1 (fst (rest b1))"
    by (rule evolvesD)
  moreover have "keeps ev w b b1"
    by (rule updated_keeps) (simp add: b1_def updated_def)
  ultimately have "keeps ev w b (fst (rest b1))"
    by (metis keeps.trans)
  then show "keeps ev w b (fst (store_proof ev digest who p b))"
    unfolding store_proof_def Let_def known_def [symmetric] b1_def [symmetric] rest_def [symmetric]
    by (simp add: keeps.refl)
qed

lemma approve_keeps: "evolves (keeps ev w) (approve ev q p)"
  unfolding approve_def Let_def
  by (intro keeps.then_evolves keeps_parts admitted_keeps [OF store_proof_keeps])

lemma store_receipt_keeps: "evolves (keeps ev w) (store_receipt ev r)"
proof -
  have "evolves (keeps ev w) (op_then (save_broker ev) (\<lambda>_. op_return r))"
    by (intro keeps.then_evolves keeps_parts)
  then show ?thesis
    unfolding store_receipt_def by (rule keeps_after) (simp add: updated_def)
qed

lemma record_keeps: "evolves (keeps ev w) (record_receipt ev q outcome executed approvals result)"
  unfolding record_receipt_def by (intro keeps.then_evolves keeps_parts store_receipt_keeps)

text \<open>The burn, and what holds once the checks after it have passed.\<close>

lemma burn_keeps: "evolves (keeps ev w) (burn_attempt ev q p)"
proof -
  have "keeps ev w b (fst (save_broker ev (b\<lparr>bk_attempts := dict_set (rp_id q) d (bk_attempts b)\<rparr>)))" for b d
    by (rule keeps.trans [OF updated_keeps evolvesD [OF save_keeps]]) (auto simp: updated_def)
  then show ?thesis
    unfolding burn_attempt_def Let_def
    by (intro keeps.then_evolves [OF evolves_keeps [OF sensed_status]] evolvesI) (simp add: keeps.refl)
qed

lemma status_lease: "status_configured ev b = (b', Inr True) \<Longrightarrow> bk_lease b = Some True"
  by (auto simp: status_configured_def is_closing_def op_then_def Let_def)

lemma burn_success:
  assumes "burn_attempt ev q p b = (b', Inr u)" and "burned_inv ev w b"
  shows "burned_inv ev w b'" and "rp_id q \<notin> set (dict_keys (bk_attempts b))" and "bk_dispatched b' = bk_dispatched b"
    and "bk_attempts b' = dict_set (rp_id q) (proposal_digest (ev_float ev) q) (bk_attempts b)"
    and "\<exists>doc. bf_state (bk_files b') = Some doc \<and> (\<forall>r. load_document (ev_float ev) (bk_key b') doc = Some r
      \<longrightarrow> rp_id q \<in> set (dict_keys (br_attempts r)))"
    and "high_impact p \<longrightarrow> op_verifies p" and "bk_durable b'"
    and "bk_operations b' = bk_operations b" and "bk_approvals b' = bk_approvals b" and "bk_identity b' = bk_identity b"
    and "bk_revoked_proposals b' = bk_revoked_proposals b" and "bk_revoked_keys b' = bk_revoked_keys b"
    and "bk_revoked_subjects b' = bk_revoked_subjects b"
    and "proposal_digest (ev_float ev) q \<notin> set (bk_revoked_proposals b)"
proof -
  let ?digest = "proposal_digest (ev_float ev) q"
  obtain b1 ok where s: "status_configured ev b = (b1, Inr ok)"
    and rest: "(if \<not> ok \<or> ?digest \<in> set (bk_revoked_proposals b1) \<or> dict_get (bk_attempts b1) (rp_id q) \<noteq> None
          \<or> (high_impact p \<and> \<not> op_verifies p)
        then (b1, Inl BPermissionError)
        else save_broker ev (b1\<lparr>bk_attempts := dict_set (rp_id q) ?digest (bk_attempts b1)\<rparr>)) = (b', Inr u)"
    using assms(1) unfolding burn_attempt_def Let_def by (auto simp: op_then_Inr_iff simp del: not_None_eq)
  have same: "sensed b b1"
    by (rule sensed.step [OF sensed_status s])
  have checks: "ok" "?digest \<notin> set (bk_revoked_proposals b1)" "dict_get (bk_attempts b1) (rp_id q) = None" "high_impact p \<longrightarrow> op_verifies p"
    and save: "save_broker ev (b1\<lparr>bk_attempts := dict_set (rp_id q) ?digest (bk_attempts b1)\<rparr>) = (b', Inr u)"
    using rest by (auto split: if_splits)
  define b2 where "b2 = b1\<lparr>bk_attempts := dict_set (rp_id q) ?digest (bk_attempts b1)\<rparr>"
  have "bk_lease b = Some True"
    using s checks(1) by (simp add: status_lease)
  with assms(2) same have durable: "bk_durable b2"
    by (simp add: burned_inv_def trace_inv_def sensed_def b2_def)
  define doc where "doc = json_sorted (broker_document (ev_float ev) b2)"
  from save [folded b2_def] durable
  have b': "b' = b2\<lparr>bk_tick := Suc (bk_tick b2), bk_files := (bk_files b2)\<lparr>bf_state := Some doc\<rparr>\<rparr>"
  proof (cases rule: save_cases)
    case 3
    show ?thesis by (simp only: 3(4) doc_def)
  next
    case 1
    from 1(1) durable show ?thesis ..
  next
    case (2 e)
    from 2(1) show ?thesis by (rule sum.distinct [THEN notE, rotated])
  qed
  show "burned_inv ev w b'"
    using evolvesD [OF burn_keeps, of ev w b q p] assms by (simp add: keeps_def)
  show "rp_id q \<notin> set (dict_keys (bk_attempts b))"
    using checks(3) same by (metis dict_get_keys sensed_def)
  have f: "bk_dispatched b1 = bk_dispatched b" "bk_attempts b1 = bk_attempts b" "bk_operations b1 = bk_operations b"
    "bk_approvals b1 = bk_approvals b" "bk_identity b1 = bk_identity b" "bk_revoked_proposals b1 = bk_revoked_proposals b"
    "bk_revoked_keys b1 = bk_revoked_keys b" "bk_revoked_subjects b1 = bk_revoked_subjects b"
    using same by (simp_all add: sensed_def)
  show "bk_durable b'"
    using durable by (simp add: b')
  show "bk_dispatched b' = bk_dispatched b" "bk_attempts b' = dict_set (rp_id q) ?digest (bk_attempts b)"
    "bk_operations b' = bk_operations b" "bk_approvals b' = bk_approvals b"
    "bk_identity b' = bk_identity b" "bk_revoked_proposals b' = bk_revoked_proposals b" "bk_revoked_keys b' = bk_revoked_keys b"
    "bk_revoked_subjects b' = bk_revoked_subjects b"
    by (simp_all add: b' b2_def f)
  show "high_impact p \<longrightarrow> op_verifies p" "?digest \<notin> set (bk_revoked_proposals b)"
    using checks(2,4) by (simp_all only: f simp_thms)
  have "rp_id q \<in> set (dict_keys (br_attempts r))"
    if "load_document (ev_float ev) (bk_key b') doc = Some r" for r
  proof -
    have "bk_key b' = bk_key b2" by (simp add: b')
    with broker_load_saved [of "ev_float ev" "bk_key b2" b2 r] that [unfolded doc_def] have "br_attempts r = sort_key fst (bk_attempts b2)"
      by simp
    then have "set (dict_keys (br_attempts r)) = set (dict_keys (bk_attempts b2))"
      by simp
    then show ?thesis
      by (simp add: b2_def)
  qed
  then show "\<exists>doc. bf_state (bk_files b') = Some doc \<and> (\<forall>r. load_document (ev_float ev) (bk_key b') doc = Some r
      \<longrightarrow> rp_id q \<in> set (dict_keys (br_attempts r)))"
    by (simp add: b')
qed

lemma verified_approvals_Inr:
  "verified_approvals ev ps digest who b = (b', Inr prs) \<Longrightarrow> \<exists>qs. verified_list ev digest who ps b = (b', Inr qs) \<and> independent_principals qs = Some prs"
  by (auto simp: verified_approvals_def op_then_Inr_iff split: option.splits)

text \<open>What a passed recheck has established.\<close>

lemma recheck_success:
  assumes "recheck ev q p t0 b = (b', Inr (t, prs))"
  shows "valid_at q t" and "required_approvals p \<le> length prs" and "list_all (\<lambda>r. t < pr_expires r) prs"
    and "\<exists>qs b1 b2. independent_principals qs = Some prs \<and> sensed b b1
      \<and> verified_list ev (proposal_digest (ev_float ev) q) (rp_requester q) (stored_proofs (proposal_digest (ev_float ev) q) b) b1 = (b2, Inr qs)"
    and "proposal_digest (ev_float ev) q \<notin> set (bk_revoked_proposals b)"
proof -
  let ?digest = "proposal_digest (ev_float ev) q"
  obtain b1 b2 b3 b4 b5 b6 b7 b8 d
    where c: "ensure_accepting ev b = (b1, Inr ())" "broker_now ev b1 = (b2, Inr d)" "not_before t0 d b2 = (b3, Inr ())"
      "status_configured ev b3 = (b4, Inr True)" "?digest \<notin> set (bk_revoked_proposals b4)"
      "verified_approvals ev (stored_proofs ?digest b4) ?digest (rp_requester q) b4 = (b5, Inr prs)"
      "broker_now ev b5 = (b6, Inr t)" "not_before d t b6 = (b7, Inr ())"
      "valid_at q t" "required_approvals p \<le> length prs" "list_all (\<lambda>r. t < pr_expires r) prs"
    using assms unfolding recheck_def Let_def
    by (clarsimp simp: op_then_Inr_iff)
  show "valid_at q t" "required_approvals p \<le> length prs" "list_all (\<lambda>r. t < pr_expires r) prs"
    by fact+
  have s: "sensed b b4"
    using sensed.step [OF sensed_accepting c(1)] sensed.step [OF sensed_now c(2)] sensed.step [OF sensed_not_before c(3)]
      sensed.step [OF sensed_status c(4)] sensed.trans by blast
  then have "stored_proofs ?digest b4 = stored_proofs ?digest b" "bk_revoked_proposals b4 = bk_revoked_proposals b"
    by (simp_all add: sensed_def stored_proofs_def)
  with c(5) verified_approvals_Inr [OF c(6)] s
  show "\<exists>qs b1 b2. independent_principals qs = Some prs \<and> sensed b b1
      \<and> verified_list ev ?digest (rp_requester q) (stored_proofs ?digest b) b1 = (b2, Inr qs)"
    and "?digest \<notin> set (bk_revoked_proposals b)"
    by auto
qed

lemma call_handler_trace:
  "fst (call_handler ev q p t prs b) = b\<lparr>bk_tick := Suc (bk_tick b), bk_dispatched := bk_dispatched b @
     [\<lparr>dp_id = rp_id q, dp_digest = proposal_digest (ev_float ev) q, dp_operation = p, dp_approvals = prs, dp_at = t\<rparr>]\<rparr>"
  by (simp add: call_handler_def op_then_def sense_def split: handler_reply.split)

lemma burned_and_checked_Inr:
  assumes "burned_and_checked ev q p t0 b = (b', Inr (t, prs))"
  obtains b1 where "burn_attempt ev q p b = (b1, Inr ())" "recheck ev q p t0 b1 = (b', Inr (t, prs))"
  using assms by (auto simp: burned_and_checked_def op_then_Inr_iff)

lemma burned_checked_keeps: "evolves (keeps ev w) (burned_and_checked ev q p t0)"
  unfolding burned_and_checked_def by (intro keeps.then_evolves burn_keeps evolves_keeps sensed_recheck)

lemma dispatch_inv:
  assumes "burned_and_checked ev q p t0 b = (b', Inr (t, prs))" and "burned_inv ev w b"
  shows "burned_inv ev w (fst (call_handler ev q p t prs b'))"
proof -
  from burned_and_checked_Inr [OF assms(1)] obtain b1
    where burn: "burn_attempt ev q p b = (b1, Inr ())" and re: "recheck ev q p t0 b1 = (b', Inr (t, prs))" .
  note bs = burn_success [OF burn assms(2)]
  note rs = recheck_success [OF re]
  have same: "sensed b1 b'"
    by (rule sensed.step [OF sensed_recheck re])
  obtain qs where "independent_principals qs = Some prs"
    using rs(4) by blast
  note ind = independent_members [OF this]
  have new: "rp_id q \<notin> set (handled b)"
    using bs(2) assms(2) by (auto simp: burned_inv_def)
  define d where "d = \<lparr>dp_id = rp_id q, dp_digest = proposal_digest (ev_float ev) q, dp_operation = p, dp_approvals = prs, dp_at = t\<rparr>"
  have auth: "authorised d"
    using rs(2,3) ind bs(6) by (simp add: authorised_def d_def)
  have b1: "burned_inv ev w b1" "bk_dispatched b1 = bk_dispatched b" "rp_id q \<in> set (dict_keys (bk_attempts b1))" "bk_durable b1"
    using bs(1,3,4,7) by simp_all
  obtain doc where doc: "bf_state (bk_files b1) = Some doc"
    "\<forall>r. load_document (ev_float ev) (bk_key b1) doc = Some r \<longrightarrow> rp_id q \<in> set (dict_keys (br_attempts r))"
    using bs(5) by blast
  define b2 where "b2 = fst (call_handler ev q p t prs b')"
  have f: "bk_dispatched b2 = bk_dispatched b @ [d]" "bk_files b2 = bk_files b1" "bk_key b2 = bk_key b1"
    "bk_attempts b2 = bk_attempts b1" "bk_durable b2" "bk_lease b2 = bk_lease b1" "bk_revoked_proposals b2 = bk_revoked_proposals b"
    using same b1(2,4) bs(11) by (simp_all add: b2_def call_handler_trace sensed_def d_def)
  have "file_covers ev w b1"
    using b1(1) by (simp add: burned_inv_def trace_inv_def)
  with doc b1(2) have "file_covers ev w b2"
    by (auto simp: file_covers_def f d_def)
  moreover have "distinct (handled b2)" "list_all authorised (bk_dispatched b2)" "set (handled b2) \<subseteq> set (dict_keys (bk_attempts b2))"
    using b1 new auth by (auto simp: f d_def burned_inv_def trace_inv_def)
  moreover have "fst w \<subseteq> set (bk_revoked_proposals b)" "watched_calls w b"
    using assms(2) by (simp_all add: burned_inv_def trace_inv_def)
  with rs(5) bs(11) have "watched_calls w b2" "fst w \<subseteq> set (bk_revoked_proposals b2)"
    by (auto simp: watched_calls_def f d_def)
  ultimately have "burned_inv ev w b2"
    using f(5) by (simp add: burned_inv_def trace_inv_def)
  then show ?thesis
    by (simp only: b2_def)
qed

lemma call_closing: "bk_closing (fst (call_handler ev q p t prs b)) = bk_closing b"
  by (simp add: call_handler_trace)

lemma act_keeps: "evolves (keeps ev w) (act ev q p t0)"
proof (rule evolvesI)
  fix b
  obtain b1 r where c: "burned_and_checked ev q p t0 b = (b1, r)" by fastforce
  have k: "keeps ev w b b1"
    using evolvesD [OF burned_checked_keeps, of ev w b q p t0] by (simp add: c)
  show "keeps ev w b (fst (act ev q p t0 b))"
  proof (cases r)
    case (Inl e)
    with c k show ?thesis by (simp add: act_def)
  next
    case (Inr tp)
    obtain t prs where tp: "tp = (t, prs)" by fastforce
    have "fst (act ev q p t0 b) = fst (call_handler ev q p t prs b1)"
      using c Inr tp by (simp add: act_def op_then_def split: prod.split sum.split)
    moreover have "keeps ev w b (fst (call_handler ev q p t prs b1))"
      using dispatch_inv [of ev q p t0 b b1 t prs] c Inr tp k call_closing by (simp add: keeps_def)
    ultimately show ?thesis by simp
  qed
qed

lemma run_proposal_keeps: "evolves (keeps ev w) (run_proposal ev q)"
  unfolding run_proposal_def
  by (rule keeps.then_evolves [OF evolves_keeps [OF sensed_admit]])
    (auto intro!: keeps.then_evolves act_keeps evolves_keeps [OF sensed_judge] record_keeps split: prod.split)

lemma execute_keeps: "evolves (keeps ev w) (execute ev q)"
  unfolding execute_def
  by (intro keeps.then_evolves keeps.unchanged admitted_keeps evolves_keeps [OF sensed_existing])
    (simp add: keeps.unchanged run_proposal_keeps split: option.split)

section \<open>Runs with crashes and restarts\<close>

text \<open>
  A crash loses the memory and keeps the files; the broker of the next process is opened on them,
  under an enrollment of its host.  An execution may be cut off after each of its effects: after
  the burn is written, after the checks, and after the handler call.  A constructor that raises
  leaves no broker, which is a closed one here.
\<close>

datatype stage = AfterBurn | AfterChecks | AfterCall

datatype broker_event =
  Register operation
| Approve proposal signed_proof
| Execute proposal
| RevokeCredential string
| RevokeProposal string
| Close pyval bool
| Restart "verifier option"
| Interrupted stage proposal "verifier option"

definition restart :: "broker_env \<Rightarrow> verifier option \<Rightarrow> broker \<Rightarrow> broker" where
  "restart ev identity b =
     (case open_broker ev (bk_key b) identity (if bk_durable b then Some (bk_files b) else None) (bk_tick b) (bk_dispatched b) of
        (b', Inr _) \<Rightarrow> b'
      | (b', Inl _) \<Rightarrow> b'\<lparr>bk_closing := True\<rparr>)"

definition execute_until :: "broker_env \<Rightarrow> stage \<Rightarrow> proposal \<Rightarrow> unit broker_op" where
  "execute_until ev stage q =
     op_then (op_guard (proposal_ok (ev_float ev) q) BValueError) (\<lambda>_.
     op_then (ensure_accepting ev) (\<lambda>_.
     op_then (existing_receipt ev q) (\<lambda>r. case r of
       Some r \<Rightarrow> op_return ()
     | None \<Rightarrow> op_then (admit ev q) (\<lambda>(p, t0, prs).
         if rp_dry_run q then op_return ()
         else case stage of
           AfterBurn \<Rightarrow> burn_attempt ev q p
         | AfterChecks \<Rightarrow> op_then (burned_and_checked ev q p t0) (\<lambda>_. op_return ())
         | AfterCall \<Rightarrow> op_then (act ev q p t0) (\<lambda>_. op_return ())))))"

primrec broker_step :: "broker_env \<Rightarrow> broker \<Rightarrow> broker_event \<Rightarrow> broker" where
  "broker_step ev b (Register p) = (if operation_ok p then fst (register_operation ev p b) else b)"
| "broker_step ev b (Approve q p) = fst (approve ev q p b)"
| "broker_step ev b (Execute q) = fst (execute ev q b)"
| "broker_step ev b (RevokeCredential cid) = fst (revoke_credential ev cid b)"
| "broker_step ev b (RevokeProposal d) = fst (revoke_proposal ev d b)"
| "broker_step ev b (Close timeout acquired) = fst (close_broker ev timeout acquired b)"
| "broker_step ev b (Restart identity) = restart ev identity b"
| "broker_step ev b (Interrupted stage q identity) = restart ev identity (fst (execute_until ev stage q b))"

text \<open>A closing broker refuses every call at its first poll.\<close>

lemma closing_refuses: "bk_closing b \<Longrightarrow> ensure_accepting ev b = (b\<lparr>bk_tick := Suc (bk_tick b)\<rparr>, Inl BPermissionError)"
  by (cases b) (simp add: ensure_accepting_def op_then_def is_closing_def op_guard_def)

lemma closing_admitted: "bk_closing b \<Longrightarrow> admitted ev f b = (b\<lparr>bk_tick := Suc (bk_tick b)\<rparr>, Inl BPermissionError)"
  by (simp add: admitted_def closing_refuses)

lemma closing_verify: "bk_closing b \<Longrightarrow> verify_approval ev p d who b = (b\<lparr>bk_tick := Suc (bk_tick b)\<rparr>, Inl BPermissionError)"
  by (simp add: verify_approval_def closing_refuses)

definition held_off :: "broker \<Rightarrow> broker \<Rightarrow> bool" where
  "held_off b b' \<longleftrightarrow> (\<exists>n. b' = b\<lparr>bk_tick := n\<rparr>)"

lemma held_off_intros: "held_off b b" "held_off b (b\<lparr>bk_tick := n\<rparr>)"
  by (auto simp: held_off_def intro: exI [of _ "bk_tick b"])

lemma closing_held_off:
  assumes "bk_closing b"
  shows "held_off b (fst (register_operation ev p b))" and "held_off b (fst (approve ev q pr b))" and "held_off b (fst (execute ev q b))"
    and "held_off b (fst (revoke_credential ev cid b))" and "held_off b (fst (revoke_proposal ev d b))"
    and "held_off b (fst (execute_until ev stage q b))"
proof -
  show "held_off b (fst (register_operation ev p b))"
    by (simp add: register_operation_def closing_admitted assms held_off_intros)
  show "held_off b (fst (approve ev q pr b))"
    by (cases "proposal_ok (ev_float ev) q") (simp_all add: approve_def Let_def op_then_def op_guard_def closing_verify assms held_off_intros)
  show "held_off b (fst (execute ev q b))"
    by (cases "proposal_ok (ev_float ev) q") (simp_all add: execute_def op_then_def op_guard_def closing_admitted assms held_off_intros)
  show "held_off b (fst (revoke_credential ev cid b))"
    by (simp add: revoke_credential_def closing_admitted assms held_off_intros split: option.split)
  show "held_off b (fst (revoke_proposal ev d b))"
    by (simp add: revoke_proposal_def closing_admitted assms held_off_intros)
  show "held_off b (fst (execute_until ev stage q b))"
    by (cases "proposal_ok (ev_float ev) q") (simp_all add: execute_until_def op_then_def op_guard_def closing_refuses assms held_off_intros)
qed

lemma updated_trace: "updated b b' \<Longrightarrow> trace_inv ev w b \<Longrightarrow> trace_inv ev w b'"
proof -
  assume u: "updated b b'" and t: "trace_inv ev w b"
  then have "file_covers ev w b' = file_covers ev w b"
    by (cases "bf_state (bk_files b)") (simp_all add: updated_def file_covers_def)
  with u t show ?thesis
    by (simp add: trace_inv_def watched_calls_def updated_def)
qed

lemma updated_inv: "updated b b' \<Longrightarrow> broker_inv ev w b \<Longrightarrow> broker_inv ev w b'"
proof -
  assume u: "updated b b'" and i: "broker_inv ev w b"
  then have "trace_inv ev w b'"
    by (simp add: broker_inv_def updated_trace)
  moreover have "bk_closing b' \<or> set (handled b') \<subseteq> set (dict_keys (bk_attempts b')) \<and> fst w \<subseteq> set (bk_revoked_proposals b')"
  proof (cases "bk_closing b")
    case True
    with u show ?thesis by (simp add: updated_def)
  next
    case False
    with i have "set (handled b) \<subseteq> set (dict_keys (bk_attempts b))" "fst w \<subseteq> set (bk_revoked_proposals b)"
      by (simp_all add: broker_inv_def)
    from updated_burned [OF u this] show ?thesis by blast
  qed
  ultimately show ?thesis
    by (simp add: broker_inv_def)
qed

lemma held_off_inv: "held_off b b' \<Longrightarrow> broker_inv ev w b \<Longrightarrow> broker_inv ev w b'"
  by (rule updated_inv) (auto simp: held_off_def updated_def)

text \<open>An operation that keeps the burned invariant and is held off by a closing broker keeps the invariant.\<close>

lemma operation_inv:
  assumes "broker_inv ev w b" and "keeps ev w b b'" and "bk_closing b \<Longrightarrow> held_off b b'"
  shows "broker_inv ev w b'"
proof (cases "bk_closing b")
  case True
  with assms show ?thesis by (blast intro: held_off_inv)
next
  case False
  with assms(1) have "burned_inv ev w b"
    by (simp add: broker_inv_def burned_inv_def)
  with assms(2) show ?thesis
    by (simp add: keeps_def broker_inv_def burned_inv_def)
qed

lemma execute_until_keeps: "evolves (keeps ev w) (execute_until ev stage q)"
  unfolding execute_until_def
  by (intro keeps.then_evolves keeps_parts evolves_keeps [OF sensed_existing])
    (auto intro!: keeps.then_evolves keeps_parts evolves_keeps [OF sensed_admit] burn_keeps burned_checked_keeps act_keeps
      split: option.split stage.split)


text \<open>Opening on files that cover the trace.\<close>

lemma sensed_trace: "sensed b b' \<Longrightarrow> trace_inv ev w b \<Longrightarrow> trace_inv ev w b'"
  by (rule updated_trace) (auto simp: sensed_def updated_def)

lemma with_records_trace: "trace_inv ev w (with_records r b) = trace_inv ev w b"
  by (cases "bf_state (bk_files b)") (simp_all add: trace_inv_def watched_calls_def file_covers_def with_records_def)

lemma load_inv:
  assumes "load_broker ev b = (b', r)" and "trace_inv ev w b"
  shows "trace_inv ev w b' \<and> (r = Inr () \<longrightarrow> burned_inv ev w b')"
proof (cases "bf_marker (bk_files b)")
  case (Some m)
  show ?thesis
  proof (cases "if m = broker_marker (bk_key b) then bf_state (bk_files b) else None")
    case None
    with assms Some show ?thesis by (auto simp: load_broker_def)
  next
    case (Some doc)
    note doc = this
    show ?thesis
    proof (cases "load_document (ev_float ev) (bk_key b) doc")
      case None
      with assms \<open>bf_marker (bk_files b) = Some m\<close> doc show ?thesis by (auto simp: load_broker_def)
    next
      case (Some rs)
      have b': "b' = with_records rs b" "r = Inr ()"
        using assms(1) \<open>bf_marker (bk_files b) = Some m\<close> doc Some by (auto simp: load_broker_def)
      have "bf_state (bk_files b) = Some doc"
        using doc by (simp split: if_splits)
      with assms(2) Some have "set (handled b) \<subseteq> set (dict_keys (br_attempts rs)) \<and> fst w \<subseteq> set (br_revoked_proposals rs)"
        by (auto simp: trace_inv_def file_covers_def)
      with assms(2) show ?thesis
        unfolding b' burned_inv_def with_records_trace by (simp add: with_records_def)
    qed
  qed
next
  case None
  show ?thesis
  proof (cases "bf_state (bk_files b)")
    case (Some doc)
    with assms None show ?thesis by (auto simp: load_broker_def)
  next
    case n: None
    with assms(2) None have empty: "bk_dispatched b = []" "fst w = {}"
      by (simp_all add: trace_inv_def file_covers_def)
    define b1 where "b1 = b\<lparr>bk_tick := Suc (bk_tick b), bk_files := (bk_files b)\<lparr>bf_marker := Some (broker_marker (bk_key b))\<rparr>\<rparr>"
    have inv: "burned_inv ev w b1"
      using assms(2) n empty None by (simp add: b1_def burned_inv_def trace_inv_def watched_calls_def file_covers_def)
    show ?thesis
    proof (cases "ev_write ev (bk_tick b)")
      case True
      then have "save_broker ev b1 = (b', r)"
        using assms(1) None n by (simp add: load_broker_def b1_def)
      then have "burned_inv ev w b'"
        using evolvesD [OF save_keeps, of ev w b1] inv by (simp add: keeps_def)
      then show ?thesis by (simp add: burned_inv_def)
    next
      case False
      then have "b' = b\<lparr>bk_tick := Suc (bk_tick b)\<rparr>" "r = Inl BIOError"
        using assms(1) None n by (auto simp: load_broker_def)
      moreover have "trace_inv ev w (b\<lparr>bk_tick := Suc (bk_tick b)\<rparr>)"
        by (rule updated_trace [OF _ assms(2)]) (simp add: updated_def)
      ultimately show ?thesis by simp
    qed
  qed
qed

lemma fresh_trace:
  assumes "trace_inv ev w b"
  shows "trace_inv ev w (fresh_broker (bk_key b) identity (if bk_durable b then Some (bk_files b) else None) n (bk_dispatched b))"
  using assms by (cases "bf_state (bk_files b)") (auto simp: trace_inv_def watched_calls_def file_covers_def fresh_broker_def)

lemma close_updated: "updated b (fst (close_broker ev timeout acquired b))"
proof -
  have "updated b (fst (finish_close ev (b\<lparr>bk_closing := True\<rparr>)))"
    by (rule updated_trans [OF _ finish_updated]) (simp add: updated_def)
  moreover have "updated b b" "updated b (b\<lparr>bk_closing := True\<rparr>)"
    by (simp_all add: updated_def)
  ultimately show ?thesis
    by (auto simp: close_broker_def Let_def split: option.split prod.split)
qed

lemma restart_inv:
  assumes "trace_inv ev w b"
  shows "broker_inv ev w (restart ev identity b)"
proof -
  define files where "files = (if bk_durable b then Some (bk_files b) else None)"
  define b0 where "b0 = fresh_broker (bk_key b) identity files (bk_tick b) (bk_dispatched b)"
  have t0: "trace_inv ev w b0"
    using fresh_trace [OF assms] by (simp add: b0_def files_def)
  obtain b1 r where o: "open_broker ev (bk_key b) identity files (bk_tick b) (bk_dispatched b) = (b1, r)" by fastforce
  have "trace_inv ev w b1 \<and> (r = Inr () \<longrightarrow> burned_inv ev w b1)"
  proof (cases "length (bk_key b) < 32 \<or> \<not> bk_durable b0")
    case True
    moreover have "burned_inv ev w b0" if "\<not> bk_durable b0"
      using that t0 by (simp add: burned_inv_def trace_inv_def)
    ultimately show ?thesis
      using o t0 by (auto simp: open_broker_def b0_def [symmetric] split: if_splits)
  next
    case False
    obtain b2 r2 where l: "load_broker ev b0 = (b2, r2)" by fastforce
    note li = load_inv [OF l t0]
    show ?thesis
    proof (cases r2)
      case (Inl e)
      then have "b1 = fst (close_broker ev (PInt 3) True b2)" "r = Inl e"
        using o False l by (auto simp: open_broker_def b0_def [symmetric])
      with li updated_trace [OF close_updated] show ?thesis by simp
    next
      case (Inr u)
      then have "b1 = b2" "r = Inr ()"
        using o False l by (auto simp: open_broker_def b0_def [symmetric])
      with li Inr show ?thesis by simp
    qed
  qed
  moreover have "updated b1 (b1\<lparr>bk_closing := True\<rparr>)"
    by (simp add: updated_def)
  then have "trace_inv ev w b1 \<Longrightarrow> trace_inv ev w (b1\<lparr>bk_closing := True\<rparr>)"
    by (rule updated_trace)
  ultimately show ?thesis
    using o by (cases r) (auto simp: restart_def files_def [symmetric] broker_inv_def burned_inv_def)
qed

lemma broker_step_inv: "broker_inv ev w b \<Longrightarrow> broker_inv ev w (broker_step ev b e)"
proof (cases e)
  case (Interrupted stage q identity)
  assume i: "broker_inv ev w b"
  have "broker_inv ev w (fst (execute_until ev stage q b))"
    by (rule operation_inv [OF i evolvesD [OF execute_until_keeps] closing_held_off(6)])
  then have "trace_inv ev w (fst (execute_until ev stage q b))"
    by (simp add: broker_inv_def)
  with Interrupted restart_inv show ?thesis by simp
next
  case (Restart identity)
  assume "broker_inv ev w b"
  with Restart restart_inv show ?thesis by (simp add: broker_inv_def)
qed (auto intro: operation_inv evolvesD [OF register_keeps] evolvesD [OF approve_keeps] evolvesD [OF execute_keeps]
      evolvesD [OF revoke_credential_keeps] evolvesD [OF revoke_proposal_keeps] closing_held_off updated_inv [OF close_updated])

interpretation broker: machine "broker_step ev" "broker_inv ev w" for ev w
  by unfold_locales (rule broker_step_inv)

section \<open>Properties\<close>

lemma fresh_inv: "trace_inv ev ({}, []) (fresh_broker key identity files n [])"
  by (cases "bf_state (bk_files (fresh_broker key identity files n []))")
    (auto simp: trace_inv_def watched_calls_def file_covers_def fresh_broker_def)

text \<open>
  C28: Whatever the clock, the disk, other threads and the handlers do, and however often the process
  crashes in the middle of an execution and is started again on its files: every call of a response
  handler is for a proposal that was never handed to a handler before, with the required number of
  independent approvals (two for a high or critical risk), none of them expired at the time of the
  call, and with an outcome verifier where the risk asks for one.
\<close>

theorem handlers_run_once:
  "distinct (map dp_id (bk_dispatched (foldl (broker_step ev) (restart ev identity (fresh_broker key identity files n [])) es)))
   \<and> list_all authorised (bk_dispatched (foldl (broker_step ev) (restart ev identity (fresh_broker key identity files n [])) es))"
  using broker.inv_run [OF restart_inv [OF fresh_inv]] by (simp add: broker_inv_def trace_inv_def)

lemma admitted_Inr:
  assumes "admitted ev f b = (b', Inr a)"
  obtains b1 b2 b3 where "ensure_accepting ev b = (b1, Inr ())" "ensure_accepting ev b1 = (b2, Inr ())"
    "f (b2\<lparr>bk_active := Suc (bk_active b2)\<rparr>) = (b3, Inr a)" "b' = retire ev b3"
proof -
  obtain b1 b2 where e: "ensure_accepting ev b = (b1, Inr ())" "ensure_accepting ev b1 = (b2, Inr ())"
    and r: "(case f (b2\<lparr>bk_active := Suc (bk_active b2)\<rparr>) of (c, r) \<Rightarrow> (retire ev c, r)) = (b', Inr a)"
    using assms unfolding admitted_def op_then_Inr_iff by auto
  obtain b3 r3 where f: "f (b2\<lparr>bk_active := Suc (bk_active b2)\<rparr>) = (b3, r3)"
    by fastforce
  with r have "r3 = Inr a" "b' = retire ev b3"
    by simp_all
  with e f that show ?thesis by blast
qed

text \<open>Successful revocation of a proposal starts a watch on its digest.\<close>

lemma revoke_proposal_success:
  assumes "revoke_proposal ev d b = (b', Inr ())" and "bk_lease b \<noteq> None \<longrightarrow> bk_durable b" and "bk_durable b"
    and "broker_inv ev ({}, []) b"
  shows "broker_inv ev ({d}, filter (\<lambda>x. dp_digest x = d) (bk_dispatched b)) b'" and "bk_dispatched b' = bk_dispatched b"
proof -
  define f where "f = (\<lambda>b. save_broker ev (b\<lparr>bk_revoked_proposals := List.insert d (bk_revoked_proposals b)\<rparr>))"
  have "admitted ev f b = (b', Inr ())"
    using assms(1) by (simp add: revoke_proposal_def f_def split: if_splits)
  from admitted_Inr [OF this] obtain b1 b2 b3 where e: "ensure_accepting ev b = (b1, Inr ())" "ensure_accepting ev b1 = (b2, Inr ())"
    and s: "f (b2\<lparr>bk_active := Suc (bk_active b2)\<rparr>) = (b3, Inr ())" and b': "b' = retire ev b3" .
  have unclosed: "\<not> bk_closing b"
    using e(1) closing_refuses [of b ev] by auto
  have same: "sensed b b2"
    using sensed.step [OF sensed_accepting e(1)] sensed.step [OF sensed_accepting e(2)] sensed.trans by blast
  define c where "c = b2\<lparr>bk_active := Suc (bk_active b2), bk_revoked_proposals := List.insert d (bk_revoked_proposals b2)\<rparr>"
  have save: "save_broker ev c = (b3, Inr ())"
    using s by (simp add: f_def c_def)
  have cf: "bk_durable c" "bk_dispatched c = bk_dispatched b" "bk_attempts c = bk_attempts b" "bk_lease c = bk_lease b"
    "d \<in> set (bk_revoked_proposals c)" "bk_key c = bk_key b"
    using same assms(3) by (simp_all add: c_def sensed_def)
  have inv: "trace_inv ev ({}, []) b" "set (handled b) \<subseteq> set (dict_keys (bk_attempts b))"
    using assms(4) unclosed by (auto simp: broker_inv_def)
  from save have b3: "broker_inv ev ({d}, filter (\<lambda>x. dp_digest x = d) (bk_dispatched b)) b3 \<and> bk_dispatched b3 = bk_dispatched b"
  proof (cases rule: save_cases)
    case 3
    have "bk_dispatched b3 = bk_dispatched b" "bk_attempts b3 = bk_attempts b" "bk_revoked_proposals b3 = bk_revoked_proposals c"
      "bk_lease b3 = bk_lease b" "bk_durable b3" "bk_key b3 = bk_key c"
      "bf_state (bk_files b3) = Some (json_sorted (broker_document (ev_float ev) c))"
      using cf by (simp_all add: 3(4))
    moreover from this have "file_covers ev ({d}, filter (\<lambda>x. dp_digest x = d) (bk_dispatched b)) b3"
      using inv(2) cf by (intro file_covers_saved [of c]) auto
    ultimately show ?thesis
      using inv cf by (simp add: broker_inv_def trace_inv_def watched_calls_def)
  qed (use cf(1) in auto)
  have u: "updated b3 b'"
    unfolding b' by (rule retire_updated)
  show "broker_inv ev ({d}, filter (\<lambda>x. dp_digest x = d) (bk_dispatched b)) b'"
    using b3 updated_inv [OF u] by blast
  show "bk_dispatched b' = bk_dispatched b"
    using b3 u by (simp add: updated_def)
qed

text \<open>
  C30: Once the revocation of a proposal has been written, no run that follows, with whatever crashes
  and restarts, calls a handler for it.
\<close>

theorem revoked_proposal_stays_off:
  assumes "b = foldl (broker_step ev) (restart ev identity (fresh_broker key identity (Some files) n [])) es"
    and "bk_durable b" and "revoke_proposal ev d b = (b', Inr ())"
  shows "filter (\<lambda>x. dp_digest x = d) (bk_dispatched (foldl (broker_step ev) b' fs)) = filter (\<lambda>x. dp_digest x = d) (bk_dispatched b)"
proof -
  have i: "broker_inv ev ({}, []) b"
    unfolding assms(1) by (rule broker.inv_run [OF restart_inv [OF fresh_inv]])
  then have "bk_lease b \<noteq> None \<longrightarrow> bk_durable b"
    by (simp add: broker_inv_def trace_inv_def)
  from broker.inv_run [OF revoke_proposal_success(1) [OF assms(3) this assms(2) i]]
  show ?thesis
    by (simp add: broker_inv_def trace_inv_def watched_calls_def)
qed

text \<open>A small state is within the byte bound.\<close>

lemma canonical_length:
  assumes "json_finite v" and "length (json_text True flt v) \<le> n"
  shows "\<exists>bs. canonical True flt v = Some bs \<and> length bs \<le> 2 * n"
  using assms length_utf8_le [of "json_text True flt (json_sorted v)"] by (simp add: canonical_def length_json_sorted)

definition plain :: "string \<Rightarrow> bool" where
  "plain s \<longleftrightarrow> length s \<le> 64"

lemma plain_json: "plain s \<Longrightarrow> length (json_string True s) \<le> 386"
  using length_json_string_le [of True s] by (simp add: plain_def)

lemma hex_plain: "plain (hex_text (hmac_sha256 key m))" "plain (hex_text (sha256 m))"
  using hex_of_text [of "hmac_sha256 key m"] hex_of_text [of "sha256 m"] by (simp_all add: plain_def hex_of_length_def)

definition small_broker :: "broker \<Rightarrow> bool" where
  "small_broker b \<longleftrightarrow> bk_approvals b = [] \<and> bk_receipts b = [] \<and> bk_attempts b = [] \<and> bk_revoked_keys b = []
     \<and> bk_revoked_subjects b = [] \<and> (bk_revoked_proposals b = [] \<or> (\<exists>d. plain d \<and> bk_revoked_proposals b = [d]))"

lemma small_broker_text:
  assumes "small_broker b"
  shows "json_finite (broker_document flt b) \<and> length (json_text True flt (broker_document flt b)) \<le> 4000"
proof -
  have tag: "length (json_string True (state_tag flt (bk_key b) (state_core b))) \<le> 386"
    by (simp only: state_tag_def plain_json hex_plain)
  have keys: "length (json_string True s) \<le> 2 + 6 * length s" for s
    by (rule length_json_string_le)
  have core: "json_finite (state_core b) \<and> length (json_text True flt (state_core b)) \<le> 1500"
  proof -
    have "length (json_text True flt (PList (map PStr (sort (bk_revoked_proposals b))))) \<le> 400"
      using assms plain_json by (fastforce simp: small_broker_def)
    moreover have "json_finite (PList (map PStr (sort (bk_revoked_proposals b))))"
      by (simp add: list_all_iff)
    ultimately show ?thesis
      using assms keys [of "''approvals''"] keys [of "''receipts''"] keys [of "''attempts''"] keys [of "''revoked_proposals''"]
        keys [of "''revoked_keys''"] keys [of "''revoked_subjects''"]
      by (simp add: small_broker_def state_core_def map_values_def del: json_text.simps(6) json_finite.simps(6)) (simp del: map_map)
  qed
  then show ?thesis
    using tag keys [of "''schema''"] keys [of "''records''"] keys [of "''hmac''"] keys [of broker_schema]
    by (simp add: broker_document_def broker_schema_def)
qed

lemma small_broker_saves:
  assumes "small_broker b" and "bk_durable b" "bk_lease b = Some True" and "ev_write ev (bk_tick b)"
  shows "save_broker ev b = (b\<lparr>bk_tick := Suc (bk_tick b),
    bk_files := (bk_files b)\<lparr>bf_state := Some (json_sorted (broker_document (ev_float ev) b))\<rparr>\<rparr>, Inr ())"
proof -
  have t: "json_finite (broker_document (ev_float ev) b)" "length (json_text True (ev_float ev) (broker_document (ev_float ev) b)) \<le> 4000"
    using small_broker_text [OF assms(1)] by blast+
  obtain bs where "canonical True (ev_float ev) (broker_document (ev_float ev) b) = Some bs" "length bs \<le> 8000"
    using canonical_length [OF t] by auto
  with assms(2-4) show ?thesis
    by (simp add: save_broker_def broker_state_bytes_def)
qed

definition quiet_env :: broker_env where
  "quiet_env = \<lparr>ev_float = fraction_text, ev_ed25519 = sample_ed25519, ev_clock = (\<lambda>n. Some (150 + of_nat n)), ev_close = (\<lambda>_. False),
     ev_revoked = (\<lambda>_. {}), ev_write = (\<lambda>_. True), ev_release = (\<lambda>_. True), ev_validator = (\<lambda>_ _ _. True),
     ev_handler = (\<lambda>_ _ _. HandlerReturned []), ev_outcome = (\<lambda>_ _ _ _. OutcomeTrue)\<rparr>"

definition sample_key :: bytes where
  "sample_key = replicate 32 1"

definition sample_digest :: string where
  "sample_digest = replicate 64 (CHR ''a'')"

definition opened_broker :: broker where
  "opened_broker = restart quiet_env (Some sample_verifier) (fresh_broker sample_key (Some sample_verifier)
     (Some \<lparr>bf_marker = None, bf_state = None\<rparr>) 0 [])"

lemma opened_fields:
  "small_broker opened_broker \<and> bk_durable opened_broker \<and> bk_lease opened_broker = Some True \<and> bk_revoked_proposals opened_broker = []
   \<and> \<not> bk_closing opened_broker \<and> bk_active opened_broker = 0 \<and> \<not> bk_degraded opened_broker \<and> bk_identity opened_broker = Some sample_verifier
   \<and> bk_operations opened_broker = [] \<and> bk_dispatched opened_broker = [] \<and> bk_key opened_broker = sample_key"
proof -
  define b0 where "b0 = fresh_broker sample_key (Some sample_verifier) (Some \<lparr>bf_marker = Some (broker_marker sample_key), bf_state = None\<rparr>) 1 []"
  have s: "small_broker b0" "bk_durable b0" "bk_lease b0 = Some True" "ev_write quiet_env (bk_tick b0)"
    by (simp_all add: b0_def fresh_broker_def small_broker_def quiet_env_def)
  have "load_broker quiet_env (fresh_broker sample_key (Some sample_verifier) (Some \<lparr>bf_marker = None, bf_state = None\<rparr>) 0 [])
      = save_broker quiet_env b0"
    by (simp add: load_broker_def fresh_broker_def b0_def quiet_env_def)
  then have o: "opened_broker = b0\<lparr>bk_tick := Suc (bk_tick b0),
      bk_files := (bk_files b0)\<lparr>bf_state := Some (json_sorted (broker_document (ev_float quiet_env) b0))\<rparr>\<rparr>"
    using small_broker_saves [OF s]
    by (simp add: opened_broker_def restart_def open_broker_def sample_key_def [symmetric] fresh_broker_def [of sample_key "Some sample_verifier" "Some \<lparr>bf_marker = None, bf_state = None\<rparr>"])
      (simp add: sample_key_def fresh_broker_def)
  show ?thesis
    unfolding o small_broker_def by (simp add: b0_def fresh_broker_def)
qed

lemma opened_revoke:
  "\<exists>b'. revoke_proposal quiet_env sample_digest opened_broker = (b', Inr ())"
proof -
  define b1 where "b1 = opened_broker\<lparr>bk_tick := Suc (Suc (bk_tick opened_broker)), bk_active := 1\<rparr>"
  define b2 where "b2 = b1\<lparr>bk_revoked_proposals := [sample_digest]\<rparr>"
  note f = opened_fields
  have acc: "ensure_accepting quiet_env b = (b\<lparr>bk_tick := Suc (bk_tick b)\<rparr>, Inr ())" if "\<not> bk_closing b" for b
    using that by (cases b) (simp add: ensure_accepting_def op_then_def is_closing_def op_guard_def quiet_env_def)
  have p: "plain sample_digest" "hex_of_length 64 sample_digest"
    by (simp add: plain_def sample_digest_def) code_simp
  have "small_broker b2" "bk_durable b2" "bk_lease b2 = Some True" "ev_write quiet_env (bk_tick b2)"
    using f p(1) by (auto simp: b2_def b1_def small_broker_def quiet_env_def)
  from small_broker_saves [OF this] obtain b3 where b3: "save_broker quiet_env b2 = (b3, Inr ())"
    by blast
  have "admitted quiet_env g opened_broker = (case g b1 of (b', r) \<Rightarrow> (retire quiet_env b', r))" for g :: "unit broker_op"
    using f by (simp add: admitted_def acc b1_def)
  moreover have "b1\<lparr>bk_revoked_proposals := List.insert sample_digest (bk_revoked_proposals b1)\<rparr> = b2"
    using f by (simp add: b1_def b2_def)
  ultimately show ?thesis
    using p(2) b3 by (simp add: revoke_proposal_def)
qed

theorem revoked_proposal_stays_off_witness:
  "\<exists>b'. revoke_proposal quiet_env sample_digest opened_broker = (b', Inr ())
     \<and> filter (\<lambda>x. dp_digest x = sample_digest) (bk_dispatched (foldl (broker_step quiet_env) b' [Restart None])) = []"
proof -
  obtain b' where r: "revoke_proposal quiet_env sample_digest opened_broker = (b', Inr ())"
    using opened_revoke ..
  have o: "opened_broker = foldl (broker_step quiet_env) (restart quiet_env (Some sample_verifier) (fresh_broker sample_key (Some sample_verifier)
     (Some \<lparr>bf_marker = None, bf_state = None\<rparr>) 0 [])) []"
    by (simp add: opened_broker_def)
  have "bk_durable opened_broker" "bk_dispatched opened_broker = []"
    using opened_fields by auto
  with revoked_proposal_stays_off [OF o _ r, of "[Restart None]"] r show ?thesis by auto
qed

subsection \<open>What a handler call presupposes\<close>

definition same_view :: "broker \<Rightarrow> broker \<Rightarrow> bool" where
  "same_view b b' \<longleftrightarrow> bk_identity b' = bk_identity b \<and> bk_operations b' = bk_operations b \<and> bk_approvals b' = bk_approvals b
     \<and> bk_receipts b' = bk_receipts b \<and> bk_revoked_proposals b' = bk_revoked_proposals b
     \<and> bk_revoked_keys b' = bk_revoked_keys b \<and> bk_revoked_subjects b' = bk_revoked_subjects b \<and> bk_dispatched b' = bk_dispatched b"

lemma sensed_view: "sensed b b' \<Longrightarrow> same_view b b'"
  by (simp add: sensed_def same_view_def)

lemma view_trans: "same_view a b \<Longrightarrow> same_view b c \<Longrightarrow> same_view a c"
  by (simp add: same_view_def)

definition quiet :: "broker \<Rightarrow> broker \<Rightarrow> bool" where
  "quiet b b' \<longleftrightarrow> bk_dispatched b' = bk_dispatched b"

interpretation quiet: evolution quiet
  by unfold_locales (simp_all add: quiet_def)

lemma quiet_sensed: "evolves sensed f \<Longrightarrow> evolves quiet f"
  by (simp add: evolves_def sensed_def quiet_def)

lemma quiet_save: "evolves quiet (save_broker ev)"
proof (rule evolvesI)
  fix b
  obtain b' r where s: "save_broker ev b = (b', r)" by fastforce
  then have "quiet b b'"
    by (cases rule: save_cases) (simp_all add: quiet_def sensed_def)
  with s show "quiet b (fst (save_broker ev b))" by simp
qed

lemma quiet_record: "evolves quiet (record_receipt ev q outcome executed approvals result)"
proof -
  have s: "evolves quiet (op_then (save_broker ev) (\<lambda>_. op_return r))" for r :: receipt
    by (intro quiet.then_evolves quiet_save quiet.unchanged)
  have "evolves quiet (store_receipt ev r)" for r
  proof (rule evolvesI)
    fix b
    show "quiet b (fst (store_receipt ev r b))"
      using evolvesD [OF s, of "b\<lparr>bk_receipts := dict_set (rc_proposal r) r (bk_receipts b)\<rparr>" r] by (simp add: store_receipt_def quiet_def)
  qed
  then show ?thesis
    unfolding record_receipt_def by (intro quiet.then_evolves quiet.unchanged quiet_sensed [OF sensed_now])
qed

definition approval_of :: "broker_env \<Rightarrow> broker \<Rightarrow> proposal \<Rightarrow> principal \<Rightarrow> bool" where
  "approval_of ev b q pr \<longleftrightarrow> (\<exists>v p now revoked who. bk_identity b = Some v
     \<and> p \<in> set (stored_proofs (proposal_digest (ev_float ev) q) b)
     \<and> verify_proof (ev_float ev) (ev_ed25519 ev) (v\<lparr>vf_revoked := revoked\<rparr>) p (proposal_digest (ev_float ev) q) (PFloat (Fin now)) = Inr pr
     \<and> resolve_principal (ev_float ev) v (rp_requester q) = Inr who \<and> \<not> own_approval (ev_float ev) v who pr
     \<and> pr_key pr \<notin> set (bk_revoked_keys b) \<and> pr_id pr \<notin> set (bk_revoked_subjects b))"

lemma verify_approval_Inr:
  assumes "verify_approval ev p digest who b = (b', Inr pr)"
  shows "\<exists>v now revoked w. bk_identity b = Some v
     \<and> verify_proof (ev_float ev) (ev_ed25519 ev) (v\<lparr>vf_revoked := revoked\<rparr>) p digest (PFloat (Fin now)) = Inr pr
     \<and> resolve_principal (ev_float ev) v who = Inr w \<and> \<not> own_approval (ev_float ev) v w pr
     \<and> pr_key pr \<notin> set (bk_revoked_keys b) \<and> pr_id pr \<notin> set (bk_revoked_subjects b)"
proof -
  obtain b1 where e: "ensure_accepting ev b = (b1, Inr ())"
    and r: "(case bk_identity b1 of
       None \<Rightarrow> op_raise BPermissionError
     | Some v \<Rightarrow>
         op_then (broker_now ev) (\<lambda>now.
         op_then (sense (ev_revoked ev)) (\<lambda>revoked.
         case verify_proof (ev_float ev) (ev_ed25519 ev) (v\<lparr>vf_revoked := revoked\<rparr>) p digest (PFloat (Fin now)) of
           Inl _ \<Rightarrow> op_raise BPermissionError
         | Inr pr \<Rightarrow>
             (case resolve_principal (ev_float ev) v who of
                Inl _ \<Rightarrow> op_raise BPermissionError
              | Inr who \<Rightarrow>
                  op_then (op_get (\<lambda>b. pr_key pr \<in> set (bk_revoked_keys b) \<or> pr_id pr \<in> set (bk_revoked_subjects b))) (\<lambda>barred.
                    if own_approval (ev_float ev) v who pr \<or> barred then op_raise BPermissionError else op_return pr))))) b1 = (b', Inr pr)"
    using assms unfolding verify_approval_def by (auto simp: op_then_Inr_iff)
  have s: "sensed b b1"
    by (rule sensed.step [OF sensed_accepting e])
  obtain v where v: "bk_identity b1 = Some v"
    using r by (cases "bk_identity b1") auto
  obtain b2 now b3 revoked where n: "broker_now ev b1 = (b2, Inr now)" "sense (ev_revoked ev) b2 = (b3, Inr revoked)"
    and r3: "(case verify_proof (ev_float ev) (ev_ed25519 ev) (v\<lparr>vf_revoked := revoked\<rparr>) p digest (PFloat (Fin now)) of
           Inl _ \<Rightarrow> op_raise BPermissionError
         | Inr pr \<Rightarrow>
             (case resolve_principal (ev_float ev) v who of
                Inl _ \<Rightarrow> op_raise BPermissionError
              | Inr who \<Rightarrow>
                  op_then (op_get (\<lambda>b. pr_key pr \<in> set (bk_revoked_keys b) \<or> pr_id pr \<in> set (bk_revoked_subjects b))) (\<lambda>barred.
                    if own_approval (ev_float ev) v who pr \<or> barred then op_raise BPermissionError else op_return pr))) b3 = (b', Inr pr)"
    using r unfolding v by (auto simp: op_then_Inr_iff)
  have "sensed b b3"
    using s sensed.step [OF sensed_now n(1)] sensed.step [OF sensed_sense n(2)] sensed.trans by blast
  then have same: "bk_identity b3 = bk_identity b" "bk_revoked_keys b3 = bk_revoked_keys b" "bk_revoked_subjects b3 = bk_revoked_subjects b"
    "bk_identity b1 = bk_identity b"
    using s by (simp_all add: sensed_def)
  from r3 obtain w where "verify_proof (ev_float ev) (ev_ed25519 ev) (v\<lparr>vf_revoked := revoked\<rparr>) p digest (PFloat (Fin now)) = Inr pr"
    "resolve_principal (ev_float ev) v who = Inr w" "\<not> own_approval (ev_float ev) v w pr"
    "pr_key pr \<notin> set (bk_revoked_keys b3) \<and> pr_id pr \<notin> set (bk_revoked_subjects b3)"
    by (auto simp: op_then_Inr_iff split: sum.splits if_splits)
  with v same show ?thesis by metis
qed

lemma verified_list_Inr:
  "verified_list ev digest who ps b = (b', Inr qs) \<Longrightarrow> pr \<in> set qs \<Longrightarrow>
     \<exists>p c c'. p \<in> set ps \<and> sensed b c \<and> verify_approval ev p digest who c = (c', Inr pr)"
proof (induction ps arbitrary: b qs)
  case Nil
  then show ?case by simp
next
  case (Cons p ps)
  obtain b1 r where v: "verify_approval ev p digest who b = (b1, r)" by fastforce
  note s = sensed.step [OF sensed_verify v]
  have later: "\<exists>p' c c'. p' \<in> set (p # ps) \<and> sensed b c \<and> verify_approval ev p' digest who c = (c', Inr pr)"
    if "verified_list ev digest who ps b1 = (b', Inr qs')" "pr \<in> set qs'" for qs'
    using Cons.IH [OF that] s sensed.trans by (metis list.set_intros(2))
  show ?case
  proof (cases r)
    case (Inl e)
    with Cons.prems(1) v have "verified_list ev digest who ps b1 = (b', Inr qs)"
      by (cases e) auto
    with later Cons.prems(2) show ?thesis by blast
  next
    case (Inr pr1)
    then obtain qs' where q: "verified_list ev digest who ps b1 = (b', Inr qs')" "qs = pr1 # qs'"
      using Cons.prems(1) v by (auto simp: op_then_Inr_iff)
    show ?thesis
    proof (cases "pr = pr1")
      case True
      with v Inr sensed.refl show ?thesis by auto
    next
      case False
      with Cons.prems(2) q later show ?thesis by auto
    qed
  qed
qed

lemma burn_fields:
  assumes "burn_attempt ev q p b = (b', Inr u)"
  shows "same_view b b'" and "dict_get (bk_attempts b) (rp_id q) = None" and "proposal_digest (ev_float ev) q \<notin> set (bk_revoked_proposals b)"
proof -
  let ?digest = "proposal_digest (ev_float ev) q"
  obtain b1 ok where s: "status_configured ev b = (b1, Inr ok)"
    and rest: "(if \<not> ok \<or> ?digest \<in> set (bk_revoked_proposals b1) \<or> dict_get (bk_attempts b1) (rp_id q) \<noteq> None
          \<or> (high_impact p \<and> \<not> op_verifies p)
        then (b1, Inl BPermissionError)
        else save_broker ev (b1\<lparr>bk_attempts := dict_set (rp_id q) ?digest (bk_attempts b1)\<rparr>)) = (b', Inr u)"
    using assms(1) unfolding burn_attempt_def Let_def by (auto simp: op_then_Inr_iff simp del: not_None_eq)
  have same: "sensed b b1"
    by (rule sensed.step [OF sensed_status s])
  have checks: "?digest \<notin> set (bk_revoked_proposals b1)" "dict_get (bk_attempts b1) (rp_id q) = None"
    and save: "save_broker ev (b1\<lparr>bk_attempts := dict_set (rp_id q) ?digest (bk_attempts b1)\<rparr>) = (b', Inr u)"
    using rest by (auto split: if_splits)
  from checks same show "dict_get (bk_attempts b) (rp_id q) = None" "?digest \<notin> set (bk_revoked_proposals b)"
    by (simp_all add: sensed_def)
  define b2 where "b2 = b1\<lparr>bk_attempts := dict_set (rp_id q) ?digest (bk_attempts b1)\<rparr>"
  have "same_view b b2"
    using sensed_view [OF same] by (simp add: same_view_def b2_def)
  moreover from save [folded b2_def] have "same_view b2 b'"
  proof (cases rule: save_cases)
    case 1
    show ?thesis unfolding 1(2) by (simp add: same_view_def)
  next
    case (2 e)
    from sensed_view [OF 2(2)] show ?thesis .
  next
    case 3
    show ?thesis unfolding 3(4) by (simp add: same_view_def)
  qed
  ultimately show "same_view b b'"
    by (rule view_trans)
qed

lemma quiet_burn: "evolves quiet (burn_attempt ev q p)"
proof -
  have "quiet b (fst (save_broker ev (b\<lparr>bk_attempts := d\<rparr>)))" for b d
    using evolvesD [OF quiet_save, of "b\<lparr>bk_attempts := d\<rparr>" ev] by (simp add: quiet_def)
  then show ?thesis
    unfolding burn_attempt_def Let_def
    by (intro quiet.then_evolves [OF quiet_sensed [OF sensed_status]] evolvesI) (simp add: quiet.refl)
qed

lemma quiet_burned: "evolves quiet (burned_and_checked ev q p t0)"
  unfolding burned_and_checked_def by (intro quiet.then_evolves quiet_burn quiet_sensed [OF sensed_recheck])

definition conditions :: "broker_env \<Rightarrow> broker \<Rightarrow> proposal \<Rightarrow> dispatched \<Rightarrow> bool" where
  "conditions ev b q d \<longleftrightarrow> dp_id d = rp_id q \<and> dp_digest d = proposal_digest (ev_float ev) q
     \<and> dict_get (bk_operations b) (rp_operation q) = Some (dp_operation d) \<and> \<not> rp_dry_run q
     \<and> dict_get (bk_receipts b) (rp_id q) = None \<and> dict_get (bk_attempts b) (rp_id q) = None
     \<and> proposal_digest (ev_float ev) q \<notin> set (bk_revoked_proposals b) \<and> valid_at q (dp_at d)
     \<and> required_approvals (dp_operation d) \<le> length (dp_approvals d)
     \<and> distinct (map pr_id (dp_approvals d)) \<and> distinct (map pr_key (dp_approvals d))
     \<and> list_all (\<lambda>pr. approval_of ev b q pr \<and> dp_at d < pr_expires pr) (dp_approvals d)"

lemma approval_view: "same_view b c \<Longrightarrow> approval_of ev c q pr = approval_of ev b q pr"
  by (simp add: approval_of_def same_view_def stored_proofs_def)

lemma act_trace:
  assumes "dict_get (bk_operations b) (rp_operation q) = Some p" and "\<not> rp_dry_run q" and "dict_get (bk_receipts b) (rp_id q) = None"
  shows "bk_dispatched (fst (act ev q p t0 b)) = bk_dispatched b
    \<or> (\<exists>d. bk_dispatched (fst (act ev q p t0 b)) = bk_dispatched b @ [d] \<and> conditions ev b q d)"
proof -
  obtain b1 r where c: "burned_and_checked ev q p t0 b = (b1, r)" by fastforce
  have same: "bk_dispatched b1 = bk_dispatched b"
    using quiet.step [OF quiet_burned c] by (simp add: quiet_def)
  show ?thesis
  proof (cases r)
    case (Inl e)
    with c same show ?thesis by (simp add: act_def)
  next
    case (Inr tp)
    obtain t prs where tp: "tp = (t, prs)" by fastforce
    with c Inr have c': "burned_and_checked ev q p t0 b = (b1, Inr (t, prs))" by simp
    obtain b0 where burn: "burn_attempt ev q p b = (b0, Inr ())" and re: "recheck ev q p t0 b0 = (b1, Inr (t, prs))"
      using burned_and_checked_Inr [OF c'] .
    note bf = burn_fields [OF burn]
    note rs = recheck_success [OF re]
    obtain qs c1 c2 where qs: "independent_principals qs = Some prs" "sensed b0 c1"
      "verified_list ev (proposal_digest (ev_float ev) q) (rp_requester q) (stored_proofs (proposal_digest (ev_float ev) q) b0) c1 = (c2, Inr qs)"
      using rs(4) by blast
    note ind = independent_members [OF qs(1)]
    have view: "same_view b c" if "sensed c1 c" for c
      using view_trans [OF bf(1) view_trans [OF sensed_view [OF qs(2)] sensed_view [OF that]]] .
    have appr: "approval_of ev b q pr" if "pr \<in> set prs" for pr
    proof -
      from that ind have "pr \<in> set qs" by blast
      from verified_list_Inr [OF qs(3) this] obtain pf c c' where pf: "pf \<in> set (stored_proofs (proposal_digest (ev_float ev) q) b0)"
        "sensed c1 c" "verify_approval ev pf (proposal_digest (ev_float ev) q) (rp_requester q) c = (c', Inr pr)"
        by blast
      have "stored_proofs (proposal_digest (ev_float ev) q) c = stored_proofs (proposal_digest (ev_float ev) q) b0"
        using qs(2) pf(2) by (simp add: stored_proofs_def sensed_def)
      with pf(1) verify_approval_Inr [OF pf(3)] have "approval_of ev c q pr"
        unfolding approval_of_def by metis
      with approval_view [OF view [OF pf(2)]] show ?thesis by simp
    qed
    define d where "d = \<lparr>dp_id = rp_id q, dp_digest = proposal_digest (ev_float ev) q, dp_operation = p, dp_approvals = prs, dp_at = t\<rparr>"
    have "conditions ev b q d"
      using assms bf(2,3) rs(1,2,3) ind appr by (simp add: conditions_def d_def list_all_iff)
    moreover have "fst (act ev q p t0 b) = fst (call_handler ev q p t prs b1)"
      using c' by (simp add: act_def op_then_def split: prod.split sum.split)
    then have "bk_dispatched (fst (act ev q p t0 b)) = bk_dispatched b @ [d]"
      by (simp add: call_handler_trace same d_def)
    ultimately show ?thesis by blast
  qed
qed

lemma conditions_view:
  "same_view b c \<Longrightarrow> bk_attempts c = bk_attempts b \<Longrightarrow> conditions ev c q d = conditions ev b q d"
  by (simp add: conditions_def approval_view) (simp add: same_view_def)

lemma sensed_conditions: "sensed b c \<Longrightarrow> conditions ev c q d = conditions ev b q d"
  by (rule conditions_view [OF sensed_view]) (simp_all add: sensed_def)

text \<open>The trace of a stage: unchanged, or one call under the conditions.\<close>

definition calls_once :: "broker_env \<Rightarrow> proposal \<Rightarrow> broker \<Rightarrow> broker \<Rightarrow> bool" where
  "calls_once ev q b b' \<longleftrightarrow> bk_dispatched b' = bk_dispatched b
     \<or> (\<exists>d. bk_dispatched b' = bk_dispatched b @ [d] \<and> conditions ev b q d)"

lemma calls_once_then:
  assumes "calls_once ev q b (fst (f b))" and "\<And>a. evolves quiet (g a)"
  shows "calls_once ev q b (fst (op_then f g b))"
proof -
  obtain b1 r where f: "f b = (b1, r)" by fastforce
  show ?thesis
  proof (cases r)
    case (Inl e)
    with f assms(1) show ?thesis by simp
  next
    case (Inr a)
    have "quiet b1 (fst (g a b1))"
      by (rule evolvesD [OF assms(2)])
    with f Inr assms(1) show ?thesis by (simp add: calls_once_def quiet_def)
  qed
qed

lemma calls_once_sensed:
  assumes "sensed b c" and "calls_once ev q c b'"
  shows "calls_once ev q b b'"
  using assms sensed_conditions [OF assms(1)] by (simp add: calls_once_def sensed_def)

lemma admit_operation:
  assumes "admit ev q b = (b', Inr (p, t, prs))"
  shows "dict_get (bk_operations b) (rp_operation q) = Some p"
proof (cases "dict_get (bk_operations b) (rp_operation q)")
  case None
  with assms show ?thesis by (simp add: admit_def Let_def op_then_def op_get_def)
next
  case (Some p')
  with assms show ?thesis
    by (simp add: admit_def Let_def) (auto simp: op_then_Inr_iff)
qed

lemma run_trace:
  assumes "dict_get (bk_receipts b) (rp_id q) = None"
  shows "calls_once ev q b (fst (run_proposal ev q b))"
proof -
  obtain b1 r where a: "admit ev q b = (b1, r)" by fastforce
  have s: "sensed b b1"
    by (rule sensed.step [OF sensed_admit a])
  show ?thesis
  proof (cases r)
    case (Inl e)
    with a s show ?thesis by (simp add: run_proposal_def calls_once_def sensed_def)
  next
    case (Inr x)
    obtain p t prs where x: "x = (p, t, prs)" by (cases x) auto
    have p: "dict_get (bk_operations b1) (rp_operation q) = Some p" "dict_get (bk_receipts b1) (rp_id q) = None"
      using admit_operation [of ev q b b1 p t prs] a Inr x s assms by (simp_all add: sensed_def)
    define rest where "rest = op_then (act ev q p t) (\<lambda>(prs, result). op_then (judge_outcome ev q p result)
      (\<lambda>outcome. record_receipt ev q outcome True (map pr_id prs) result))"
    have "calls_once ev q b1 (fst (rest b1))" if "\<not> rp_dry_run q"
      unfolding rest_def
    proof (rule calls_once_then)
      show "calls_once ev q b1 (fst (act ev q p t b1))"
        using act_trace [OF p(1) that p(2)] by (simp add: calls_once_def)
      show "evolves quiet (case a of (prs, result) \<Rightarrow> op_then (judge_outcome ev q p result)
          (\<lambda>outcome. record_receipt ev q outcome True (map pr_id prs) result))" for a
        by (auto split: prod.split intro!: quiet.then_evolves quiet_record quiet_sensed [OF sensed_judge])
    qed
    moreover have "quiet b1 (fst (record_receipt ev q ''previewed'' False (map pr_id prs) (preview p) b1))"
      by (rule evolvesD [OF quiet_record])
    then have "calls_once ev q b1 (fst (record_receipt ev q ''previewed'' False (map pr_id prs) (preview p) b1))"
      by (simp add: calls_once_def quiet_def)
    ultimately have "calls_once ev q b1 (fst (if rp_dry_run q then record_receipt ev q ''previewed'' False (map pr_id prs) (preview p) b1 else rest b1))"
      by simp
    moreover have "run_proposal ev q b = (if rp_dry_run q then record_receipt ev q ''previewed'' False (map pr_id prs) (preview p) b1 else rest b1)"
      using a Inr x by (simp add: run_proposal_def rest_def)
    ultimately show ?thesis
      using calls_once_sensed [OF s] by simp
  qed
qed

lemma existing_None:
  "existing_receipt ev q b = (b', Inr None) \<Longrightarrow> dict_get (bk_receipts b) (rp_id q) = None"
  by (auto simp: existing_receipt_def op_then_Inr_iff split: option.splits if_splits)

lemma body_trace:
  "calls_once ev q b (fst (op_then (existing_receipt ev q) (\<lambda>r. case r of Some r \<Rightarrow> op_return r | None \<Rightarrow> run_proposal ev q) b))"
proof -
  obtain b1 r where e: "existing_receipt ev q b = (b1, r)" by fastforce
  have s: "sensed b b1"
    by (rule sensed.step [OF sensed_existing e])
  have same: "calls_once ev q b b1"
    using s by (simp add: calls_once_def sensed_def)
  show ?thesis
  proof (cases r)
    case (Inl x)
    with e same show ?thesis by simp
  next
    case (Inr known)
    show ?thesis
    proof (cases known)
      case None
      then have "dict_get (bk_receipts b1) (rp_id q) = None"
        using existing_None [of ev q b b1] e Inr s by (simp add: sensed_def)
      from calls_once_sensed [OF s run_trace [OF this]] e Inr None show ?thesis by simp
    next
      case (Some x)
      with e Inr same show ?thesis by simp
    qed
  qed
qed

lemma accepting_sensed: "ensure_accepting ev b = (b', r) \<Longrightarrow> sensed b b'"
  by (rule sensed.step [OF sensed_accepting])

text \<open>
  C29: A handler is called only through \<open>execute\<close> of a live proposal for a registered operation,
  inside its validity, that has no receipt, no earlier attempt and no revocation, on the strength of
  the required number of approvals given to this very proposal: each a stored proof that verified
  for its digest, by subjects and keys that are pairwise different, not the requester's, not revoked
  and not expired at the time of the call.
\<close>

theorem execute_calls_only_approved:
  "bk_dispatched (fst (execute ev q b)) = bk_dispatched b
   \<or> (\<exists>d. bk_dispatched (fst (execute ev q b)) = bk_dispatched b @ [d] \<and> conditions ev b q d)"
proof (cases "proposal_ok (ev_float ev) q")
  case False
  then show ?thesis by (simp add: execute_def op_then_def op_guard_def)
next
  case True
  define body where "body = op_then (existing_receipt ev q) (\<lambda>r. case r of Some r \<Rightarrow> op_return r | None \<Rightarrow> run_proposal ev q)"
  have ex: "execute ev q b = admitted ev body b"
    using True by (simp add: execute_def op_then_def op_guard_def body_def)
  obtain b1 r1 where e1: "ensure_accepting ev b = (b1, r1)" by fastforce
  obtain b2 r2 where e2: "ensure_accepting ev b1 = (b2, r2)" by fastforce
  note s1 = accepting_sensed [OF e1]
  note s2 = sensed.trans [OF s1 accepting_sensed [OF e2]]
  define c where "c = b2\<lparr>bk_active := Suc (bk_active b2)\<rparr>"
  have view: "same_view b c" "bk_attempts c = bk_attempts b"
    using s2 by (simp_all add: c_def same_view_def sensed_def)
  have "calls_once ev q c (fst (body c))"
    unfolding body_def by (rule body_trace)
  moreover have "bk_dispatched (retire ev x) = bk_dispatched x" for x
    using retire_updated [of x ev] by (simp add: updated_def)
  ultimately have called: "calls_once ev q b (retire ev (fst (body c)))"
    using conditions_view [OF view] view(1) by (simp add: calls_once_def same_view_def)
  show ?thesis
  proof (cases "\<exists>u v. r1 = Inr u \<and> r2 = Inr v")
    case True
    with e1 e2 have "fst (admitted ev body b) = retire ev (fst (body c))"
      by (auto simp: admitted_def c_def split_def)
    with called ex show ?thesis by (simp add: calls_once_def)
  next
    case False
    with e1 e2 have "fst (admitted ev body b) = b1 \<or> fst (admitted ev body b) = b2"
      by (cases r1; cases r2) (auto simp: admitted_def)
    with s1 s2 ex show ?thesis by (auto simp: sensed_def)
  qed
qed

end
