(* ===== verification/Authorization.thy ===== *)
theory Authorization
  imports Approval_Identity
begin

text \<open>
  Role-based authorization with scopes, \<^verbatim>\<open>src/angerona/core/authorization.py\<close>: the validated policy,
  the separation-of-duty check of its constructor, the decision with explicit-deny precedence, the
  bounded cache of decided requests, and the authenticated entry point.

  \<open>decide\<close> takes the lock twice; what happens between is another caller's business, so the lookup
  and the commit are separate steps here.  The audit sink is the argument \<open>sink\<close>: whether it accepts
  a decision.
\<close>

section \<open>Permissions and scopes\<close>

definition authz_char :: "char \<Rightarrow> bool" where
  "authz_char c \<longleftrightarrow> id_char c \<or> c \<in> set ''_.:@/-''"

definition authz_id :: "string \<Rightarrow> bool" where
  "authz_id s \<longleftrightarrow> 1 \<le> length s \<and> length s \<le> 160 \<and> list_all authz_char s"

definition lower_letter :: "char \<Rightarrow> bool" where
  "lower_letter d \<longleftrightarrow> (let n = (of_char d :: nat) in 97 \<le> n \<and> n \<le> 122)"

definition permission_char :: "char \<Rightarrow> bool" where
  "permission_char d \<longleftrightarrow> lower_letter d \<or> (let n = (of_char d :: nat) in 48 \<le> n \<and> n \<le> 57) \<or> d \<in> set ''_-''"

definition permission_part :: "string \<Rightarrow> bool" where
  "permission_part s \<longleftrightarrow> s = ''*'' \<or> (case s of [] \<Rightarrow> False | c # r \<Rightarrow> lower_letter c \<and> list_all permission_char r)"

definition permission_ok :: "string \<Rightarrow> bool" where
  "permission_ok s \<longleftrightarrow> (let parts = split_on (CHR ''.'') s in
     2 \<le> length parts \<and> length parts \<le> 5 \<and> list_all permission_part parts \<and> ''*'' \<notin> set (butlast parts))"

definition matches_permission :: "string \<Rightarrow> string \<Rightarrow> bool" where
  "matches_permission rule req \<longleftrightarrow> rule = req \<or> (ends_with ''.*'' rule \<and> starts_with (butlast rule) req)"

definition rstrip_slash :: "string \<Rightarrow> string" where
  "rstrip_slash s = rev (dropWhile (\<lambda>c. c = CHR ''/'') (rev s))"

definition scope_contains :: "string \<Rightarrow> string \<Rightarrow> bool" where
  "scope_contains b s \<longleftrightarrow> s = b \<or> starts_with (rstrip_slash b @ ''/'') s"

definition scopes_overlap :: "string \<Rightarrow> string \<Rightarrow> bool" where
  "scopes_overlap a b \<longleftrightarrow> scope_contains a b \<or> scope_contains b a"

fun double_slash :: "string \<Rightarrow> bool" where
  "double_slash (c # d # s) = (c = CHR ''/'' \<and> d = CHR ''/'' \<or> double_slash (d # s))"
| "double_slash _ = False"

definition scope_ok :: "string \<Rightarrow> bool" where
  "scope_ok s \<longleftrightarrow> authz_id s \<and> \<not> starts_with ''/'' s \<and> \<not> ends_with ''/'' s \<and> \<not> double_slash s
     \<and> list_all (\<lambda>p. p \<noteq> [] \<and> p \<noteq> ''.'' \<and> p \<noteq> ''..'') (split_on (CHR ''/'') s)"

section \<open>The records of a policy\<close>

datatype principal_kind = Human | Service

fun kind_text :: "principal_kind \<Rightarrow> string" where
  "kind_text Human = ''human''"
| "kind_text Service = ''service''"

record authz_principal =
  ap_id :: string
  ap_kind :: principal_kind
  ap_enabled :: bool
  ap_expires :: pyval \<comment> \<open>0 for never\<close>

definition expiry :: "pyval \<Rightarrow> rat" where
  "expiry v = the (num_of v)"

definition expiry_ok :: "pyval \<Rightarrow> bool" where
  "expiry_ok v \<longleftrightarrow> (case num_of v of None \<Rightarrow> False | Some t \<Rightarrow> 0 \<le> t)"

definition authz_principal_ok :: "authz_principal \<Rightarrow> bool" where
  "authz_principal_ok p \<longleftrightarrow> authz_id (ap_id p) \<and> expiry_ok (ap_expires p)
     \<and> \<not> (ap_kind p = Service \<and> expiry (ap_expires p) \<le> 0)"

record role =
  ro_id :: string
  ro_allow :: "string list"
  ro_deny :: "string list"

definition make_role :: "string \<Rightarrow> string list \<Rightarrow> string list \<Rightarrow> role" where
  "make_role rid allow deny = \<lparr>ro_id = rid, ro_allow = sort (remdups allow), ro_deny = sort (remdups deny)\<rparr>"

definition role_ok :: "role \<Rightarrow> bool" where
  "role_ok r \<longleftrightarrow> authz_id (ro_id r) \<and> length (ro_allow r) + length (ro_deny r) \<le> 256
     \<and> list_all permission_ok (ro_allow r @ ro_deny r)"

record role_binding =
  rb_principal :: string
  rb_role :: string
  rb_scope :: string
  rb_expires :: pyval

definition binding_ok :: "role_binding \<Rightarrow> bool" where
  "binding_ok b \<longleftrightarrow> authz_id (rb_principal b) \<and> authz_id (rb_role b) \<and> scope_ok (rb_scope b) \<and> expiry_ok (rb_expires b)"

record auth_request =
  ar_id :: string
  ar_principal :: string
  ar_permission :: string
  ar_scope :: string
  ar_resource :: string

definition request_ok :: "auth_request \<Rightarrow> bool" where
  "request_ok r \<longleftrightarrow> authz_id (ar_id r) \<and> authz_id (ar_principal r) \<and> permission_ok (ar_permission r) \<and> scope_ok (ar_scope r)
     \<and> (ar_resource r = [] \<or> authz_id (ar_resource r))"

record auth_decision =
  ad_request :: auth_request
  ad_digest :: string
  ad_allowed :: bool
  ad_reason :: string
  ad_roles :: "string list"
  ad_kind :: string
  ad_at :: rat
  ad_until :: rat \<comment> \<open>0 for no end\<close>
  ad_policy :: string
  ad_hmac :: string

section \<open>The policy\<close>

record policy =
  po_principals :: "(string, authz_principal) dict"
  po_roles :: "(string, role) dict"
  po_bindings :: "role_binding list"
  po_duties :: "string list list"
  po_key :: bytes
  po_identity :: "verifier option"
  po_aliases :: "(string, string) dict"

definition alias_credential :: "policy \<Rightarrow> string \<Rightarrow> credential option" where
  "alias_credential p who = Option.bind (po_identity p) (\<lambda>v.
     Option.bind (dict_get (po_aliases p) who) (dict_get (vf_credentials v)))"

definition same_identity :: "(rat \<Rightarrow> string) \<Rightarrow> policy \<Rightarrow> string \<Rightarrow> string \<Rightarrow> bool" where
  "same_identity flt p a b \<longleftrightarrow> a = b \<or> (case (alias_credential p a, alias_credential p b) of
     (Some x, Some y) \<Rightarrow> cr_principal flt x = cr_principal flt y \<or> cr_fingerprint x = cr_fingerprint y
   | _ \<Rightarrow> False)"

definition duty_pair :: "string \<Rightarrow> string \<Rightarrow> string list" where
  "duty_pair a b = sort (remdups [a, b])"

definition binding_conflict :: "(rat \<Rightarrow> string) \<Rightarrow> policy \<Rightarrow> role_binding \<Rightarrow> role_binding \<Rightarrow> bool" where
  "binding_conflict flt p a b \<longleftrightarrow> same_identity flt p (rb_principal a) (rb_principal b)
     \<and> duty_pair (rb_role a) (rb_role b) \<in> set (po_duties p) \<and> scopes_overlap (rb_scope a) (rb_scope b)"

fun any_conflict :: "(rat \<Rightarrow> string) \<Rightarrow> policy \<Rightarrow> role_binding list \<Rightarrow> bool" where
  "any_conflict flt p [] = False"
| "any_conflict flt p (b # bs) = (list_ex (binding_conflict flt p b) bs \<or> any_conflict flt p bs)"

definition new_policy :: "(rat \<Rightarrow> string) \<Rightarrow> authz_principal list \<Rightarrow> role list \<Rightarrow> role_binding list \<Rightarrow> bytes \<Rightarrow> string list list
    \<Rightarrow> verifier option \<Rightarrow> (string, string) dict \<Rightarrow> policy option" where
  "new_policy flt ps rs bs key duties identity aliases =
     (let p = \<lparr>po_principals = map (\<lambda>x. (ap_id x, x)) ps, po_roles = map (\<lambda>x. (ro_id x, x)) rs, po_bindings = bs,
           po_duties = sort (map (\<lambda>d. sort (remdups d)) duties), po_key = key, po_identity = identity, po_aliases = aliases\<rparr>
      in if length key < 32 \<or> 5000 < length ps \<or> 128 < length rs \<or> 5000 < length bs
        \<or> \<not> list_all authz_principal_ok ps \<or> \<not> list_all role_ok rs \<or> \<not> list_all binding_ok bs
        \<or> list_ex (\<lambda>(a, c). a \<notin> set (map ap_id ps) \<or> (case identity of None \<Rightarrow> True | Some v \<Rightarrow> dict_get (vf_credentials v) c = None)) aliases
        \<or> \<not> distinct (map ap_id ps) \<or> \<not> distinct (map ro_id rs)
        \<or> list_ex (\<lambda>b. rb_principal b \<notin> set (map ap_id ps) \<or> rb_role b \<notin> set (map ro_id rs)) bs
        \<or> list_ex (\<lambda>d. length d \<noteq> 2 \<or> \<not> list_all authz_id d) (po_duties p)
        \<or> any_conflict flt p bs
      then None else Some p)"

text \<open>\<open>str\<close> of a byte string, which is how \<open>default=str\<close> prints a public key.\<close>

definition byte_repr :: "char \<Rightarrow> byte \<Rightarrow> string" where
  "byte_repr quote b = (let n = unat b; c = char_of n in
     if c = quote \<or> n = 92 then [CHR 0x5C, c]
     else if n = 9 then [CHR 0x5C, CHR ''t''] else if n = 10 then [CHR 0x5C, CHR ''n'']
     else if n = 13 then [CHR 0x5C, CHR ''r'']
     else if n < 32 \<or> 127 \<le> n then [CHR 0x5C, CHR ''x'', hex_digit (n div 16), hex_digit (n mod 16)]
     else [c])"

definition bytes_repr :: "bytes \<Rightarrow> string" where
  "bytes_repr bs = (let quote = (if 39 \<in> set bs \<and> 34 \<notin> set bs then CHR 0x22 else CHR 0x27)
     in ''b'' @ [quote] @ concat (map (byte_repr quote) bs) @ [quote])"

definition credential_document :: "credential \<Rightarrow> pyval" where
  "credential_document c = PDict [(''credential_id'', PStr (cr_id c)), (''issuer'', PStr (cr_issuer c)),
     (''subject'', PStr (cr_subject c)), (''public_key'', PStr (bytes_repr (cr_public_key c))),
     (''enabled'', PBool (cr_enabled c)), (''expires_at'', PFloat (Fin (cr_expires c)))]"

definition strs :: "string list \<Rightarrow> pyval" where
  "strs ss = PList (map PStr ss)"

definition policy_document :: "policy \<Rightarrow> pyval" where
  "policy_document p = PDict [
     (''principals'', PList (map (\<lambda>x. PDict [(''principal_id'', PStr (ap_id x)), (''kind'', PStr (kind_text (ap_kind x))),
        (''enabled'', PBool (ap_enabled x)), (''expires_at'', ap_expires x)]) (sort_key ap_id (map snd (po_principals p))))),
     (''roles'', PList (map (\<lambda>r. PDict [(''role_id'', PStr (ro_id r)), (''allow'', strs (ro_allow r)), (''deny'', strs (ro_deny r))])
        (sort_key ro_id (map snd (po_roles p))))),
     (''bindings'', PList (map (\<lambda>b. PDict [(''principal_id'', PStr (rb_principal b)), (''role_id'', PStr (rb_role b)),
        (''scope'', PStr (rb_scope b)), (''expires_at'', rb_expires b)])
        (sort_key (\<lambda>b. [rb_principal b, rb_role b, rb_scope b]) (po_bindings p)))),
     (''duty_constraints'', PList (map strs (filter (\<lambda>d. set d \<subseteq> set (dict_keys (po_roles p))) (po_duties p)))),
     (''credential_bindings'', PDict (case po_identity p of None \<Rightarrow> [] | Some v \<Rightarrow>
        map (\<lambda>(a, c). (a, case dict_get (vf_credentials v) c of None \<Rightarrow> PNone | Some r \<Rightarrow> credential_document r)) (po_aliases p)))]"

definition authz_digest :: "(rat \<Rightarrow> string) \<Rightarrow> pyval \<Rightarrow> string" where
  "authz_digest flt v = hex_text (sha256 (case canonical False flt v of None \<Rightarrow> [] | Some bs \<Rightarrow> bs))"

definition policy_hash :: "(rat \<Rightarrow> string) \<Rightarrow> policy \<Rightarrow> string" where
  "policy_hash flt p = authz_digest flt (policy_document p)"

definition request_items :: "auth_request \<Rightarrow> (string \<times> pyval) list" where
  "request_items r = [(''request_id'', PStr (ar_id r)), (''principal_id'', PStr (ar_principal r)),
     (''permission'', PStr (ar_permission r)), (''scope'', PStr (ar_scope r)), (''resource_id'', PStr (ar_resource r))]"

definition request_digest :: "(rat \<Rightarrow> string) \<Rightarrow> auth_request \<Rightarrow> string" where
  "request_digest flt r = authz_digest flt (PDict (request_items r))"

definition authentication_digest :: "(rat \<Rightarrow> string) \<Rightarrow> policy \<Rightarrow> auth_request \<Rightarrow> string" where
  "authentication_digest flt p r = authz_digest flt (PDict [(''request'', PDict (request_items r)), (''policy_hash'', PStr (policy_hash flt p))])"

section \<open>Deciding\<close>

definition unexpired :: "rat \<Rightarrow> pyval \<Rightarrow> bool" where
  "unexpired now v \<longleftrightarrow> expiry v = 0 \<or> now < expiry v"

definition active_bindings :: "policy \<Rightarrow> auth_request \<Rightarrow> rat \<Rightarrow> role_binding list" where
  "active_bindings p r now = filter (\<lambda>b. rb_principal b = ar_principal r \<and> unexpired now (rb_expires b)
     \<and> scope_contains (rb_scope b) (ar_scope r)) (po_bindings p)"

definition active_roles :: "policy \<Rightarrow> auth_request \<Rightarrow> rat \<Rightarrow> role list" where
  "active_roles p r now = map (\<lambda>i. the (dict_get (po_roles p) i)) (sort (remdups (map rb_role (active_bindings p r now))))"

definition any_rule :: "(role \<Rightarrow> string list) \<Rightarrow> role list \<Rightarrow> string \<Rightarrow> bool" where
  "any_rule f roles perm \<longleftrightarrow> list_ex (\<lambda>x. list_ex (\<lambda>rule. matches_permission rule perm) (f x)) roles"

definition earliest :: "rat list \<Rightarrow> rat" where
  "earliest ts = (case filter (\<lambda>t. t \<noteq> 0) ts of [] \<Rightarrow> 0 | u # us \<Rightarrow> foldl min u us)"

record verdict =
  vd_allowed :: bool
  vd_reason :: string
  vd_roles :: "string list"
  vd_until :: rat

definition evaluate :: "policy \<Rightarrow> auth_request \<Rightarrow> rat \<Rightarrow> verdict" where
  "evaluate p r now = (case dict_get (po_principals p) (ar_principal r) of
     None \<Rightarrow> \<lparr>vd_allowed = False, vd_reason = ''principal not found'', vd_roles = [], vd_until = 0\<rparr>
   | Some who \<Rightarrow>
       if \<not> ap_enabled who then \<lparr>vd_allowed = False, vd_reason = ''principal disabled'', vd_roles = [], vd_until = 0\<rparr>
       else if \<not> unexpired now (ap_expires who)
       then \<lparr>vd_allowed = False, vd_reason = ''principal expired'', vd_roles = [], vd_until = 0\<rparr>
       else (let roles = active_roles p r now;
                 denied = any_rule ro_deny roles (ar_permission r);
                 permitted = any_rule ro_allow roles (ar_permission r)
             in \<lparr>vd_allowed = (\<not> denied \<and> permitted),
                 vd_reason = (if denied then ''explicit deny'' else if permitted then ''role permission matched''
                   else ''no matching role permission''),
                 vd_roles = map ro_id roles,
                 vd_until = earliest (expiry (ap_expires who) # map (\<lambda>b. expiry (rb_expires b)) (active_bindings p r now))\<rparr>))"

definition decision_items :: "auth_decision \<Rightarrow> pyval" where
  "decision_items d = PDict (request_items (ad_request d) @ [(''request_digest'', PStr (ad_digest d)),
     (''allowed'', PBool (ad_allowed d)), (''reason'', PStr (ad_reason d)), (''matched_roles'', strs (ad_roles d)),
     (''principal_kind'', PStr (ad_kind d)), (''decided_at'', PFloat (Fin (ad_at d))), (''valid_until'', PFloat (Fin (ad_until d))),
     (''policy_hash'', PStr (ad_policy d))])"

definition decision_tag :: "(rat \<Rightarrow> string) \<Rightarrow> bytes \<Rightarrow> auth_decision \<Rightarrow> string" where
  "decision_tag flt key d = hex_text (hmac_sha256 key (case canonical False flt (decision_items d) of None \<Rightarrow> [] | Some bs \<Rightarrow> bs))"

definition make_decision :: "(rat \<Rightarrow> string) \<Rightarrow> policy \<Rightarrow> auth_request \<Rightarrow> rat \<Rightarrow> auth_decision" where
  "make_decision flt p r now =
     (let v = evaluate p r now;
          d = \<lparr>ad_request = r, ad_digest = request_digest flt r, ad_allowed = vd_allowed v, ad_reason = vd_reason v,
            ad_roles = vd_roles v,
            ad_kind = (case dict_get (po_principals p) (ar_principal r) of None \<Rightarrow> ''unknown'' | Some w \<Rightarrow> kind_text (ap_kind w)),
            ad_at = now, ad_until = vd_until v, ad_policy = policy_hash flt p, ad_hmac = ''''\<rparr>
      in d\<lparr>ad_hmac := decision_tag flt (po_key p) d\<rparr>)"

definition verify_decision :: "(rat \<Rightarrow> string) \<Rightarrow> policy \<Rightarrow> auth_decision \<Rightarrow> bool" where
  "verify_decision flt p d \<longleftrightarrow> ad_policy d = policy_hash flt p \<and> ad_hmac d = decision_tag flt (po_key p) d"

section \<open>The cache of decided requests\<close>

datatype authz_error = AzValueError | AzPermissionError | AzOverflowError | AzSinkError

type_synonym auth_receipts = "(string, string \<times> auth_decision) dict"

definition max_receipts :: nat where
  "max_receipts = 10000"

definition move_to_end :: "'k \<Rightarrow> ('k, 'v) dict \<Rightarrow> ('k, 'v) dict" where
  "move_to_end k d = (case dict_get d k of None \<Rightarrow> d | Some v \<Rightarrow> dict_del k d @ [(k, v)])"

text \<open>The first locked block: \<open>Inr None\<close> goes on to evaluate the request.\<close>

definition lookup_decision :: "(rat \<Rightarrow> string) \<Rightarrow> auth_request \<Rightarrow> rat \<Rightarrow> (auth_receipts, authz_error, auth_decision option) oper" where
  "lookup_decision flt r now rs = (case dict_get rs (ar_id r) of
     None \<Rightarrow> (rs, Inr None)
   | Some (digest, d) \<Rightarrow>
       if digest \<noteq> request_digest flt r then (rs, Inl AzValueError)
       else if ad_until d = 0 \<or> now < ad_until d then (move_to_end (ar_id r) rs, Inr (Some d))
       else (dict_del (ar_id r) rs, Inr None))"

text \<open>The second locked block.\<close>

definition commit_decision :: "(rat \<Rightarrow> string) \<Rightarrow> auth_request \<Rightarrow> auth_decision \<Rightarrow> (auth_receipts, authz_error, auth_decision) oper" where
  "commit_decision flt r d rs = (case dict_get rs (ar_id r) of
     Some (digest, d') \<Rightarrow> if digest \<noteq> request_digest flt r then (rs, Inl AzValueError) else (rs, Inr d')
   | None \<Rightarrow> (let rs = rs @ [(ar_id r, (request_digest flt r, d))] in (drop (length rs - max_receipts) rs, Inr d)))"

definition decide :: "(rat \<Rightarrow> string) \<Rightarrow> (auth_decision \<Rightarrow> bool) \<Rightarrow> policy \<Rightarrow> auth_request \<Rightarrow> rat option \<Rightarrow> (auth_receipts, authz_error, auth_decision) oper" where
  "decide flt sink p r clock = (case clock of
     None \<Rightarrow> op_raise AzValueError
   | Some now \<Rightarrow>
       if now < 0 then op_raise AzValueError
       else op_then (lookup_decision flt r now) (\<lambda>known. case known of
         Some d \<Rightarrow> op_return d
       | None \<Rightarrow> (let d = make_decision flt p r now in
           if sink d then commit_decision flt r d else op_raise AzSinkError)))"

text \<open>
  The proof is checked at the time \<open>vnow\<close>, the verifier's clock when no time is given; \<open>clock\<close> is the
  time of the decision.
\<close>

definition decide_authenticated :: "(rat \<Rightarrow> string) \<Rightarrow> (bytes \<Rightarrow> bytes \<Rightarrow> bytes \<Rightarrow> bool) \<Rightarrow> (auth_decision \<Rightarrow> bool) \<Rightarrow> policy
    \<Rightarrow> auth_request \<Rightarrow> signed_proof \<Rightarrow> pyval \<Rightarrow> rat option \<Rightarrow> (auth_receipts, authz_error, auth_decision) oper" where
  "decide_authenticated flt ed25519 sink p r pf vnow clock =
     (case (po_identity p, alias_credential p (ar_principal r)) of
        (Some v, Some c) \<Rightarrow>
          (case verify_proof flt ed25519 v pf (authentication_digest flt p r) vnow of
             Inl IdPermissionError \<Rightarrow> op_raise AzPermissionError
           | Inl IdValueError \<Rightarrow> op_raise AzValueError
           | Inl IdOverflowError \<Rightarrow> op_raise AzOverflowError
           | Inr pr \<Rightarrow> if pr_id pr \<noteq> cr_principal flt c then op_raise AzPermissionError
               else decide flt sink p r clock)
      | _ \<Rightarrow> op_raise AzPermissionError)"

section \<open>The standard roles\<close>

definition standard_roles :: "role list" where
  "standard_roles = [
     make_role ''viewer'' [''alert.read'', ''case.read'', ''evidence.read'', ''inventory.read'', ''module.read'', ''posture.read''] [],
     make_role ''analyst'' [''alert.acknowledge'', ''alert.read'', ''case.comment'', ''case.create'', ''case.read'',
       ''evidence.read'', ''inventory.read'', ''posture.read''] [],
     make_role ''hunter'' [''case.comment'', ''case.create'', ''case.read'', ''evidence.read'', ''hunt.cancel'', ''hunt.create'',
       ''hunt.preview'', ''hunt.read'', ''inventory.read''] [],
     make_role ''responder'' [''alert.read'', ''case.comment'', ''case.read'', ''evidence.read'', ''response.approve'',
       ''response.execute'', ''response.preview'', ''response.propose''] [''response.register''],
     make_role ''detection-engineer'' [''detection.create'', ''detection.export'', ''detection.read'', ''detection.stage'',
       ''detection.test'', ''policy.preview''] [''detection.activate'', ''release.sign''],
     make_role ''fleet-operator'' [''collection.preview'', ''device.quarantine'', ''device.read'', ''device.revoke'', ''job.cancel'',
       ''job.create'', ''job.read'', ''policy.read''] [''policy.activate'', ''release.sign''],
     make_role ''tenant-administrator'' [''device.read'', ''identity.bind'', ''identity.read'', ''identity.revoke'', ''policy.approve'',
       ''policy.preview'', ''role.bind'', ''role.read'', ''tenant.read'', ''tenant.update''] [''platform.configure'', ''release.sign''],
     make_role ''platform-administrator'' [''platform.configure'', ''platform.read'', ''policy.activate'', ''policy.approve'',
       ''policy.preview'', ''release.read'', ''release.verify'', ''role.bind'', ''role.read'']
       [''audit.delete'', ''evidence.delete'', ''release.sign''],
     make_role ''auditor'' [''audit.export'', ''audit.read'', ''case.read'', ''evidence.read'', ''policy.read'', ''release.read'']
       [''audit.write'', ''case.write'', ''evidence.write'', ''policy.activate'', ''response.execute'']]"

definition default_duties :: "string list list" where
  "default_duties = map (\<lambda>r. [''auditor'', r]) [''analyst'', ''hunter'', ''responder'', ''detection-engineer'', ''fleet-operator'',
     ''tenant-administrator'', ''platform-administrator'']
   @ [[''detection-engineer'', ''tenant-administrator''], [''detection-engineer'', ''platform-administrator'']]"

section \<open>Scopes\<close>

lemma starts_with_iff: "starts_with p s \<longleftrightarrow> (\<exists>t. s = p @ t)"
  by (metis append_eq_conv_conj append_take_drop_id starts_with_def)

lemma rstrip_canonical: "scope_ok s \<Longrightarrow> rstrip_slash s = s"
proof -
  assume "scope_ok s"
  then have "\<not> ends_with ''/'' s" by (simp add: scope_ok_def)
  then have "rev s = [] \<or> hd (rev s) \<noteq> CHR ''/''"
    by (cases "rev s") (auto simp: ends_with_def starts_with_def)
  then have "dropWhile (\<lambda>c. c = CHR ''/'') (rev s) = rev s"
    by (cases "rev s") auto
  then show ?thesis by (simp add: rstrip_slash_def)
qed

lemma contains_iff: "scope_ok a \<Longrightarrow> scope_contains a s \<longleftrightarrow> s = a \<or> (\<exists>t. s = a @ ''/'' @ t)"
  by (simp add: scope_contains_def rstrip_canonical starts_with_iff)

lemma contains_trans: "scope_ok a \<Longrightarrow> scope_ok b \<Longrightarrow> scope_contains a b \<Longrightarrow> scope_contains b s \<Longrightarrow> scope_contains a s"
  by (auto simp: contains_iff)

text \<open>Two scopes that contain a third overlap.\<close>

lemma contains_common:
  assumes ok: "scope_ok a" "scope_ok b" and c: "scope_contains a s" "scope_contains b s"
  shows "scopes_overlap a b"
proof -
  consider "s = a" | "s = b" | t u where "s = a @ ''/'' @ t" "s = b @ ''/'' @ u"
  proof -
    have "(s = a \<or> (\<exists>t. s = a @ ''/'' @ t)) \<and> (s = b \<or> (\<exists>u. s = b @ ''/'' @ u))"
      using c ok by (simp add: contains_iff)
    with that show ?thesis by blast
  qed
  then show ?thesis
  proof cases
    case 3
    then have "a @ ''/'' @ t = b @ ''/'' @ u" by simp
    then obtain w where "a = b @ w \<and> w @ ''/'' @ t = ''/'' @ u \<or> a @ w = b \<and> ''/'' @ t = w @ ''/'' @ u"
      by (auto simp: append_eq_append_conv2)
    then show ?thesis
      using ok by (cases w) (auto simp: scopes_overlap_def contains_iff)
  qed (use c in \<open>simp_all add: scopes_overlap_def\<close>)
qed

section \<open>Separation of duty\<close>

lemma same_identity_sym: "same_identity flt p a b = same_identity flt p b a"
  by (auto simp: same_identity_def split: option.splits)

lemma duty_pair_sym: "duty_pair a b = duty_pair b a"
  using linear [of a b] by (cases "a = b") (auto simp: duty_pair_def)

lemma conflict_sym: "binding_conflict flt p a b = binding_conflict flt p b a"
  using same_identity_sym duty_pair_sym by (auto simp: binding_conflict_def scopes_overlap_def)

lemma no_conflict:
  "\<not> any_conflict flt p bs \<Longrightarrow> a \<in> set bs \<Longrightarrow> b \<in> set bs \<Longrightarrow> a \<noteq> b \<Longrightarrow> \<not> binding_conflict flt p a b"
proof (induction bs)
  case (Cons c bs)
  have c: "\<not> binding_conflict flt p c x" if "x \<in> set bs" for x
    using Cons.prems(1) that by (auto simp: list_ex_iff)
  from Cons show ?case
    using c conflict_sym by auto
qed simp

lemma evaluate_role:
  assumes "x \<in> set (vd_roles (evaluate p r t))" and "\<forall>b \<in> set (po_bindings p). \<exists>ro. dict_get (po_roles p) (rb_role b) = Some ro \<and> ro_id ro = rb_role b"
  obtains b where "b \<in> set (po_bindings p)" "rb_principal b = ar_principal r" "rb_role b = x" "scope_contains (rb_scope b) (ar_scope r)"
proof -
  have "x \<in> set (map ro_id (active_roles p r t))"
    using assms(1) by (auto simp: evaluate_def Let_def split: option.splits if_splits)
  then obtain i where i: "i \<in> rb_role ` set (active_bindings p r t)" "x = ro_id (the (dict_get (po_roles p) i))"
    by (auto simp: active_roles_def)
  then obtain b where b: "b \<in> set (active_bindings p r t)" "i = rb_role b" by blast
  then have "b \<in> set (po_bindings p)" "rb_principal b = ar_principal r" "scope_contains (rb_scope b) (ar_scope r)"
    by (simp_all add: active_bindings_def)
  moreover have "rb_role b = x"
    using assms(2) calculation(1) i(2) b(2) by fastforce
  ultimately show ?thesis by (intro that)
qed

lemma new_policy_Some:
  assumes "new_policy flt ps rs bs key duties identity aliases = Some p"
  shows "po_bindings p = bs" and "\<not> any_conflict flt p bs" and "list_all binding_ok bs" and "list_all (\<lambda>d. length d = 2) (po_duties p)"
    and "\<forall>b \<in> set (po_bindings p). \<exists>ro. dict_get (po_roles p) (rb_role b) = Some ro \<and> ro_id ro = rb_role b"
    and "list_all authz_principal_ok (map snd (po_principals p))" and "po_roles p = map (\<lambda>x. (ro_id x, x)) rs"
    and "po_principals p = map (\<lambda>x. (ap_id x, x)) ps"
proof -
  have n: "p = \<lparr>po_principals = map (\<lambda>x. (ap_id x, x)) ps, po_roles = map (\<lambda>x. (ro_id x, x)) rs, po_bindings = bs,
           po_duties = sort (map (\<lambda>d. sort (remdups d)) duties), po_key = key, po_identity = identity, po_aliases = aliases\<rparr>"
    and c: "\<not> any_conflict flt p bs" "list_all binding_ok bs" "list_all authz_principal_ok ps"
      "\<not> list_ex (\<lambda>b. rb_principal b \<notin> set (map ap_id ps) \<or> rb_role b \<notin> set (map ro_id rs)) bs"
      "\<not> list_ex (\<lambda>d. length d \<noteq> 2 \<or> \<not> list_all authz_id d) (sort (map (\<lambda>d. sort (remdups d)) duties))"
    using assms unfolding new_policy_def Let_def by (auto split: if_splits)
  show "po_bindings p = bs" "po_roles p = map (\<lambda>x. (ro_id x, x)) rs" "po_principals p = map (\<lambda>x. (ap_id x, x)) ps"
    by (simp_all add: n)
  show "\<not> any_conflict flt p bs" "list_all binding_ok bs" by fact+
  show "list_all (\<lambda>d. length d = 2) (po_duties p)"
    using c(5) by (auto simp: n list_all_iff list_ex_iff)
  show "list_all authz_principal_ok (map snd (po_principals p))"
    using c(3) by (simp add: n comp_def)
  show "\<forall>b \<in> set (po_bindings p). \<exists>ro. dict_get (po_roles p) (rb_role b) = Some ro \<and> ro_id ro = rb_role b"
  proof
    fix b assume "b \<in> set (po_bindings p)"
    with c(4) have "rb_role b \<in> set (dict_keys (po_roles p))"
      by (auto simp: n list_ex_iff)
    then obtain ro where ro: "dict_get (po_roles p) (rb_role b) = Some ro"
      by (metis dict_get_keys not_None_eq)
    then have "(rb_role b, ro) \<in> set (po_roles p)"
      by (rule dict_get_in)
    with ro show "\<exists>ro. dict_get (po_roles p) (rb_role b) = Some ro \<and> ro_id ro = rb_role b"
      by (auto simp: n)
  qed
qed

lemma overlap_below:
  assumes ok: "scope_ok a" "scope_ok b" "scope_ok r" "scope_ok s"
    and c: "scope_contains a r" "scope_contains b s" and o: "scopes_overlap r s"
  shows "scopes_overlap a b"
proof -
  from o consider "scope_contains r s" | "scope_contains s r"
    by (auto simp: scopes_overlap_def)
  then show ?thesis
  proof cases
    case 1
    from contains_common [OF ok(1,2) contains_trans [OF ok(1,3) c(1) 1] c(2)] show ?thesis .
  next
    case 2
    from contains_common [OF ok(1,2) c(1) contains_trans [OF ok(2,4) c(2) 2]] show ?thesis .
  qed
qed

text \<open>
  C17: In a policy the constructor has accepted, no identity ever acts in two roles that a duty
  constraint separates: not at different times, not through two principals bound to one enrolled
  person or one key, and not for two different requests, as long as their scopes overlap.
\<close>

theorem separation_of_duty:
  assumes "new_policy flt ps rs bs key duties identity aliases = Some p"
    and "request_ok r" "request_ok s" and "same_identity flt p (ar_principal r) (ar_principal s)"
    and "scopes_overlap (ar_scope r) (ar_scope s)"
    and "x \<in> set (vd_roles (evaluate p r t))" "y \<in> set (vd_roles (evaluate p s u))"
  shows "duty_pair x y \<notin> set (po_duties p)"
proof
  note n = new_policy_Some [OF assms(1)]
  assume duty: "duty_pair x y \<in> set (po_duties p)"
  obtain a where a: "a \<in> set (po_bindings p)" "rb_principal a = ar_principal r" "rb_role a = x" "scope_contains (rb_scope a) (ar_scope r)"
    by (rule evaluate_role [OF assms(6) n(5)])
  obtain b where b: "b \<in> set (po_bindings p)" "rb_principal b = ar_principal s" "rb_role b = y" "scope_contains (rb_scope b) (ar_scope s)"
    by (rule evaluate_role [OF assms(7) n(5)])
  have ok: "scope_ok (rb_scope a)" "scope_ok (rb_scope b)" "scope_ok (ar_scope r)" "scope_ok (ar_scope s)"
    using a(1) b(1) n(1,3) assms(2,3) by (auto simp: list_all_iff binding_ok_def request_ok_def)
  have "binding_conflict flt p a b"
    using overlap_below [OF ok a(4) b(4) assms(5)] assms(4) duty a b by (simp add: binding_conflict_def)
  moreover have "a \<noteq> b"
  proof
    assume "a = b"
    with a b have "length (duty_pair x y) = 1"
      by (simp add: duty_pair_def)
    with duty n(4) show False
      by (simp add: list_all_iff)
  qed
  ultimately show False
    using no_conflict [OF n(2)] a(1) b(1) n(1) by blast
qed

section \<open>A verdict lasts as long as it says\<close>

lemma foldl_min: "foldl min (u :: rat) us \<le> u \<and> (\<forall>t \<in> set us. foldl min u us \<le> t) \<and> foldl min u us \<in> insert u (set us)"
proof (induction us arbitrary: u)
  case (Cons v us)
  from Cons [of "min u v"] show ?case
    by (auto simp: min_def split: if_splits)
qed simp

lemma earliest_le: "t \<in> set ts \<Longrightarrow> t \<noteq> 0 \<Longrightarrow> earliest ts \<le> t \<and> earliest ts \<in> set ts - {0}"
proof -
  assume t: "t \<in> set ts" "t \<noteq> 0"
  then obtain u us where f: "filter (\<lambda>t. t \<noteq> 0) ts = u # us"
    by (cases "filter (\<lambda>t. t \<noteq> 0) ts") (auto simp: filter_empty_conv)
  have sub: "set (u # us) = set ts - {0}"
    by (auto simp: f [symmetric])
  have e: "earliest ts = foldl min u us"
    by (simp add: earliest_def f)
  from t sub have "t \<in> set (u # us)"
    by blast
  moreover have "earliest ts \<in> set (u # us)"
    using foldl_min [of u us] by (auto simp: e)
  ultimately show ?thesis
    using foldl_min [of u us] sub e by auto
qed

text \<open>A clock reading the returned bound still covers.\<close>

definition covered :: "rat \<Rightarrow> rat \<Rightarrow> bool" where
  "covered now bound \<longleftrightarrow> bound = 0 \<or> now < bound"

lemma covered_all:
  assumes "covered now (earliest ts)" and "t \<in> set ts" and "\<forall>t \<in> set ts. 0 \<le> t"
  shows "t = 0 \<or> now < t"
proof (cases "t = 0")
  case False
  note e = earliest_le [OF assms(2) False]
  then have "earliest ts \<noteq> 0" by blast
  with assms(1) e show ?thesis by (simp add: covered_def)
qed simp

lemma unexpired_later: "\<not> unexpired now v \<Longrightarrow> now \<le> later \<Longrightarrow> \<not> unexpired later v"
  by (simp add: unexpired_def)

lemma expiry_nonneg: "expiry_ok v \<Longrightarrow> 0 \<le> expiry v"
  by (auto simp: expiry_ok_def expiry_def split: option.splits)

lemma evaluate_stable:
  assumes p: "list_all authz_principal_ok (map snd (po_principals p))" "list_all binding_ok (po_bindings p)"
    and t: "now \<le> later" "covered later (vd_until (evaluate p r now))"
  shows "evaluate p r later = evaluate p r now"
proof (cases "dict_get (po_principals p) (ar_principal r)")
  case None
  then show ?thesis by (simp add: evaluate_def)
next
  case (Some who)
  show ?thesis
  proof (cases "ap_enabled who \<and> unexpired now (ap_expires who)")
    case False
    with Some unexpired_later t(1) show ?thesis by (auto simp: evaluate_def)
  next
    case True
    let ?ts = "expiry (ap_expires who) # map (\<lambda>b. expiry (rb_expires b)) (active_bindings p r now)"
    have "authz_principal_ok who"
      using p(1) dict_get_in [OF Some] by (force simp: list_all_iff)
    moreover have "binding_ok b" if "b \<in> set (active_bindings p r now)" for b
      using p(2) that by (simp add: active_bindings_def list_all_iff)
    ultimately have nonneg: "\<forall>t \<in> set ?ts. 0 \<le> t"
      by (auto simp: authz_principal_ok_def binding_ok_def intro: expiry_nonneg)
    have "covered later (earliest ?ts)"
      using t(2) Some True by (simp add: evaluate_def Let_def)
    note c = covered_all [OF this _ nonneg]
    have who: "unexpired later (ap_expires who)"
      using c [of "expiry (ap_expires who)"] by (auto simp: unexpired_def)
    have "unexpired later (rb_expires b) = unexpired now (rb_expires b)"
      if "b \<in> set (po_bindings p)" "rb_principal b = ar_principal r" "scope_contains (rb_scope b) (ar_scope r)" for b
    proof (cases "unexpired now (rb_expires b)")
      case True
      with that have "b \<in> set (active_bindings p r now)"
        by (simp add: active_bindings_def)
      with c [of "expiry (rb_expires b)"] True show ?thesis
        by (auto simp: unexpired_def)
    next
      case False
      with unexpired_later t(1) show ?thesis by blast
    qed
    then have "active_bindings p r later = active_bindings p r now"
      unfolding active_bindings_def by (intro filter_cong) auto
    then show ?thesis
      using Some True who by (simp add: evaluate_def active_roles_def)
  qed
qed


section \<open>The cache\<close>

text \<open>
  The steps of any number of callers on the cache: a whole decision, or the two locked blocks of
  one apart, with a decision that was computed in between.
\<close>

datatype authz_event =
  EvDecide auth_request "rat option"
| EvLookup auth_request rat
| EvCommit auth_request rat

primrec authz_step :: "(rat \<Rightarrow> string) \<Rightarrow> (auth_decision \<Rightarrow> bool) \<Rightarrow> policy \<Rightarrow> auth_receipts \<Rightarrow> authz_event \<Rightarrow> auth_receipts" where
  "authz_step flt sink p rs (EvDecide r clock) = fst (decide flt sink p r clock rs)"
| "authz_step flt sink p rs (EvLookup r now) = fst (lookup_decision flt r now rs)"
| "authz_step flt sink p rs (EvCommit r now) = fst (commit_decision flt r (make_decision flt p r now) rs)"

definition entry_ok :: "(rat \<Rightarrow> string) \<Rightarrow> policy \<Rightarrow> string \<Rightarrow> string \<times> auth_decision \<Rightarrow> bool" where
  "entry_ok flt p k e \<longleftrightarrow> (\<exists>r t. k = ar_id r \<and> e = (request_digest flt r, make_decision flt p r t))"

definition receipts_inv :: "(rat \<Rightarrow> string) \<Rightarrow> policy \<Rightarrow> auth_receipts \<Rightarrow> bool" where
  "receipts_inv flt p rs \<longleftrightarrow> dict_wf rs \<and> length rs \<le> max_receipts \<and> (\<forall>(k, e) \<in> set rs. entry_ok flt p k e)"

lemma set_delete: "set (dict_del k d) \<subseteq> set d"
  by (induction d) auto

lemma inv_delete: "receipts_inv flt p rs \<Longrightarrow> receipts_inv flt p (dict_del k rs)"
  using set_delete [of k rs] length_dict_del_le [of k rs] by (auto simp: receipts_inv_def)

lemma inv_move:
  assumes "receipts_inv flt p rs"
  shows "receipts_inv flt p (move_to_end k rs)"
proof (cases "dict_get rs k")
  case None
  with assms show ?thesis by (simp add: move_to_end_def)
next
  case (Some e)
  have "k \<notin> set (dict_keys (dict_del k rs))"
    by (metis dict_get_del dict_get_keys)
  moreover have "Suc (length (dict_del k rs)) = length rs"
    using length_dict_del [of rs k] assms Some by (simp add: receipts_inv_def)
  moreover have "(k, e) \<in> set rs"
    by (rule dict_get_in [OF Some])
  ultimately show ?thesis
    using assms Some inv_delete [OF assms, of k] by (auto simp: receipts_inv_def move_to_end_def dict_wf_def)
qed

lemma lookup_inv: "receipts_inv flt p rs \<Longrightarrow> receipts_inv flt p (fst (lookup_decision flt r now rs))"
  by (auto simp: lookup_decision_def inv_delete inv_move split: option.split)

lemma commit_inv:
  assumes "receipts_inv flt p rs"
  shows "receipts_inv flt p (fst (commit_decision flt r (make_decision flt p r now) rs))"
proof (cases "dict_get rs (ar_id r)")
  case None
  define rs' where "rs' = rs @ [(ar_id r, (request_digest flt r, make_decision flt p r now))]"
  have "ar_id r \<notin> set (dict_keys rs)"
    using None by (metis dict_get_keys)
  then have "dict_wf rs'" "\<forall>(k, e) \<in> set rs'. entry_ok flt p k e"
    using assms by (auto simp: rs'_def receipts_inv_def dict_wf_def entry_ok_def)
  then have "dict_wf (drop n rs')" "\<forall>(k, e) \<in> set (drop n rs'). entry_ok flt p k e" for n
    by (auto simp: dict_wf_def drop_map [symmetric] dest: in_set_dropD)
  then have "receipts_inv flt p (drop (length rs' - max_receipts) rs')"
    by (simp add: receipts_inv_def)
  with None show ?thesis
    by (simp add: commit_decision_def rs'_def Let_def)
next
  case (Some e)
  with assms show ?thesis by (cases e) (simp add: commit_decision_def)
qed

lemma decide_inv: "receipts_inv flt p rs \<Longrightarrow> receipts_inv flt p (fst (decide flt sink p r clock rs))"
proof -
  assume i: "receipts_inv flt p rs"
  show ?thesis
  proof (cases clock)
    case None
    with i show ?thesis by (simp add: decide_def)
  next
    case (Some now)
    obtain rs1 known where l: "lookup_decision flt r now rs = (rs1, known)" by fastforce
    have i1: "receipts_inv flt p rs1"
      using lookup_inv [OF i, of r now] by (simp add: l)
    show ?thesis
      using Some i i1 l commit_inv [OF i1, of r now]
      by (cases known) (auto simp: decide_def op_then_def Let_def split: option.split)
  qed
qed

interpretation authz: machine "authz_step flt sink p" "receipts_inv flt p" for flt sink p
proof unfold_locales
  fix rs e
  assume "receipts_inv flt p rs"
  then show "receipts_inv flt p (authz_step flt sink p rs e)"
    by (cases e) (auto intro: decide_inv lookup_inv commit_inv)
qed

lemma decision_fields:
  "ad_request (make_decision flt p r t) = r" "ad_at (make_decision flt p r t) = t"
  "ad_allowed (make_decision flt p r t) = vd_allowed (evaluate p r t)"
  "ad_reason (make_decision flt p r t) = vd_reason (evaluate p r t)"
  "ad_roles (make_decision flt p r t) = vd_roles (evaluate p r t)"
  "ad_until (make_decision flt p r t) = vd_until (evaluate p r t)"
  "ad_digest (make_decision flt p r t) = request_digest flt r"
  by (simp_all add: make_decision_def Let_def)

lemma make_decision_verifies: "verify_decision flt p (make_decision flt p r t)"
  by (simp add: verify_decision_def make_decision_def Let_def decision_tag_def decision_items_def)

text \<open>What \<open>decide\<close> can return.\<close>

lemma decide_Inr:
  assumes "decide flt sink p r (Some now) rs = (rs', Inr d)" and "receipts_inv flt p rs"
  shows "\<exists>q t. d = make_decision flt p q t \<and> ar_id q = ar_id r \<and> request_digest flt q = request_digest flt r \<and> 0 \<le> now
    \<and> (t = now \<or> covered now (ad_until d) \<and> dict_get rs (ar_id r) = Some (request_digest flt r, d))"
proof -
  have now: "0 \<le> now" and r: "op_then (lookup_decision flt r now) (\<lambda>known. case known of
         Some d \<Rightarrow> op_return d
       | None \<Rightarrow> (let d = make_decision flt p r now in
           if sink d then commit_decision flt r d else op_raise AzSinkError)) rs = (rs', Inr d)"
    using assms(1) by (auto simp: decide_def split: if_splits)
  have fresh: ?thesis if "commit_decision flt r (make_decision flt p r now) rs1 = (rs', Inr d)" "dict_get rs1 (ar_id r) = None" for rs1
    using that now by (auto simp: commit_decision_def Let_def)
  show ?thesis
  proof (cases "dict_get rs (ar_id r)")
    case None
    then have "lookup_decision flt r now rs = (rs, Inr None)"
      by (simp add: lookup_decision_def)
    with r fresh None show ?thesis
      by (auto simp: Let_def split: if_splits)
  next
    case (Some e)
    obtain dg d0 where e: "e = (dg, d0)" by fastforce
    have "entry_ok flt p (ar_id r) (dg, d0)"
      using assms(2) dict_get_in [OF Some] e by (auto simp: receipts_inv_def)
    then obtain q t where q: "ar_id q = ar_id r" "dg = request_digest flt q" "d0 = make_decision flt p q t"
      by (auto simp: entry_ok_def)
    show ?thesis
    proof (cases "dg = request_digest flt r \<and> covered now (ad_until d0)")
      case True
      then have "lookup_decision flt r now rs = (move_to_end (ar_id r) rs, Inr (Some d0))"
        using Some e by (simp add: lookup_decision_def covered_def)
      with r have "d = d0" by simp
      have "d = make_decision flt p q t" "request_digest flt q = request_digest flt r" "covered now (ad_until d)"
        "dict_get rs (ar_id r) = Some (request_digest flt r, d)"
        using \<open>d = d0\<close> q True Some e by simp_all
      with q(1) now show ?thesis
        by (intro exI [of _ q] exI [of _ t] conjI disjI2) assumption+
    next
      case False
      show ?thesis
      proof (cases "dg = request_digest flt r")
        case True
        with False Some e have "lookup_decision flt r now rs = (dict_del (ar_id r) rs, Inr None)"
          by (simp add: lookup_decision_def covered_def)
        moreover have "dict_get (dict_del (ar_id r) rs) (ar_id r) = None"
          by (simp add: dict_get_del)
        ultimately show ?thesis
          using r fresh by (auto simp: Let_def split: if_splits)
      next
        case False
        with Some e have "lookup_decision flt r now rs = (rs, Inl AzValueError)"
          by (simp add: lookup_decision_def)
        with r show ?thesis by simp
      qed
    qed
  qed
qed

text \<open>
  C19: A decision out of the cache is as good as a fresh one.  Whatever callers did before, if none of
  the cached decisions was taken after \<open>now\<close>, a decision that \<open>decide\<close> returns at \<open>now\<close> carries the
  verdict that evaluating its request at \<open>now\<close> gives, for a request with the digest asked for, and
  its receipt verifies.
\<close>

theorem decisions_are_fresh:
  assumes "new_policy flt ps roles bs key duties identity aliases = Some p"
    and "rs = foldl (authz_step flt sink p) [] es" and "list_all (\<lambda>(k, dg, d). ad_at d \<le> now) rs"
    and "decide flt sink p r (Some now) rs = (rs', Inr d)"
  shows "ad_allowed d = vd_allowed (evaluate p (ad_request d) now) \<and> ad_reason d = vd_reason (evaluate p (ad_request d) now)
    \<and> ad_roles d = vd_roles (evaluate p (ad_request d) now) \<and> request_digest flt (ad_request d) = request_digest flt r
    \<and> verify_decision flt p d"
proof -
  note n = new_policy_Some [OF assms(1)]
  have "receipts_inv flt p []"
    by (simp add: receipts_inv_def)
  then have i: "receipts_inv flt p rs"
    unfolding assms(2) by (rule authz.inv_run)
  from decide_Inr [OF assms(4) i] obtain q t where q: "d = make_decision flt p q t" "request_digest flt q = request_digest flt r"
    and t: "t = now \<or> covered now (ad_until d) \<and> dict_get rs (ar_id r) = Some (request_digest flt r, d)"
    by blast
  have "evaluate p q now = evaluate p q t"
  proof (cases "t = now")
    case False
    with t have c: "covered now (ad_until d)" "(ar_id r, request_digest flt r, d) \<in> set rs"
      using dict_get_in [of rs "ar_id r"] by auto
    then have "t \<le> now"
      using assms(3) q(1) by (auto simp: list_all_iff decision_fields)
    from evaluate_stable [OF n(6) _ this] n(1,3) c(1) q(1) show ?thesis
      by (simp add: decision_fields)
  qed simp
  with q make_decision_verifies show ?thesis
    by (simp add: decision_fields)
qed

text \<open>
  In every run, concurrent callers included, the cache keeps at most ten thousand decisions, one
  per request identifier, and a request identifier stays bound to the request it was decided for: a
  different request under it is refused.
\<close>

theorem request_id_bound:
  assumes "rs = foldl (authz_step flt sink p) [] es" and "dict_get rs (ar_id r) = Some (dg, d)"
  shows "length rs \<le> 10000 \<and> dg = ad_digest d \<and> ar_id (ad_request d) = ar_id r
    \<and> (dg \<noteq> request_digest flt r \<longrightarrow> 0 \<le> now \<longrightarrow> decide flt sink p r (Some now) rs = (rs, Inl AzValueError))"
proof -
  have "receipts_inv flt p []"
    by (simp add: receipts_inv_def)
  then have i: "receipts_inv flt p rs"
    unfolding assms(1) by (rule authz.inv_run)
  have "entry_ok flt p (ar_id r) (dg, d)"
    using i dict_get_in [OF assms(2)] by (auto simp: receipts_inv_def)
  then have "dg = ad_digest d" "ar_id (ad_request d) = ar_id r"
    by (auto simp: entry_ok_def decision_fields)
  moreover have "decide flt sink p r (Some now) rs = (rs, Inl AzValueError)" if "dg \<noteq> request_digest flt r" "0 \<le> now"
    using that assms(2) by (simp add: decide_def lookup_decision_def op_then_def)
  ultimately show ?thesis
    using i by (simp add: receipts_inv_def max_receipts_def)
qed

section \<open>Deny precedence\<close>

text \<open>The access relation: some active role of the principal has a rule that matches.\<close>

definition reaches :: "(role \<Rightarrow> string list) \<Rightarrow> policy \<Rightarrow> auth_request \<Rightarrow> rat \<Rightarrow> bool" where
  "reaches f p r now \<longleftrightarrow> (\<exists>b ro rule. b \<in> set (po_bindings p) \<and> rb_principal b = ar_principal r \<and> unexpired now (rb_expires b)
     \<and> scope_contains (rb_scope b) (ar_scope r) \<and> dict_get (po_roles p) (rb_role b) = Some ro \<and> rule \<in> set (f ro)
     \<and> matches_permission rule (ar_permission r))"

lemma any_rule_reaches:
  assumes "\<forall>b \<in> set (po_bindings p). \<exists>ro. dict_get (po_roles p) (rb_role b) = Some ro \<and> ro_id ro = rb_role b"
  shows "any_rule f (active_roles p r now) (ar_permission r) \<longleftrightarrow> reaches f p r now"
proof -
  have "any_rule f (active_roles p r now) (ar_permission r) \<longleftrightarrow>
      (\<exists>b \<in> set (active_bindings p r now). \<exists>rule \<in> set (f (the (dict_get (po_roles p) (rb_role b)))). matches_permission rule (ar_permission r))"
    by (auto simp: any_rule_def active_roles_def list_ex_iff)
  also have "\<dots> \<longleftrightarrow> reaches f p r now"
  proof
    assume "\<exists>b \<in> set (active_bindings p r now). \<exists>rule \<in> set (f (the (dict_get (po_roles p) (rb_role b)))). matches_permission rule (ar_permission r)"
    then obtain b rule where b: "b \<in> set (active_bindings p r now)" "rule \<in> set (f (the (dict_get (po_roles p) (rb_role b))))"
      "matches_permission rule (ar_permission r)" by blast
    then have bp: "b \<in> set (po_bindings p)"
      by (simp add: active_bindings_def)
    with assms obtain ro where "dict_get (po_roles p) (rb_role b) = Some ro" by blast
    with b bp show "reaches f p r now"
      by (auto simp: reaches_def active_bindings_def)
  next
    assume "reaches f p r now"
    then show "\<exists>b \<in> set (active_bindings p r now). \<exists>rule \<in> set (f (the (dict_get (po_roles p) (rb_role b)))). matches_permission rule (ar_permission r)"
      unfolding reaches_def active_bindings_def by force
  qed
  finally show ?thesis .
qed

text \<open>
  C18: A request is allowed exactly when its principal is enabled and unexpired, some active role over
  the scope grants the permission, and none denies it: a deny anywhere wins over every grant.
\<close>

theorem allowed_exactly:
  assumes "new_policy flt ps roles bs key duties identity aliases = Some p"
  shows "vd_allowed (evaluate p r now) \<longleftrightarrow>
    (\<exists>who. dict_get (po_principals p) (ar_principal r) = Some who \<and> ap_enabled who \<and> unexpired now (ap_expires who))
    \<and> reaches ro_allow p r now \<and> \<not> reaches ro_deny p r now"
  using any_rule_reaches [OF new_policy_Some(5) [OF assms]]
  by (auto simp: evaluate_def Let_def split: option.split)

section \<open>The standard roles are sound\<close>

lemma list_sorted_set [simp]: "list_all P (sort (remdups xs)) = list_all P xs" "list_ex P (sort (remdups xs)) = list_ex P xs"
  by (simp_all add: list_all_iff list_ex_iff)

lemma role_ok_make:
  "authz_id rid \<Longrightarrow> length allow + length deny \<le> 256 \<Longrightarrow> list_all permission_ok allow \<Longrightarrow> list_all permission_ok deny \<Longrightarrow>
     role_ok (make_role rid allow deny)"
  using add_mono [OF length_remdups_leq [of allow] length_remdups_leq [of deny]] by (simp add: role_ok_def make_role_def)

text \<open>The letters the names are made of.\<close>

lemma lower_letters [simp]:
  "lower_letter (CHR ''a'')" "lower_letter (CHR ''b'')" "lower_letter (CHR ''c'')" "lower_letter (CHR ''d'')" "lower_letter (CHR ''e'')"
  "lower_letter (CHR ''f'')" "lower_letter (CHR ''g'')" "lower_letter (CHR ''h'')" "lower_letter (CHR ''i'')" "lower_letter (CHR ''j'')"
  "lower_letter (CHR ''k'')" "lower_letter (CHR ''l'')" "lower_letter (CHR ''m'')" "lower_letter (CHR ''n'')" "lower_letter (CHR ''o'')"
  "lower_letter (CHR ''p'')" "lower_letter (CHR ''q'')" "lower_letter (CHR ''r'')" "lower_letter (CHR ''s'')" "lower_letter (CHR ''t'')"
  "lower_letter (CHR ''u'')" "lower_letter (CHR ''v'')" "lower_letter (CHR ''w'')" "lower_letter (CHR ''x'')" "lower_letter (CHR ''y'')"
  "lower_letter (CHR ''z'')"
  by (simp_all add: lower_letter_def)

lemma name_chars [simp]: "lower_letter c \<Longrightarrow> permission_char c" "lower_letter c \<Longrightarrow> authz_char c"
  "permission_char (CHR ''-'')" "authz_char (CHR ''-'')" "authz_char (CHR ''/'')"
  by (simp_all add: permission_char_def authz_char_def lower_letter_def id_char_def Let_def)

lemmas authz_text = permission_ok_def permission_part_def authz_id_def
lemmas authz_match = matches_permission_def ends_with_def starts_with_def

lemma standard_roles_ok: "list_all role_ok standard_roles"
  unfolding standard_roles_def list.pred_inject by (intro conjI role_ok_make TrueI) (simp_all add: authz_text)

lemma standard_no_self_deny:
  "list_all (\<lambda>r. \<not> list_ex (\<lambda>a. list_ex (\<lambda>d. matches_permission d a) (ro_deny r)) (ro_allow r)) standard_roles"
  by (simp add: standard_roles_def make_role_def authz_match)

lemma standard_no_release:
  "\<not> list_ex (\<lambda>r. list_ex (\<lambda>a. matches_permission a ''release.sign'' \<or> matches_permission a ''audit.delete''
        \<or> matches_permission a ''evidence.delete'') (ro_allow r)) standard_roles"
  by (simp add: standard_roles_def make_role_def authz_match)

text \<open>
  The shipped roles and duty constraints are well formed, no role grants what it denies itself,
  every constraint names two shipped roles, and no combination of shipped roles allows signing a
  release or deleting audit records or evidence.
\<close>

theorem standard_roles_sound:
  "list_all role_ok standard_roles \<and> distinct (map ro_id standard_roles)
   \<and> list_all (\<lambda>r. \<not> list_ex (\<lambda>a. list_ex (\<lambda>d. matches_permission d a) (ro_deny r)) (ro_allow r)) standard_roles
   \<and> list_all (\<lambda>d. length (remdups d) = 2 \<and> set d \<subseteq> set (map ro_id standard_roles)) default_duties
   \<and> \<not> list_ex (\<lambda>r. list_ex (\<lambda>a. matches_permission a ''release.sign'' \<or> matches_permission a ''audit.delete''
        \<or> matches_permission a ''evidence.delete'') (ro_allow r)) standard_roles"
proof (intro conjI standard_roles_ok standard_no_self_deny standard_no_release)
  show "distinct (map ro_id standard_roles)"
    by (simp add: standard_roles_def make_role_def)
  show "list_all (\<lambda>d. length (remdups d) = 2 \<and> set d \<subseteq> set (map ro_id standard_roles)) default_duties"
    by (simp add: standard_roles_def make_role_def default_duties_def)
qed

section \<open>Witnesses\<close>

definition sample_policy :: policy where
  "sample_policy = the (new_policy fraction_text
     [\<lparr>ap_id = ''alice'', ap_kind = Human, ap_enabled = True, ap_expires = PInt 0\<rparr>] standard_roles
     [\<lparr>rb_principal = ''alice'', rb_role = ''analyst'', rb_scope = ''site'', rb_expires = PInt 0\<rparr>,
      \<lparr>rb_principal = ''alice'', rb_role = ''viewer'', rb_scope = ''site/north'', rb_expires = PInt 0\<rparr>]
     (replicate 32 1) default_duties None [])"

definition sample_request :: auth_request where
  "sample_request = \<lparr>ar_id = ''r1'', ar_principal = ''alice'', ar_permission = ''case.read'', ar_scope = ''site/north'', ar_resource = []\<rparr>"

lemma sample_accepted:
  "new_policy fraction_text
     [\<lparr>ap_id = ''alice'', ap_kind = Human, ap_enabled = True, ap_expires = PInt 0\<rparr>] standard_roles
     [\<lparr>rb_principal = ''alice'', rb_role = ''analyst'', rb_scope = ''site'', rb_expires = PInt 0\<rparr>,
      \<lparr>rb_principal = ''alice'', rb_role = ''viewer'', rb_scope = ''site/north'', rb_expires = PInt 0\<rparr>]
     (replicate 32 1) default_duties None [] = Some sample_policy"
proof -
  have "new_policy fraction_text
     [\<lparr>ap_id = ''alice'', ap_kind = Human, ap_enabled = True, ap_expires = PInt 0\<rparr>] standard_roles
     [\<lparr>rb_principal = ''alice'', rb_role = ''analyst'', rb_scope = ''site'', rb_expires = PInt 0\<rparr>,
      \<lparr>rb_principal = ''alice'', rb_role = ''viewer'', rb_scope = ''site/north'', rb_expires = PInt 0\<rparr>]
     (replicate 32 1) default_duties None [] \<noteq> None"
    by code_simp
  then show ?thesis by (simp add: sample_policy_def)
qed

lemma sample_request_ok: "request_ok sample_request"
  by code_simp

lemma sample_verdict:
  "evaluate sample_policy sample_request 5 = \<lparr>vd_allowed = True, vd_reason = ''role permission matched'', vd_roles = [''analyst'', ''viewer''], vd_until = 0\<rparr>"
  by code_simp

theorem separation_of_duty_witness: "duty_pair ''analyst'' ''viewer'' \<notin> set (po_duties sample_policy)"
  using separation_of_duty [OF sample_accepted sample_request_ok sample_request_ok, of "''analyst''" 5 "''viewer''" 5]
  by (simp add: same_identity_def scopes_overlap_def scope_contains_def sample_verdict)

theorem allowed_exactly_witness: "reaches ro_allow sample_policy sample_request 5 \<and> \<not> reaches ro_deny sample_policy sample_request 5"
  using allowed_exactly [OF sample_accepted, of sample_request 5] by (simp add: sample_verdict)

definition sample_cache :: auth_receipts where
  "sample_cache = foldl (authz_step fraction_text (\<lambda>_. True) sample_policy) [] [EvDecide sample_request (Some 5)]"

lemma sample_cache_eq:
  "sample_cache = [(''r1'', request_digest fraction_text sample_request, make_decision fraction_text sample_policy sample_request 5)]"
proof -
  have "ar_id sample_request = ''r1''"
    by (simp add: sample_request_def)
  then show ?thesis
    by (simp add: sample_cache_def decide_def lookup_decision_def commit_decision_def op_then_def Let_def max_receipts_def)
qed

theorem request_id_bound_witness: "length sample_cache \<le> 10000 \<and> ar_id (ad_request (snd (snd (hd sample_cache)))) = ''r1''"
proof -
  have i: "ar_id sample_request = ''r1''"
    by (simp add: sample_request_def)
  then have "dict_get sample_cache (ar_id sample_request)
      = Some (request_digest fraction_text sample_request, make_decision fraction_text sample_policy sample_request 5)"
    by (simp add: sample_cache_eq)
  from request_id_bound [OF sample_cache_def this] i show ?thesis
    by (simp add: sample_cache_eq)
qed

theorem decisions_are_fresh_witness:
  "\<exists>rs' d. decide fraction_text (\<lambda>_. True) sample_policy sample_request (Some 6) sample_cache = (rs', Inr d) \<and> verify_decision fraction_text sample_policy d"
proof -
  let ?d = "make_decision fraction_text sample_policy sample_request 5"
  have i: "ar_id sample_request = ''r1''"
    by (simp add: sample_request_def)
  have "list_all (\<lambda>(k, dg, d). ad_at d \<le> 6) sample_cache"
    by (simp add: sample_cache_eq decision_fields)
  moreover have "decide fraction_text (\<lambda>_. True) sample_policy sample_request (Some 6) sample_cache = (sample_cache, Inr ?d)"
    using i by (simp add: decide_def lookup_decision_def op_then_def sample_cache_eq decision_fields sample_verdict move_to_end_def)
  ultimately show ?thesis
    using decisions_are_fresh [OF sample_accepted sample_cache_def] by blast
qed

end
