(* ===== verification/Durable_Outbox.thy ===== *)
theory Durable_Outbox
  imports Canonical_Json Sha256 "HOL-Library.Product_Lexorder" "HOL-Library.Multiset"
begin

text \<open>
  The authenticated, lease-based delivery outbox, \<^verbatim>\<open>src/angerona/core/durable_outbox.py\<close>: the signed
  rows of its table, enqueueing one item or a batch, claiming, acknowledging, retrying with backoff,
  tombstones and statistics.

  The table is the list of its rows in the order of insertion, with columns of their declared types;
  a row whose columns have other types is one that fails verification.  A payload is its text and the
  document the text decodes to.  An operation that raises rolls its transaction back.  \<open>ob_seen\<close> tells
  whether the change counters of the connection are the trusted ones, that is, whether the table was
  changed behind the outbox's back.  Backing-file stamps, key files and the migration of tables
  without state signatures are outside the model.
\<close>

section \<open>Rows\<close>

datatype outbox_error = ObValueError | ObKeyError | ObFull | ObIntegrityError

datatype delivery = Pending | Leased | DeadLetter | Delivered

fun delivery_text :: "delivery \<Rightarrow> string" where
  "delivery_text Pending = ''pending''"
| "delivery_text Leased = ''leased''"
| "delivery_text DeadLetter = ''dead_letter''"
| "delivery_text Delivered = ''delivered''"

record orow =
  or_id :: string
  or_json :: string
  or_doc :: "pyval option" \<comment> \<open>what \<open>json.loads\<close> makes of the text\<close>
  or_digest :: string
  or_signature :: string
  or_state :: delivery
  or_attempts :: nat
  or_next :: rat
  or_owner :: string
  or_until :: rat
  or_error :: string
  or_created :: rat
  or_size :: nat
  or_mac :: string

definition max_item_bytes :: nat where
  "max_item_bytes = 256 * 1024"

definition max_batch :: nat where
  "max_batch = 100"

definition tag_of :: "(rat \<Rightarrow> string) \<Rightarrow> bytes \<Rightarrow> pyval \<Rightarrow> string" where
  "tag_of flt key v = hex_text (hmac_sha256 key (case canonical True flt v of None \<Rightarrow> [] | Some bs \<Rightarrow> bs))"

definition row_signature :: "(rat \<Rightarrow> string) \<Rightarrow> bytes \<Rightarrow> string \<Rightarrow> string \<Rightarrow> rat \<Rightarrow> string" where
  "row_signature flt key i text created = tag_of flt key (PDict [(''item_id'', PStr i), (''payload_json'', PStr text),
     (''created_at'', PFloat (Fin created))])"

definition state_schema :: string where
  "state_schema = ''angerona.durable-outbox-state/v1''"

definition state_signature :: "(rat \<Rightarrow> string) \<Rightarrow> bytes \<Rightarrow> orow \<Rightarrow> string" where
  "state_signature flt key r = tag_of flt key (PDict [(''schema'', PStr state_schema), (''item_id'', PStr (or_id r)),
     (''payload_sha256'', PStr (or_digest r)), (''payload_signature'', PStr (or_signature r)),
     (''created_at'', PFloat (Fin (or_created r))), (''state'', PStr (delivery_text (or_state r))),
     (''attempts'', PInt (int (or_attempts r))), (''next_attempt'', PFloat (Fin (or_next r))),
     (''lease_owner'', PStr (or_owner r)), (''lease_until'', PFloat (Fin (or_until r))), (''last_error'', PStr (or_error r)),
     (''size_bytes'', PInt (int (or_size r)))])"

definition row_shape :: "orow \<Rightarrow> bool" where
  "row_shape r \<longleftrightarrow> or_id r \<noteq> [] \<and> length (or_id r) \<le> 160 \<and> or_attempts r \<le> 100 \<and> length (or_owner r) \<le> 160
     \<and> length (or_error r) \<le> 1000
     \<and> (if or_state r = Leased then or_owner r \<noteq> [] else or_owner r = [] \<and> or_until r = 0)
     \<and> \<not> (or_state r = Delivered \<and> or_error r \<noteq> [])
     \<and> length (utf8 (or_json r)) \<le> max_item_bytes \<and> or_size r = length (utf8 (or_json r))
     \<and> (case or_doc r of Some (PDict _) \<Rightarrow> True | _ \<Rightarrow> False)"

definition verify_row :: "(rat \<Rightarrow> string) \<Rightarrow> bytes \<Rightarrow> orow \<Rightarrow> bool" where
  "verify_row flt key r \<longleftrightarrow> row_shape r \<and> or_digest r = hex_text (sha256 (utf8 (or_json r)))
     \<and> or_signature r = row_signature flt key (or_id r) (or_json r) (or_created r)
     \<and> or_mac r = state_signature flt key r"

section \<open>The outbox\<close>

record outbox =
  ob_key :: bytes
  ob_max_items :: nat
  ob_max_bytes :: nat
  ob_max_attempts :: nat
  ob_tombstones :: nat
  ob_rows :: "orow list"
  ob_seen :: bool

definition clamp :: "int \<Rightarrow> int \<Rightarrow> int \<Rightarrow> nat" where
  "clamp lo hi v = nat (max lo (min v hi))"

text \<open>Opening verifies every row of the table that is there.\<close>

definition new_outbox :: "(rat \<Rightarrow> string) \<Rightarrow> bytes \<Rightarrow> int \<Rightarrow> int \<Rightarrow> int \<Rightarrow> int \<Rightarrow> orow list \<Rightarrow> outbox_error + outbox" where
  "new_outbox flt key items space attempts tombstones rows =
     (if length key < 32 then Inl ObValueError
      else if \<not> list_all (verify_row flt key) rows then Inl ObIntegrityError
      else Inr \<lparr>ob_key = key, ob_max_items = clamp 100 500000 items,
        ob_max_bytes = clamp (int max_item_bytes) (2 * 1024 ^ 3) space,
        ob_max_attempts = clamp 1 100 attempts, ob_tombstones = clamp 100 100000 tombstones, ob_rows = rows, ob_seen = True\<rparr>)"

type_synonym 'a outbox_op = "(outbox, outbox_error, 'a) oper"

text \<open>
  \<open>BEGIN IMMEDIATE\<close> to \<open>commit\<close>; any exception restores the table.  An audit that passed stays trusted,
  unless rows were changed before the exception: their changes count although they are rolled back.
\<close>

definition transaction :: "'a outbox_op \<Rightarrow> 'a outbox_op" where
  "transaction f b = (case f b of (b', Inr a) \<Rightarrow> (b'\<lparr>ob_seen := True\<rparr>, Inr a)
     | (b', Inl e) \<Rightarrow> (b\<lparr>ob_seen := ob_seen b' \<and> ob_rows b' = ob_rows b\<rparr>, Inl e))"

definition verify_if_changed :: "(rat \<Rightarrow> string) \<Rightarrow> unit outbox_op" where
  "verify_if_changed flt b =
     (if ob_seen b then (b, Inr ())
      else if list_all (verify_row flt (ob_key b)) (ob_rows b) then (b\<lparr>ob_seen := True\<rparr>, Inr ())
      else (b, Inl ObIntegrityError))"

definition same_row :: "orow \<Rightarrow> orow \<Rightarrow> bool" where
  "same_row r s \<longleftrightarrow> or_id r = or_id s \<and> or_mac r = or_mac s"

definition resign :: "(rat \<Rightarrow> string) \<Rightarrow> bytes \<Rightarrow> orow \<Rightarrow> orow" where
  "resign flt key r = r\<lparr>or_mac := state_signature flt key r\<rparr>"

text \<open>\<open>_update_state_locked\<close>: the row as it was read is replaced; it must still be there, once.\<close>

definition update_state :: "(rat \<Rightarrow> string) \<Rightarrow> orow \<Rightarrow> orow \<Rightarrow> unit outbox_op" where
  "update_state flt old new b =
     (if length (filter (same_row old) (ob_rows b)) \<noteq> 1 then (b, Inl ObIntegrityError)
      else (b\<lparr>ob_rows := map (\<lambda>r. if same_row old r then resign flt (ob_key b) new else r) (ob_rows b)\<rparr>, Inr ()))"

definition delivered_rows :: "outbox \<Rightarrow> orow list" where
  "delivered_rows b = filter (\<lambda>r. or_state r = Delivered) (ob_rows b)"

definition open_rows :: "outbox \<Rightarrow> orow list" where
  "open_rows b = filter (\<lambda>r. or_state r \<noteq> Delivered) (ob_rows b)"

text \<open>Tombstones beyond the newest \<open>ob_tombstones\<close> are deleted.\<close>

definition prune_tombstones :: "(rat \<Rightarrow> string) \<Rightarrow> unit outbox_op" where
  "prune_tombstones flt b =
     (let old = drop (ob_tombstones b) (sort_key (\<lambda>r. - or_created r) (delivered_rows b)) in
      if \<not> list_all (verify_row flt (ob_key b)) old then (b, Inl ObIntegrityError)
      else (b\<lparr>ob_rows := filter (\<lambda>r. \<not> list_ex (same_row r) old) (ob_rows b)\<rparr>, Inr ()))"

definition find_row :: "string \<Rightarrow> outbox \<Rightarrow> orow option" where
  "find_row i b = find (\<lambda>r. or_id r = i) (ob_rows b)"

definition retained_bytes :: "outbox \<Rightarrow> nat" where
  "retained_bytes b = sum_list (map or_size (open_rows b))"

section \<open>Enqueueing\<close>

text \<open>The row for an item, or the error its checks raise.  \<open>clock\<close> is the finite time, if it is one.\<close>

definition prepare_row :: "(rat \<Rightarrow> string) \<Rightarrow> bytes \<Rightarrow> string \<Rightarrow> (string \<times> pyval) list \<Rightarrow> rat option \<Rightarrow> outbox_error + orow" where
  "prepare_row flt key i payload clock =
     (let ident = py_strip i; doc = json_sorted (PDict payload); text = json_text True flt doc in
      if ident = [] \<or> 160 < length ident \<or> \<not> json_finite (PDict payload) \<or> max_item_bytes < length (utf8 text) then Inl ObValueError
      else case clock of
        None \<Rightarrow> Inl ObValueError
      | Some now \<Rightarrow> Inr (resign flt key \<lparr>or_id = ident, or_json = text, or_doc = Some doc,
          or_digest = hex_text (sha256 (utf8 text)), or_signature = row_signature flt key ident text now,
          or_state = Pending, or_attempts = 0, or_next = 0, or_owner = [], or_until = 0, or_error = [],
          or_created = now, or_size = length (utf8 text), or_mac = []\<rparr>))"

definition insert_row :: "(rat \<Rightarrow> string) \<Rightarrow> orow \<Rightarrow> bool outbox_op" where
  "insert_row flt r = op_then (verify_if_changed flt) (\<lambda>_. op_then (op_get (find_row (or_id r))) (\<lambda>known. case known of
       Some old \<Rightarrow>
         op_then (op_get ob_key) (\<lambda>key.
           if \<not> verify_row flt key old then op_raise ObIntegrityError
           else if or_json old \<noteq> or_json r then op_raise ObValueError
           else op_return False)
     | None \<Rightarrow>
         op_then (prune_tombstones flt) (\<lambda>_ b.
           if ob_max_items b \<le> length (open_rows b) \<or> ob_max_bytes b < retained_bytes b + or_size r then (b, Inl ObFull)
           else (b\<lparr>ob_rows := ob_rows b @ [r]\<rparr>, Inr True))))"

definition enqueue :: "(rat \<Rightarrow> string) \<Rightarrow> string \<Rightarrow> (string \<times> pyval) list \<Rightarrow> rat option \<Rightarrow> bool outbox_op" where
  "enqueue flt i payload clock b = (case prepare_row flt (ob_key b) i payload clock of
     Inl e \<Rightarrow> (b, Inl e)
   | Inr r \<Rightarrow> transaction (insert_row flt r) b)"

text \<open>A batch is prepared first: repetitions of one item must agree, then count once.\<close>

fun prepare_batch :: "(rat \<Rightarrow> string) \<Rightarrow> bytes \<Rightarrow> (string \<times> (string \<times> pyval) list \<times> rat option) list \<Rightarrow> orow list \<Rightarrow> outbox_error + orow list" where
  "prepare_batch flt key [] done = Inr done"
| "prepare_batch flt key ((i, payload, clock) # es) done =
     (case prepare_row flt key i payload clock of
        Inl e \<Rightarrow> Inl e
      | Inr r \<Rightarrow>
        (case find (\<lambda>s. or_id s = or_id r) done of
           Some s \<Rightarrow> if or_json s \<noteq> or_json r then Inl ObValueError else prepare_batch flt key es done
         | None \<Rightarrow> prepare_batch flt key es (done @ [r])))"

text \<open>Known items must carry the same payload; the rest are additions.\<close>

fun split_known :: "(rat \<Rightarrow> string) \<Rightarrow> outbox \<Rightarrow> orow list \<Rightarrow> outbox_error + orow list" where
  "split_known flt b [] = Inr []"
| "split_known flt b (r # rs) =
     (case find_row (or_id r) b of
        Some old \<Rightarrow>
          if \<not> verify_row flt (ob_key b) old then Inl ObIntegrityError
          else if or_json old \<noteq> or_json r then Inl ObValueError
          else split_known flt b rs
      | None \<Rightarrow> (case split_known flt b rs of Inl e \<Rightarrow> Inl e | Inr added \<Rightarrow> Inr (r # added)))"

definition insert_rows :: "(rat \<Rightarrow> string) \<Rightarrow> orow list \<Rightarrow> nat outbox_op" where
  "insert_rows flt rs = op_then (verify_if_changed flt) (\<lambda>_ b. case split_known flt b rs of
       Inl e \<Rightarrow> (b, Inl e)
     | Inr added \<Rightarrow>
         if added = [] then (b, Inr 0)
         else op_then (prune_tombstones flt) (\<lambda>_ b.
           if ob_max_items b < length (open_rows b) + length added
             \<or> ob_max_bytes b < retained_bytes b + sum_list (map or_size added) then (b, Inl ObFull)
           else (b\<lparr>ob_rows := ob_rows b @ added\<rparr>, Inr (length added))) b)"

definition enqueue_many :: "(rat \<Rightarrow> string) \<Rightarrow> (string \<times> (string \<times> pyval) list \<times> rat option) list \<Rightarrow> nat outbox_op" where
  "enqueue_many flt es b =
     (if max_batch < length es then (b, Inl ObValueError)
      else case prepare_batch flt (ob_key b) es [] of
        Inl e \<Rightarrow> (b, Inl e)
      | Inr rs \<Rightarrow> if rs = [] then (b, Inr 0) else transaction (insert_rows flt rs) b)"

section \<open>Claiming, completing, retrying\<close>

definition change_row :: "(rat \<Rightarrow> string) \<Rightarrow> (orow \<Rightarrow> orow) \<Rightarrow> orow \<Rightarrow> unit outbox_op" where
  "change_row flt f r = op_then (op_get ob_key) (\<lambda>key.
     if \<not> verify_row flt key r then op_raise ObIntegrityError else update_state flt r (f r))"

fun change_rows :: "(rat \<Rightarrow> string) \<Rightarrow> (orow \<Rightarrow> orow) \<Rightarrow> orow list \<Rightarrow> unit outbox_op" where
  "change_rows flt f [] b = (b, Inr ())"
| "change_rows flt f (r # rs) b = op_then (change_row flt f r) (\<lambda>_. change_rows flt f rs) b"

definition release_lease :: "orow \<Rightarrow> orow" where
  "release_lease r = r\<lparr>or_state := Pending, or_owner := [], or_until := 0\<rparr>"

definition take_lease :: "string \<Rightarrow> rat \<Rightarrow> orow \<Rightarrow> orow" where
  "take_lease who until r = r\<lparr>or_state := Leased, or_owner := who, or_until := until\<rparr>"

definition claim_order :: "orow list \<Rightarrow> orow list" where
  "claim_order rs = sort_key (\<lambda>r. (or_created r, or_id r)) rs"

definition expired_rows :: "rat \<Rightarrow> outbox \<Rightarrow> orow list" where
  "expired_rows now b = filter (\<lambda>r. or_state r = Leased \<and> or_until r \<le> now) (ob_rows b)"

definition ready_rows :: "rat \<Rightarrow> nat \<Rightarrow> outbox \<Rightarrow> orow list" where
  "ready_rows now limit b = take limit (claim_order (filter (\<lambda>r. or_state r = Pending \<and> or_next r \<le> now) (ob_rows b)))"

definition held_rows :: "string \<Rightarrow> nat \<Rightarrow> outbox \<Rightarrow> orow list" where
  "held_rows who limit b = take limit (claim_order (filter (\<lambda>r. or_state r = Leased \<and> or_owner r = who) (ob_rows b)))"

definition claim_rows :: "(rat \<Rightarrow> string) \<Rightarrow> string \<Rightarrow> rat \<Rightarrow> nat \<Rightarrow> rat \<Rightarrow> orow list outbox_op" where
  "claim_rows flt who now limit lease =
     op_then (verify_if_changed flt) (\<lambda>_.
     op_then (op_get (expired_rows now)) (\<lambda>expired.
     op_then (change_rows flt release_lease expired) (\<lambda>_.
     op_then (op_get (ready_rows now limit)) (\<lambda>ready.
     op_then (change_rows flt (take_lease who (now + lease)) ready) (\<lambda>_.
     op_then (op_get (\<lambda>b. (held_rows who limit b, ob_key b))) (\<lambda>(held, key).
       if list_all (verify_row flt key) held then op_return held else op_raise ObIntegrityError))))))"

definition claim :: "(rat \<Rightarrow> string) \<Rightarrow> string \<Rightarrow> rat \<Rightarrow> int \<Rightarrow> rat \<Rightarrow> orow list outbox_op" where
  "claim flt owner now limit lease b =
     (let who = take 160 (py_strip owner) in
      if who = [] then (b, Inl ObValueError)
      else transaction (claim_rows flt who now (clamp 1 1000 limit) (max 1 (min lease 3600))) b)"

definition required_row :: "(rat \<Rightarrow> string) \<Rightarrow> string \<Rightarrow> orow outbox_op" where
  "required_row flt i b = (case find_row i b of
     None \<Rightarrow> (b, Inl ObKeyError)
   | Some r \<Rightarrow> (b, if verify_row flt (ob_key b) r then Inr r else Inl ObIntegrityError))"

definition is_delivered :: "(rat \<Rightarrow> string) \<Rightarrow> string \<Rightarrow> bool outbox_op" where
  "is_delivered flt i = op_then (verify_if_changed flt) (\<lambda>_ b. case find_row i b of
     None \<Rightarrow> (b, Inr False)
   | Some r \<Rightarrow> (b, if verify_row flt (ob_key b) r then Inr (or_state r = Delivered) else Inl ObIntegrityError))"

definition deliver :: "orow \<Rightarrow> orow" where
  "deliver r = r\<lparr>or_state := Delivered, or_owner := [], or_until := 0, or_error := []\<rparr>"

definition finish_row :: "(rat \<Rightarrow> string) \<Rightarrow> string \<Rightarrow> (orow \<Rightarrow> bool) \<Rightarrow> unit outbox_op" where
  "finish_row flt i may =
     op_then (verify_if_changed flt) (\<lambda>_.
     op_then (required_row flt i) (\<lambda>r.
     op_then (op_guard (may r) ObKeyError) (\<lambda>_.
     op_then (update_state flt r (deliver r)) (\<lambda>_. prune_tombstones flt))))"

definition complete_pending :: "(rat \<Rightarrow> string) \<Rightarrow> string \<Rightarrow> unit outbox_op" where
  "complete_pending flt i = transaction (finish_row flt i (\<lambda>r. or_state r = Pending \<or> or_state r = Leased))"

definition acknowledge :: "(rat \<Rightarrow> string) \<Rightarrow> string \<Rightarrow> string \<Rightarrow> unit outbox_op" where
  "acknowledge flt i owner = transaction (finish_row flt i (\<lambda>r. or_state r = Leased \<and> or_owner r = owner))"

definition backoff :: "nat \<Rightarrow> rat" where
  "backoff attempts = min 3600 (2 ^ min attempts 12)"

definition failed_row :: "nat \<Rightarrow> string \<Rightarrow> rat \<Rightarrow> orow \<Rightarrow> orow" where
  "failed_row limit err now r =
     (let n = Suc (or_attempts r); dead = (limit \<le> n) in
      r\<lparr>or_state := (if dead then DeadLetter else Pending), or_attempts := n,
        or_next := now + (if dead then 0 else backoff n), or_owner := [], or_until := 0, or_error := take 1000 err\<rparr>)"

definition retry_row :: "(rat \<Rightarrow> string) \<Rightarrow> string \<Rightarrow> string \<Rightarrow> string \<Rightarrow> rat \<Rightarrow> unit outbox_op" where
  "retry_row flt i owner err now =
     op_then (verify_if_changed flt) (\<lambda>_.
     op_then (required_row flt i) (\<lambda>r.
     op_then (op_guard (or_state r = Leased \<and> or_owner r = owner) ObKeyError) (\<lambda>_.
     op_then (op_get ob_max_attempts) (\<lambda>limit. update_state flt r (failed_row limit err now r)))))"

definition retry :: "(rat \<Rightarrow> string) \<Rightarrow> string \<Rightarrow> string \<Rightarrow> string \<Rightarrow> rat \<Rightarrow> unit outbox_op" where
  "retry flt i owner err now = transaction (retry_row flt i owner err now)"

record outbox_stats =
  os_pending :: nat
  os_leased :: nat
  os_dead :: nat
  os_delivered :: nat
  os_bytes :: nat

definition stats :: "(rat \<Rightarrow> string) \<Rightarrow> outbox_stats outbox_op" where
  "stats flt = op_then (verify_if_changed flt) (\<lambda>_ b.
     let count = (\<lambda>s. length (filter (\<lambda>r. or_state r = s) (ob_rows b)))
     in (b, Inr \<lparr>os_pending = count Pending, os_leased = count Leased, os_dead = count DeadLetter,
          os_delivered = count Delivered, os_bytes = retained_bytes b\<rparr>))"

section \<open>The invariant of the table\<close>

text \<open>Everything but the bound on tombstones, which a delivery exceeds until it prunes.\<close>

definition table_inv :: "(rat \<Rightarrow> string) \<Rightarrow> outbox \<Rightarrow> bool" where
  "table_inv flt b \<longleftrightarrow> list_all (verify_row flt (ob_key b)) (ob_rows b) \<and> distinct (map or_id (ob_rows b))
     \<and> length (open_rows b) \<le> ob_max_items b \<and> retained_bytes b \<le> ob_max_bytes b
     \<and> list_all (\<lambda>r. or_state r = Pending \<or> or_state r = Leased \<longrightarrow> or_attempts r < ob_max_attempts b) (ob_rows b)
     \<and> 0 < ob_max_attempts b \<and> ob_max_attempts b \<le> 100"

definition outbox_inv :: "(rat \<Rightarrow> string) \<Rightarrow> outbox \<Rightarrow> bool" where
  "outbox_inv flt b \<longleftrightarrow> table_inv flt b \<and> length (delivered_rows b) \<le> ob_tombstones b"

lemma signature_mac [simp]: "state_signature flt key (r\<lparr>or_mac := m\<rparr>) = state_signature flt key r"
  by (simp add: state_signature_def)

lemma shape_mac [simp]: "row_shape (r\<lparr>or_mac := m\<rparr>) = row_shape r"
  by (simp add: row_shape_def)

lemma resign_verifies:
  "row_shape r \<Longrightarrow> or_digest r = hex_text (sha256 (utf8 (or_json r))) \<Longrightarrow>
     or_signature r = row_signature flt key (or_id r) (or_json r) (or_created r) \<Longrightarrow> verify_row flt key (resign flt key r)"
  by (simp add: verify_row_def resign_def)

text \<open>Changes of the mutable columns alone.\<close>

definition same_content :: "orow \<Rightarrow> orow \<Rightarrow> bool" where
  "same_content r s \<longleftrightarrow> or_id s = or_id r \<and> or_json s = or_json r \<and> or_doc s = or_doc r \<and> or_digest s = or_digest r
     \<and> or_signature s = or_signature r \<and> or_created s = or_created r \<and> or_size s = or_size r"

lemma changed_verifies:
  "verify_row flt key r \<Longrightarrow> same_content r s \<Longrightarrow> row_shape s \<Longrightarrow> verify_row flt key (resign flt key s)"
  by (rule resign_verifies) (simp_all add: verify_row_def same_content_def)

lemma content_simps [simp]:
  "same_content r (release_lease r)" "same_content r (take_lease who until r)" "same_content r (deliver r)"
  "same_content r (failed_row n err now r)" "same_content r s \<Longrightarrow> same_content r (resign flt key s)"
  by (simp_all add: same_content_def release_lease_def take_lease_def deliver_def failed_row_def resign_def Let_def)

lemma shapes:
  "row_shape r \<Longrightarrow> row_shape (release_lease r) \<or> or_state r = Delivered"
  "row_shape r \<Longrightarrow> who \<noteq> [] \<Longrightarrow> length who \<le> 160 \<Longrightarrow> row_shape (take_lease who until r)"
  "row_shape r \<Longrightarrow> row_shape (deliver r)"
  "row_shape r \<Longrightarrow> or_attempts r < 100 \<Longrightarrow> row_shape (failed_row n err now r)"
  by (simp_all add: row_shape_def release_lease_def take_lease_def deliver_def failed_row_def Let_def)

text \<open>With distinct identifiers the row a statement names is the one that was read.\<close>

lemma same_row_unique:
  "distinct (map or_id rows) \<Longrightarrow> r \<in> set rows \<Longrightarrow> s \<in> set rows \<Longrightarrow> same_row r s \<longleftrightarrow> s = r"
  by (auto simp: same_row_def distinct_map inj_on_def)

lemma filter_same_row:
  assumes "distinct (map or_id rows)" and "r \<in> set rows"
  shows "filter (same_row r) rows = [r]"
proof -
  have "filter (same_row r) rows = filter (\<lambda>s. s = r) rows"
    using same_row_unique [OF assms] by (intro filter_cong) auto
  also have "\<dots> = [r]"
    using assms by (induction rows) (auto simp: filter_empty_conv)
  finally show ?thesis .
qed

definition replace_row :: "orow \<Rightarrow> orow \<Rightarrow> orow list \<Rightarrow> orow list" where
  "replace_row r new rows = map (\<lambda>x. if x = r then new else x) rows"

lemma update_state_exact:
  assumes "distinct (map or_id (ob_rows b))" and "r \<in> set (ob_rows b)"
  shows "update_state flt r new b = (b\<lparr>ob_rows := replace_row r (resign flt (ob_key b) new) (ob_rows b)\<rparr>, Inr ())"
proof -
  have "map (\<lambda>x. if same_row r x then resign flt (ob_key b) new else x) (ob_rows b) = replace_row r (resign flt (ob_key b) new) (ob_rows b)"
    unfolding replace_row_def using same_row_unique [OF assms] by (intro map_cong) auto
  then show ?thesis
    using filter_same_row [OF assms] by (simp add: update_state_def)
qed

lemma prune_exact:
  assumes "list_all (verify_row flt (ob_key b)) (ob_rows b)" and "distinct (map or_id (ob_rows b))"
  shows "prune_tombstones flt b = (b\<lparr>ob_rows := filter (\<lambda>r. r \<notin> set (drop (ob_tombstones b) (sort_key (\<lambda>r. - or_created r) (delivered_rows b))))
    (ob_rows b)\<rparr>, Inr ())"
proof -
  define old where "old = drop (ob_tombstones b) (sort_key (\<lambda>r. - or_created r) (delivered_rows b))"
  have sub: "set old \<subseteq> set (ob_rows b)"
    by (auto simp: old_def delivered_rows_def dest: in_set_dropD)
  then have "list_all (verify_row flt (ob_key b)) old"
    using assms(1) by (auto simp: list_all_iff)
  moreover have "filter (\<lambda>r. \<not> list_ex (same_row r) old) (ob_rows b) = filter (\<lambda>r. r \<notin> set old) (ob_rows b)"
    using same_row_unique [OF assms(2)] sub by (intro filter_cong) (auto simp: list_ex_iff)
  ultimately show ?thesis
    by (simp add: prune_tombstones_def Let_def old_def [symmetric])
qed

text \<open>Row by row: a change that keeps the content and opens no row.\<close>

definition row_step :: "(rat \<Rightarrow> string) \<Rightarrow> outbox \<Rightarrow> (orow \<Rightarrow> orow) \<Rightarrow> bool" where
  "row_step flt b g \<longleftrightarrow> (\<forall>r \<in> set (ob_rows b). same_content r (g r) \<and> verify_row flt (ob_key b) (g r)
     \<and> (or_state (g r) \<noteq> Delivered \<longrightarrow> or_state r \<noteq> Delivered)
     \<and> (or_state (g r) = Pending \<or> or_state (g r) = Leased \<longrightarrow> or_attempts (g r) < ob_max_attempts b))"

lemma length_filter_map_le: "(\<And>x. x \<in> set xs \<Longrightarrow> P (g x) \<Longrightarrow> P x) \<Longrightarrow> length (filter P (map g xs)) \<le> length (filter P xs)"
  by (induction xs) auto

lemma sum_filter_map_le:
  "(\<And>x. x \<in> set xs \<Longrightarrow> P (g x) \<Longrightarrow> P x) \<Longrightarrow> (\<And>x. x \<in> set xs \<Longrightarrow> f (g x) = (f x :: nat)) \<Longrightarrow>
     sum_list (map f (filter P (map g xs))) \<le> sum_list (map f (filter P xs))"
proof (induction xs)
  case (Cons x xs)
  have "sum_list (map f (filter P (map g xs))) \<le> sum_list (map f (filter P xs))"
    using Cons by simp
  with Cons.prems(1) [of x] Cons.prems(2) [of x] show ?case
    by auto
qed simp

lemma row_step_inv:
  assumes "table_inv flt b" and "row_step flt b g"
  shows "table_inv flt (b\<lparr>ob_rows := map g (ob_rows b)\<rparr>)"
proof -
  let ?b = "b\<lparr>ob_rows := map g (ob_rows b)\<rparr>"
  have g: "or_id (g r) = or_id r" "or_size (g r) = or_size r" "or_state (g r) \<noteq> Delivered \<Longrightarrow> or_state r \<noteq> Delivered"
    "verify_row flt (ob_key b) (g r)" "or_state (g r) = Pending \<or> or_state (g r) = Leased \<longrightarrow> or_attempts (g r) < ob_max_attempts b"
    if "r \<in> set (ob_rows b)" for r
    using assms(2) that by (auto simp: row_step_def same_content_def)
  have "map or_id (map g (ob_rows b)) = map or_id (ob_rows b)"
    using g(1) by auto
  then have "distinct (map or_id (map g (ob_rows b)))"
    using assms(1) by (simp only: table_inv_def)
  moreover have "length (filter (\<lambda>r. or_state r \<noteq> Delivered) (map g (ob_rows b))) \<le> length (filter (\<lambda>r. or_state r \<noteq> Delivered) (ob_rows b))"
    by (rule length_filter_map_le) (rule g(3))
  moreover have "sum_list (map or_size (filter (\<lambda>r. or_state r \<noteq> Delivered) (map g (ob_rows b))))
      \<le> sum_list (map or_size (filter (\<lambda>r. or_state r \<noteq> Delivered) (ob_rows b)))"
    by (rule sum_filter_map_le) (rule g(3), assumption+, rule g(2))
  ultimately show ?thesis
    using assms(1) g(4,5) by (auto simp: table_inv_def list_all_iff open_rows_def retained_bytes_def simp del: filter_map)
qed

definition apply_rows :: "(rat \<Rightarrow> string) \<Rightarrow> bytes \<Rightarrow> (orow \<Rightarrow> orow) \<Rightarrow> orow list \<Rightarrow> orow \<Rightarrow> orow" where
  "apply_rows flt key f rs x = (if x \<in> set rs then resign flt key (f x) else x)"

lemma change_rows_exact:
  assumes "distinct (map or_id (ob_rows b))" and "set rs \<subseteq> set (ob_rows b)" and "distinct rs"
    and "list_all (verify_row flt (ob_key b)) rs" and f: "\<And>r. or_id (f r) = or_id r"
  shows "change_rows flt f rs b = (b\<lparr>ob_rows := map (apply_rows flt (ob_key b) f rs) (ob_rows b)\<rparr>, Inr ())"
  using assms(1-4)
proof (induction rs arbitrary: b)
  case Nil
  then show ?case by (cases b) (simp add: apply_rows_def)
next
  case (Cons r rs)
  let ?new = "resign flt (ob_key b) (f r)"
  let ?rows = "replace_row r ?new (ob_rows b)"
  have r: "r \<in> set (ob_rows b)" "verify_row flt (ob_key b) r"
    using Cons.prems by auto
  have one: "change_row flt f r b = (b\<lparr>ob_rows := ?rows\<rparr>, Inr ())"
    using update_state_exact [OF Cons.prems(1) r(1)] r(2) by (simp add: change_row_def op_then_def op_get_def)
  have ids: "map or_id ?rows = map or_id (ob_rows b)"
    using f by (auto simp: replace_row_def resign_def)
  have rest: "x \<in> set ?rows" if "x \<in> set rs" for x
  proof -
    have "x \<in> set (ob_rows b)" "x \<noteq> r"
      using that Cons.prems(2,3) by auto
    then show ?thesis by (force simp: replace_row_def)
  qed
  have new: "?new \<notin> set rs"
  proof
    assume n: "?new \<in> set rs"
    then have "?new \<in> set (ob_rows b)"
      using Cons.prems(2) by auto
    moreover have "or_id ?new = or_id r"
      using f by (simp add: resign_def)
    ultimately have "?new = r"
      using Cons.prems(1) r(1) by (auto simp: distinct_map inj_on_def)
    with n Cons.prems(3) show False by simp
  qed
  have "change_rows flt f rs (b\<lparr>ob_rows := ?rows\<rparr>)
      = (b\<lparr>ob_rows := ?rows\<rparr>\<lparr>ob_rows := map (apply_rows flt (ob_key (b\<lparr>ob_rows := ?rows\<rparr>)) f rs) (ob_rows (b\<lparr>ob_rows := ?rows\<rparr>))\<rparr>, Inr ())"
    using Cons.prems(1,3,4) rest ids by (intro Cons.IH) auto
  moreover have "map (apply_rows flt (ob_key b) f rs) ?rows = map (apply_rows flt (ob_key b) f (r # rs)) (ob_rows b)"
    unfolding replace_row_def map_map using new by (intro map_cong) (auto simp: apply_rows_def)
  ultimately show ?case
    using one by simp
qed

lemma claim_order_perm [simp]: "set (claim_order rs) = set rs" "distinct (claim_order rs) = distinct rs"
  by (simp_all add: claim_order_def)

lemma distinct_rows: "distinct (map or_id rows) \<Longrightarrow> distinct rows"
  by (simp add: distinct_map)

lemma selected:
  assumes "distinct (map or_id (ob_rows b))"
  shows "distinct (expired_rows now b)" "distinct (ready_rows now n b)" "set (expired_rows now b) \<subseteq> set (ob_rows b)"
    "set (ready_rows now n b) \<subseteq> set (ob_rows b)" "set (held_rows who n b) \<subseteq> set (ob_rows b)"
  using distinct_rows [OF assms]
  by (auto simp: expired_rows_def ready_rows_def held_rows_def dest!: in_set_takeD)

lemma apply_rows_step:
  assumes "table_inv flt b" and "set rs \<subseteq> set (ob_rows b)"
    and "\<And>r. r \<in> set rs \<Longrightarrow> same_content r (f r) \<and> row_shape (f r) \<and> (or_state (f r) \<noteq> Delivered \<longrightarrow> or_state r \<noteq> Delivered)
      \<and> (or_state (f r) = Pending \<or> or_state (f r) = Leased \<longrightarrow> or_attempts (f r) < ob_max_attempts b)"
  shows "row_step flt b (apply_rows flt (ob_key b) f rs)"
  unfolding row_step_def
proof
  fix r assume r: "r \<in> set (ob_rows b)"
  have t: "verify_row flt (ob_key b) r" "or_state r = Pending \<or> or_state r = Leased \<longrightarrow> or_attempts r < ob_max_attempts b"
    using assms(1) r by (auto simp: table_inv_def list_all_iff)
  have resigned: "or_state (resign flt key s) = or_state s" "or_attempts (resign flt key s) = or_attempts s" for key s
    by (simp_all add: resign_def)
  show "same_content r (apply_rows flt (ob_key b) f rs r) \<and> verify_row flt (ob_key b) (apply_rows flt (ob_key b) f rs r)
     \<and> (or_state (apply_rows flt (ob_key b) f rs r) \<noteq> Delivered \<longrightarrow> or_state r \<noteq> Delivered)
     \<and> (or_state (apply_rows flt (ob_key b) f rs r) = Pending \<or> or_state (apply_rows flt (ob_key b) f rs r) = Leased
        \<longrightarrow> or_attempts (apply_rows flt (ob_key b) f rs r) < ob_max_attempts b)"
  proof (cases "r \<in> set rs")
    case True
    with assms(3) [OF True] t(1) show ?thesis
      by (simp add: apply_rows_def resigned changed_verifies)
  next
    case False
    with t show ?thesis by (simp add: apply_rows_def same_content_def)
  qed
qed

text \<open>A claim in full: the leases that ran out are released, then the ready rows are leased.\<close>

definition released :: "(rat \<Rightarrow> string) \<Rightarrow> rat \<Rightarrow> outbox \<Rightarrow> outbox" where
  "released flt now b = b\<lparr>ob_rows := map (apply_rows flt (ob_key b) release_lease (expired_rows now b)) (ob_rows b)\<rparr>"

definition leased :: "(rat \<Rightarrow> string) \<Rightarrow> string \<Rightarrow> rat \<Rightarrow> nat \<Rightarrow> rat \<Rightarrow> outbox \<Rightarrow> outbox" where
  "leased flt who now n lease b =
     b\<lparr>ob_rows := map (apply_rows flt (ob_key b) (take_lease who (now + lease)) (ready_rows now n b)) (ob_rows b)\<rparr>"

lemma released_inv: "table_inv flt b \<Longrightarrow> table_inv flt (released flt now b)"
  unfolding released_def
proof (rule row_step_inv, assumption, rule apply_rows_step, assumption)
  assume t: "table_inv flt b"
  then have d: "distinct (map or_id (ob_rows b))"
    by (simp add: table_inv_def)
  show "set (expired_rows now b) \<subseteq> set (ob_rows b)"
    by (rule selected(3) [OF d])
  fix r assume "r \<in> set (expired_rows now b)"
  then have r: "r \<in> set (ob_rows b)" "or_state r = Leased"
    by (auto simp: expired_rows_def)
  then have "row_shape r" "or_attempts r < ob_max_attempts b"
    using t by (auto simp: table_inv_def list_all_iff verify_row_def)
  with shapes(1) r show "same_content r (release_lease r) \<and> row_shape (release_lease r)
      \<and> (or_state (release_lease r) \<noteq> Delivered \<longrightarrow> or_state r \<noteq> Delivered)
      \<and> (or_state (release_lease r) = Pending \<or> or_state (release_lease r) = Leased \<longrightarrow> or_attempts (release_lease r) < ob_max_attempts b)"
    by (auto simp: release_lease_def row_shape_def same_content_def)
qed

lemma leased_inv:
  assumes "who \<noteq> []" "length who \<le> 160"
  shows "table_inv flt b \<Longrightarrow> table_inv flt (leased flt who now n lease b)"
  unfolding leased_def
proof (rule row_step_inv, assumption, rule apply_rows_step, assumption)
  assume t: "table_inv flt b"
  then have d: "distinct (map or_id (ob_rows b))"
    by (simp add: table_inv_def)
  show "set (ready_rows now n b) \<subseteq> set (ob_rows b)"
    by (rule selected(4) [OF d])
  fix r assume "r \<in> set (ready_rows now n b)"
  then have r: "r \<in> set (ob_rows b)" "or_state r = Pending"
    by (auto simp: ready_rows_def dest!: in_set_takeD)
  then have "row_shape r" "or_attempts r < ob_max_attempts b"
    using t by (auto simp: table_inv_def list_all_iff verify_row_def)
  with shapes(2) [OF _ assms] r show "same_content r (take_lease who (now + lease) r) \<and> row_shape (take_lease who (now + lease) r)
      \<and> (or_state (take_lease who (now + lease) r) \<noteq> Delivered \<longrightarrow> or_state r \<noteq> Delivered)
      \<and> (or_state (take_lease who (now + lease) r) = Pending \<or> or_state (take_lease who (now + lease) r) = Leased
         \<longrightarrow> or_attempts (take_lease who (now + lease) r) < ob_max_attempts b)"
    by (auto simp: take_lease_def same_content_def)
qed

lemma held_key: "held_rows who n (b\<lparr>ob_seen := s\<rparr>) = held_rows who n b"
  by (simp add: held_rows_def)

definition claimed :: "(rat \<Rightarrow> string) \<Rightarrow> string \<Rightarrow> rat \<Rightarrow> nat \<Rightarrow> rat \<Rightarrow> outbox \<Rightarrow> outbox" where
  "claimed flt who now n lease b = leased flt who now n lease (released flt now (b\<lparr>ob_seen := True\<rparr>))"

lemma claim_rows_exact:
  assumes t: "table_inv flt b" and who: "who \<noteq> []" "length who \<le> 160"
  shows "claim_rows flt who now n lease b = (claimed flt who now n lease b, Inr (held_rows who n (claimed flt who now n lease b)))
    \<and> table_inv flt (claimed flt who now n lease b)"
proof -
  define b' where "b' = claimed flt who now n lease b"
  note b'_def = b'_def [unfolded claimed_def]
  let ?b0 = "b\<lparr>ob_seen := True\<rparr>"
  have t0: "table_inv flt ?b0"
    using t by (simp add: table_inv_def open_rows_def retained_bytes_def)
  note t1 = released_inv [OF t0, of now]
  note t2 = leased_inv [OF who t1, of now n lease]
  have rows: "list_all (verify_row flt (ob_key c)) rs" if "table_inv flt c" "set rs \<subseteq> set (ob_rows c)" for c rs
    using that by (auto simp: table_inv_def list_all_iff)
  have d: "distinct (map or_id (ob_rows c))" if "table_inv flt c" for c
    using that by (simp add: table_inv_def)
  have v: "verify_if_changed flt b = (?b0, Inr ())"
    using t by (cases b) (simp add: verify_if_changed_def table_inv_def)
  have c1: "change_rows flt release_lease (expired_rows now ?b0) ?b0 = (released flt now ?b0, Inr ())"
    unfolding released_def using selected [OF d [OF t0]] rows [OF t0]
    by (intro change_rows_exact d [OF t0]) (simp_all add: release_lease_def)
  have c2: "change_rows flt (take_lease who (now + lease)) (ready_rows now n (released flt now ?b0)) (released flt now ?b0) = (b', Inr ())"
    unfolding leased_def b'_def using selected [OF d [OF t1]] rows [OF t1]
    by (intro change_rows_exact d [OF t1]) (simp_all add: take_lease_def)
  have "list_all (verify_row flt (ob_key b')) (held_rows who n b')"
    using rows [OF t2 selected(5) [OF d [OF t2]]] by (simp add: b'_def)
  with v c1 c2 t2 show ?thesis
    by (simp add: claim_rows_def op_then_def op_get_def b'_def claimed_def)
qed

lemma table_seen [simp]: "table_inv flt (b\<lparr>ob_seen := s\<rparr>) = table_inv flt b"
  by (simp add: table_inv_def open_rows_def retained_bytes_def)

lemma rows_seen [simp]: "open_rows (b\<lparr>ob_seen := s\<rparr>) = open_rows b" "delivered_rows (b\<lparr>ob_seen := s\<rparr>) = delivered_rows b"
  "find_row i (b\<lparr>ob_seen := s\<rparr>) = find_row i b"
  by (simp_all add: open_rows_def delivered_rows_def find_row_def)

lemma verify_trusted: "table_inv flt b \<Longrightarrow> verify_if_changed flt b = (b\<lparr>ob_seen := True\<rparr>, Inr ())"
  by (cases b) (simp add: verify_if_changed_def table_inv_def)

lemma find_row_Some: "find_row i b = Some r \<Longrightarrow> r \<in> set (ob_rows b) \<and> or_id r = i"
  by (auto simp: find_row_def find_Some_iff)

lemma find_row_None: "find_row i b = None \<longleftrightarrow> i \<notin> set (map or_id (ob_rows b))"
  by (auto simp: find_row_def find_None_iff)

subsection \<open>Pruning\<close>

definition old_tombstones :: "outbox \<Rightarrow> orow list" where
  "old_tombstones b = drop (ob_tombstones b) (sort_key (\<lambda>r. - or_created r) (delivered_rows b))"

definition pruned :: "outbox \<Rightarrow> outbox" where
  "pruned b = b\<lparr>ob_rows := filter (\<lambda>r. r \<notin> set (old_tombstones b)) (ob_rows b)\<rparr>"

lemma prune_trusted: "table_inv flt b \<Longrightarrow> prune_tombstones flt b = (pruned b, Inr ())"
  by (simp add: prune_exact table_inv_def pruned_def old_tombstones_def)

lemma old_delivered: "set (old_tombstones b) \<subseteq> set (delivered_rows b)"
  by (auto simp: old_tombstones_def dest: in_set_dropD)

lemma pruned_open: "open_rows (pruned b) = open_rows b"
proof -
  have "filter (\<lambda>r. or_state r \<noteq> Delivered) (filter (\<lambda>r. r \<notin> set (old_tombstones b)) (ob_rows b))
      = filter (\<lambda>r. or_state r \<noteq> Delivered) (ob_rows b)"
    unfolding filter_filter using old_delivered [of b] by (intro filter_cong) (auto simp: delivered_rows_def)
  then show ?thesis
    by (simp add: open_rows_def pruned_def)
qed

lemma pruned_delivered:
  assumes "distinct (ob_rows b)"
  shows "length (delivered_rows (pruned b)) \<le> ob_tombstones b"
proof -
  have d: "distinct (delivered_rows b)" "distinct (old_tombstones b)"
    using assms by (simp_all add: delivered_rows_def old_tombstones_def)
  have "delivered_rows (pruned b) = filter (\<lambda>r. r \<notin> set (old_tombstones b)) (delivered_rows b)"
    by (simp add: delivered_rows_def pruned_def conj_commute)
  then have "length (delivered_rows (pruned b)) = card (set (delivered_rows b) - set (old_tombstones b))"
    using d(1) by (simp add: distinct_card [symmetric] set_diff_eq)
  also have "\<dots> = length (delivered_rows b) - length (old_tombstones b)"
    using d old_delivered [of b] by (simp add: card_Diff_subset distinct_card)
  also have "\<dots> \<le> ob_tombstones b"
    by (simp add: old_tombstones_def)
  finally show ?thesis .
qed

lemma pruned_inv: "table_inv flt b \<Longrightarrow> outbox_inv flt (pruned b)"
proof -
  assume t: "table_inv flt b"
  then have "distinct (ob_rows b)"
    by (simp add: table_inv_def distinct_rows)
  note p = pruned_delivered [OF this]
  have o: "open_rows (pruned b) = open_rows b" "retained_bytes (pruned b) = retained_bytes b"
    by (simp_all add: pruned_open retained_bytes_def)
  have "set (ob_rows (pruned b)) \<subseteq> set (ob_rows b)" "distinct (map or_id (ob_rows (pruned b)))"
    using t by (auto simp: pruned_def table_inv_def distinct_map_filter)
  then have "table_inv flt (pruned b)"
    using t o unfolding table_inv_def by (auto simp: list_all_iff pruned_def)
  moreover have "ob_tombstones (pruned b) = ob_tombstones b"
    by (simp add: pruned_def)
  ultimately show ?thesis
    using p by (simp add: outbox_inv_def)
qed

subsection \<open>Replacing one row\<close>

lemma replace_as_map: "replace_row r (resign flt key (f r)) rows = map (apply_rows flt key f [r]) rows"
  by (simp add: replace_row_def apply_rows_def)

text \<open>The state after the row \<open>r\<close> became \<open>f r\<close>.\<close>

definition with_change :: "(rat \<Rightarrow> string) \<Rightarrow> (orow \<Rightarrow> orow) \<Rightarrow> orow \<Rightarrow> outbox \<Rightarrow> outbox" where
  "with_change flt f r b = b\<lparr>ob_seen := True, ob_rows := map (apply_rows flt (ob_key b) f [r]) (ob_rows b)\<rparr>"

lemma update_trusted:
  assumes "table_inv flt b" and "r \<in> set (ob_rows b)"
  shows "update_state flt r (f r) (b\<lparr>ob_seen := True\<rparr>) = (with_change flt f r b, Inr ())"
proof -
  have "distinct (map or_id (ob_rows (b\<lparr>ob_seen := True\<rparr>)))" "r \<in> set (ob_rows (b\<lparr>ob_seen := True\<rparr>))"
    using assms by (simp_all add: table_inv_def)
  from update_state_exact [OF this] show ?thesis
    by (simp add: with_change_def replace_as_map)
qed

lemma with_change_inv:
  assumes "table_inv flt b" and "r \<in> set (ob_rows b)"
    and "same_content r (f r) \<and> row_shape (f r) \<and> (or_state (f r) \<noteq> Delivered \<longrightarrow> or_state r \<noteq> Delivered)
      \<and> (or_state (f r) = Pending \<or> or_state (f r) = Leased \<longrightarrow> or_attempts (f r) < ob_max_attempts b)"
  shows "table_inv flt (with_change flt f r b)"
proof -
  let ?b = "b\<lparr>ob_seen := True\<rparr>"
  have "row_step flt ?b (apply_rows flt (ob_key ?b) f [r])"
    using assms by (intro apply_rows_step) auto
  from row_step_inv [OF _ this] assms(1) show ?thesis
    by (simp add: with_change_def)
qed

lemma with_change_open:
  assumes "or_state (f r) \<noteq> Delivered \<longleftrightarrow> or_state r \<noteq> Delivered"
  shows "length (delivered_rows (with_change flt f r b)) = length (delivered_rows b)"
proof -
  have "length (filter (\<lambda>x. or_state x = Delivered) (map (apply_rows flt key f [r]) rows)) = length (filter (\<lambda>x. or_state x = Delivered) rows)" for key rows
    using assms by (induction rows) (auto simp: apply_rows_def resign_def)
  then show ?thesis
    by (simp add: delivered_rows_def with_change_def del: filter_map)
qed

subsection \<open>The operations on a sound table\<close>

lemma required_trusted:
  assumes "table_inv flt b"
  shows "required_row flt i (b\<lparr>ob_seen := True\<rparr>) = (b\<lparr>ob_seen := True\<rparr>, case find_row i b of None \<Rightarrow> Inl ObKeyError | Some r \<Rightarrow> Inr r)"
proof (cases "find_row i b")
  case (Some r)
  with find_row_Some [OF Some] assms show ?thesis
    by (auto simp: required_row_def table_inv_def list_all_iff)
qed (simp add: required_row_def)

lemma finish_trusted:
  assumes t: "table_inv flt b" and f: "\<And>r. find_row i b = Some r \<Longrightarrow> may r \<Longrightarrow> or_state r \<noteq> Delivered"
  shows "finish_row flt i may b = (case find_row i b of
     None \<Rightarrow> (b\<lparr>ob_seen := True\<rparr>, Inl ObKeyError)
   | Some r \<Rightarrow> if may r then (pruned (with_change flt deliver r b), Inr ()) else (b\<lparr>ob_seen := True\<rparr>, Inl ObKeyError))"
proof (cases "find_row i b")
  case None
  then show ?thesis
    by (simp add: finish_row_def op_then_def verify_trusted [OF t] required_trusted [OF t])
next
  case (Some r)
  have r: "r \<in> set (ob_rows b)"
    using find_row_Some [OF Some] by blast
  then have "row_shape r"
    using t by (auto simp: table_inv_def list_all_iff verify_row_def)
  then have p: "table_inv flt (with_change flt deliver r b)"
    using shapes(3) by (intro with_change_inv [OF t r]) (auto simp: deliver_def same_content_def)
  show ?thesis
    using Some update_trusted [OF t r, of deliver] prune_trusted [OF p]
    by (simp add: finish_row_def op_then_def op_guard_def verify_trusted [OF t] required_trusted [OF t])
qed

lemma finish_inv: "table_inv flt b \<Longrightarrow> r \<in> set (ob_rows b) \<Longrightarrow> outbox_inv flt (pruned (with_change flt deliver r b))"
proof -
  assume t: "table_inv flt b" and r: "r \<in> set (ob_rows b)"
  then have "row_shape r"
    by (auto simp: table_inv_def list_all_iff verify_row_def)
  then have "table_inv flt (with_change flt deliver r b)"
    using shapes(3) by (intro with_change_inv [OF t r]) (auto simp: deliver_def same_content_def)
  then show ?thesis by (rule pruned_inv)
qed

lemma retry_trusted:
  assumes t: "table_inv flt b"
  shows "retry_row flt i owner err now b = (case find_row i b of
     None \<Rightarrow> (b\<lparr>ob_seen := True\<rparr>, Inl ObKeyError)
   | Some r \<Rightarrow> if or_state r = Leased \<and> or_owner r = owner then (with_change flt (failed_row (ob_max_attempts b) err now) r b, Inr ())
       else (b\<lparr>ob_seen := True\<rparr>, Inl ObKeyError))"
proof (cases "find_row i b")
  case None
  then show ?thesis
    by (simp add: retry_row_def op_then_def verify_trusted [OF t] required_trusted [OF t])
next
  case (Some r)
  have "r \<in> set (ob_rows b)"
    using find_row_Some [OF Some] by blast
  from update_trusted [OF t this, of "failed_row (ob_max_attempts b) err now"] Some show ?thesis
    by (simp add: retry_row_def op_then_def op_guard_def op_get_def verify_trusted [OF t] required_trusted [OF t])
qed

lemma failed_inv:
  assumes t: "table_inv flt b" and r: "r \<in> set (ob_rows b)" "or_state r = Leased"
  shows "table_inv flt (with_change flt (failed_row (ob_max_attempts b) err now) r b)"
proof -
  have "row_shape r" "or_attempts r < ob_max_attempts b" "ob_max_attempts b \<le> 100"
    using t r by (auto simp: table_inv_def list_all_iff verify_row_def)
  then show ?thesis
    using shapes(4) r(2) by (intro with_change_inv [OF t r(1)]) (auto simp: failed_row_def Let_def same_content_def)
qed

text \<open>A row that was just prepared, under an identifier that is not there.\<close>

definition fresh_row :: "(rat \<Rightarrow> string) \<Rightarrow> outbox \<Rightarrow> orow \<Rightarrow> bool" where
  "fresh_row flt b r \<longleftrightarrow> verify_row flt (ob_key b) r \<and> or_state r = Pending \<and> or_attempts r = 0 \<and> or_id r \<notin> set (map or_id (ob_rows b))"

lemma json_sorted_dict: "\<exists>d. json_sorted (PDict payload) = PDict d"
  by simp

lemma prepared_row:
  assumes "prepare_row flt key i payload clock = Inr r"
  shows "verify_row flt key r \<and> or_state r = Pending \<and> or_attempts r = 0 \<and> or_id r = py_strip i \<and> or_until r = 0
    \<and> or_json r = json_text True flt (json_sorted (PDict payload)) \<and> or_next r = 0"
proof -
  obtain doc d where doc: "json_sorted (PDict payload) = doc" and d: "doc = PDict d"
    using json_sorted_dict by blast
  obtain body where body: "json_text True flt doc = body"
    by simp
  obtain now where now: "clock = Some now"
    using assms by (cases clock) (auto simp: prepare_row_def Let_def split: if_splits)
  have c: "py_strip i \<noteq> []" "length (py_strip i) \<le> 160" "length (utf8 body) \<le> max_item_bytes"
    using assms unfolding prepare_row_def Let_def now doc body by (simp_all split: if_splits)
  have r: "r = resign flt key \<lparr>or_id = py_strip i, or_json = body, or_doc = Some doc,
          or_digest = hex_text (sha256 (utf8 body)), or_signature = row_signature flt key (py_strip i) body now,
          or_state = Pending, or_attempts = 0, or_next = 0, or_owner = [], or_until = 0, or_error = [],
          or_created = now, or_size = length (utf8 body), or_mac = []\<rparr>"
    using assms unfolding prepare_row_def Let_def now doc body by (simp split: if_splits)
  have "verify_row flt key r"
    unfolding r by (rule resign_verifies) (simp_all add: row_shape_def c d)
  then show ?thesis
    unfolding r doc body by (simp add: resign_def)
qed

lemma appended_inv:
  assumes o: "outbox_inv flt b" and f: "\<And>r. r \<in> set rs \<Longrightarrow> fresh_row flt b r" and d: "distinct (map or_id rs)"
    and room: "length (open_rows b) + length rs \<le> ob_max_items b" "retained_bytes b + sum_list (map or_size rs) \<le> ob_max_bytes b"
  shows "outbox_inv flt (b\<lparr>ob_rows := ob_rows b @ rs\<rparr>)"
proof -
  let ?b = "b\<lparr>ob_rows := ob_rows b @ rs\<rparr>"
  have p: "or_state r = Pending" "verify_row flt (ob_key b) r" "or_attempts r = 0" "or_id r \<notin> set (map or_id (ob_rows b))" if "r \<in> set rs" for r
    using f [OF that] unfolding fresh_row_def by blast+
  then have fl: "filter (\<lambda>r. or_state r \<noteq> Delivered) rs = rs" "filter (\<lambda>r. or_state r = Delivered) rs = []"
    by (auto simp: filter_id_conv filter_empty_conv)
  have t: "table_inv flt b" "length (delivered_rows b) \<le> ob_tombstones b"
    using o by (simp_all add: outbox_inv_def)
  have "set (map or_id (ob_rows b)) \<inter> set (map or_id rs) = {}"
    using p(4) by (simp add: disjoint_iff image_iff) metis
  then have dist: "distinct (map or_id (ob_rows ?b))"
    using t(1) d by (simp add: table_inv_def)
  have open_b: "open_rows ?b = open_rows b @ rs" and deliv: "delivered_rows ?b = delivered_rows b"
    using fl by (simp_all add: open_rows_def delivered_rows_def)
  have "list_all (verify_row flt (ob_key b)) (ob_rows ?b)"
      "list_all (\<lambda>r. or_state r = Pending \<or> or_state r = Leased \<longrightarrow> or_attempts r < ob_max_attempts b) (ob_rows ?b)"
    using t(1) p(2,3) by (auto simp: table_inv_def list_all_iff)
  then have "table_inv flt ?b"
    using t(1) dist room open_b by (simp add: table_inv_def retained_bytes_def)
  then show ?thesis
    using t(2) deliv by (simp add: outbox_inv_def)
qed

lemma pruned_fields: "ob_key (pruned b) = ob_key b" "set (ob_rows (pruned b)) \<subseteq> set (ob_rows b)" "ob_max_items (pruned b) = ob_max_items b"
  "ob_max_bytes (pruned b) = ob_max_bytes b"
  by (auto simp: pruned_def)

lemma insert_row_inv:
  assumes o: "outbox_inv flt b" and r: "verify_row flt (ob_key b) r" "or_state r = Pending" "or_attempts r = 0"
  shows "outbox_inv flt (fst (insert_row flt r b))"
proof -
  have t: "table_inv flt b" and o1: "outbox_inv flt (b\<lparr>ob_seen := True\<rparr>)"
    using o by (simp_all add: outbox_inv_def)
  show ?thesis
  proof (cases "find_row (or_id r) b")
    case (Some old)
    then show ?thesis
      using o1 by (simp add: insert_row_def op_then_def op_get_def verify_trusted [OF t])
  next
    case None
    let ?b = "pruned (b\<lparr>ob_seen := True\<rparr>)"
    have i: "outbox_inv flt ?b"
      using t by (intro pruned_inv) simp
    have "fresh_row flt ?b x" if "x \<in> set [r]" for x
      using that r None pruned_fields [of "b\<lparr>ob_seen := True\<rparr>"] by (auto simp: fresh_row_def find_row_None)
    then have "outbox_inv flt (?b\<lparr>ob_rows := ob_rows ?b @ [r]\<rparr>)"
      if "\<not> (ob_max_items ?b \<le> length (open_rows ?b) \<or> ob_max_bytes ?b < retained_bytes ?b + or_size r)"
      using that by (intro appended_inv [OF i]) auto
    then show ?thesis
      using i None prune_trusted [of flt "b\<lparr>ob_seen := True\<rparr>"] t
      by (simp add: insert_row_def op_then_def op_get_def verify_trusted [OF t])
  qed
qed

subsection \<open>Enqueueing on a sound table\<close>

text \<open>An insertion leaves the table as it was, or prunes it and appends new rows.\<close>

definition grown :: "outbox \<Rightarrow> orow list \<Rightarrow> outbox" where
  "grown b rs = (let p = pruned (b\<lparr>ob_seen := True\<rparr>) in p\<lparr>ob_rows := ob_rows p @ rs\<rparr>)"

definition has_room :: "outbox \<Rightarrow> orow list \<Rightarrow> bool" where
  "has_room b rs \<longleftrightarrow> length (open_rows b) + length rs \<le> ob_max_items b \<and> retained_bytes b + sum_list (map or_size rs) \<le> ob_max_bytes b"

lemma insert_row_cases:
  assumes "table_inv flt b"
  shows "snd (insert_row flt r b) = Inr True \<and> fst (insert_row flt r b) = grown b [r] \<and> find_row (or_id r) b = None \<and> has_room b [r]
    \<or> fst (insert_row flt r b) = b\<lparr>ob_seen := True\<rparr> \<and> snd (insert_row flt r b) \<noteq> Inr True
    \<or> snd (insert_row flt r b) = Inl ObFull"
proof (cases "find_row (or_id r) b")
  case (Some old)
  then show ?thesis
    by (simp add: insert_row_def op_then_def op_get_def verify_trusted [OF assms])
next
  case None
  let ?b = "b\<lparr>ob_seen := True\<rparr>"
  have "open_rows (pruned ?b) = open_rows b" "retained_bytes (pruned ?b) = retained_bytes b"
    "ob_max_items (pruned ?b) = ob_max_items b" "ob_max_bytes (pruned ?b) = ob_max_bytes b"
    using pruned_open [of ?b] pruned_fields [of ?b] by (simp_all add: retained_bytes_def)
  with None show ?thesis
    using prune_trusted [of flt ?b] assms
    by (auto simp: insert_row_def op_then_def op_get_def verify_trusted [OF assms] grown_def has_room_def Let_def)
qed

lemma grown_inv:
  assumes t: "table_inv flt b" and f: "\<And>r. r \<in> set rs \<Longrightarrow> fresh_row flt b r" and d: "distinct (map or_id rs)" and room: "has_room b rs"
  shows "outbox_inv flt (grown b rs)"
proof -
  let ?p = "pruned (b\<lparr>ob_seen := True\<rparr>)"
  have "outbox_inv flt ?p"
    using t by (intro pruned_inv) simp
  moreover have "fresh_row flt ?p r" if "r \<in> set rs" for r
    using f [OF that] pruned_fields [of "b\<lparr>ob_seen := True\<rparr>"] by (auto simp: fresh_row_def)
  moreover have "length (open_rows ?p) + length rs \<le> ob_max_items ?p" "retained_bytes ?p + sum_list (map or_size rs) \<le> ob_max_bytes ?p"
    using room pruned_fields [of "b\<lparr>ob_seen := True\<rparr>"] by (simp_all add: has_room_def pruned_open retained_bytes_def)
  ultimately show ?thesis
    unfolding grown_def Let_def using d by (intro appended_inv)
qed

lemma prepared_fields:
  "prepare_batch flt key es acc = Inr rs \<Longrightarrow>
    (\<forall>r \<in> set acc. verify_row flt key r \<and> or_state r = Pending \<and> or_attempts r = 0) \<Longrightarrow> distinct (map or_id acc) \<Longrightarrow>
    (\<forall>r \<in> set rs. verify_row flt key r \<and> or_state r = Pending \<and> or_attempts r = 0) \<and> distinct (map or_id rs)"
proof (induction flt key es acc rule: prepare_batch.induct)
  case (2 flt key i payload clock es acc)
  obtain r where r: "prepare_row flt key i payload clock = Inr r"
    using 2(3) by (cases "prepare_row flt key i payload clock") auto
  show ?case
  proof (cases "find (\<lambda>s. or_id s = or_id r) acc")
    case None
    then have "prepare_batch flt key es (acc @ [r]) = Inr rs"
      using 2(3) r by simp
    moreover have "or_id r \<notin> or_id ` set acc"
      using None by (auto simp: find_None_iff)
    ultimately show ?thesis
      using 2(1) [OF r None] 2(4,5) prepared_row [OF r] by auto
  next
    case (Some s)
    then have "or_json s = or_json r" "prepare_batch flt key es acc = Inr rs"
      using 2(3) r by (auto split: if_splits)
    with 2(2) [OF r Some] 2(4,5) show ?thesis
      by auto
  qed
qed auto

lemma split_known_exact:
  "split_known flt b rs = Inr added \<Longrightarrow> added = filter (\<lambda>r. find_row (or_id r) b = None) rs
    \<and> (\<forall>r \<in> set rs. \<forall>old. find_row (or_id r) b = Some old \<longrightarrow> or_json old = or_json r)"
proof (induction rs arbitrary: added)
  case (Cons r rs)
  show ?case
  proof (cases "find_row (or_id r) b")
    case None
    with Cons show ?thesis by (auto split: sum.splits)
  next
    case (Some old)
    with Cons.prems have "or_json old = or_json r" "split_known flt b rs = Inr added"
      by (auto split: if_splits)
    with Some Cons.IH [of added] show ?thesis by simp
  qed
qed simp

lemma insert_rows_cases:
  assumes "table_inv flt b"
  shows "(\<exists>added. snd (insert_rows flt rs b) = Inr (length added) \<and> fst (insert_rows flt rs b) = grown b added
      \<and> split_known flt (b\<lparr>ob_seen := True\<rparr>) rs = Inr added \<and> has_room b added \<and> added \<noteq> [])
    \<or> fst (insert_rows flt rs b) = b\<lparr>ob_seen := True\<rparr> \<and> (\<forall>n. snd (insert_rows flt rs b) = Inr n \<longrightarrow> n = 0)
    \<or> snd (insert_rows flt rs b) = Inl ObFull"
proof (cases "split_known flt (b\<lparr>ob_seen := True\<rparr>) rs")
  case (Inl e)
  then show ?thesis
    by (simp add: insert_rows_def op_then_def verify_trusted [OF assms])
next
  case (Inr added)
  let ?b = "b\<lparr>ob_seen := True\<rparr>"
  have "open_rows (pruned ?b) = open_rows b" "retained_bytes (pruned ?b) = retained_bytes b"
    "ob_max_items (pruned ?b) = ob_max_items b" "ob_max_bytes (pruned ?b) = ob_max_bytes b"
    using pruned_open [of ?b] pruned_fields [of ?b] by (simp_all add: retained_bytes_def)
  with Inr show ?thesis
    using prune_trusted [of flt ?b] assms
    by (cases "added = []") (auto simp: insert_rows_def op_then_def verify_trusted [OF assms] grown_def has_room_def Let_def)
qed

section \<open>Runs of the outbox\<close>

text \<open>\<open>ObTouched\<close> is another connection that commits without changing a row.\<close>

datatype outbox_event =
  ObEnqueue string "(string \<times> pyval) list" "rat option"
| ObEnqueueMany "(string \<times> (string \<times> pyval) list \<times> rat option) list"
| ObClaim string rat int rat
| ObComplete string
| ObAcknowledge string string
| ObRetry string string string rat
| ObIsDelivered string
| ObStats
| ObTouched

fun outbox_step :: "(rat \<Rightarrow> string) \<Rightarrow> outbox \<Rightarrow> outbox_event \<Rightarrow> outbox" where
  "outbox_step flt b (ObEnqueue i payload clock) = fst (enqueue flt i payload clock b)"
| "outbox_step flt b (ObEnqueueMany es) = fst (enqueue_many flt es b)"
| "outbox_step flt b (ObClaim owner now limit lease) = fst (claim flt owner now limit lease b)"
| "outbox_step flt b (ObComplete i) = fst (complete_pending flt i b)"
| "outbox_step flt b (ObAcknowledge i owner) = fst (acknowledge flt i owner b)"
| "outbox_step flt b (ObRetry i owner err now) = fst (retry flt i owner err now b)"
| "outbox_step flt b (ObIsDelivered i) = fst (is_delivered flt i b)"
| "outbox_step flt b ObStats = fst (stats flt b)"
| "outbox_step flt b ObTouched = b\<lparr>ob_seen := False\<rparr>"

text \<open>What one event does to a sound table: the possible next states.\<close>

definition delivers :: "outbox_event \<Rightarrow> orow \<Rightarrow> bool" where
  "delivers e r \<longleftrightarrow> (case e of
     ObComplete i \<Rightarrow> i = or_id r \<and> (or_state r = Pending \<or> or_state r = Leased)
   | ObAcknowledge i owner \<Rightarrow> i = or_id r \<and> or_state r = Leased \<and> or_owner r = owner
   | _ \<Rightarrow> False)"

inductive outcome :: "(rat \<Rightarrow> string) \<Rightarrow> outbox \<Rightarrow> outbox_event \<Rightarrow> outbox \<Rightarrow> bool" for flt b e where
  outcome_same: "outcome flt b e (b\<lparr>ob_seen := s\<rparr>)"
| outcome_grown: "(\<And>r. r \<in> set rs \<Longrightarrow> fresh_row flt b r) \<Longrightarrow> distinct (map or_id rs) \<Longrightarrow> has_room b rs \<Longrightarrow> outcome flt b e (grown b rs)"
| outcome_claimed: "who \<noteq> [] \<Longrightarrow> length who \<le> 160 \<Longrightarrow> e = ObClaim owner now limit lease \<Longrightarrow> who = take 160 (py_strip owner) \<Longrightarrow>
     outcome flt b e (claimed flt who now (clamp 1 1000 limit) (max 1 (min lease 3600)) b)"
| outcome_delivered: "r \<in> set (ob_rows b) \<Longrightarrow> delivers e r \<Longrightarrow> outcome flt b e (pruned (with_change flt deliver r b))"
| outcome_failed: "r \<in> set (ob_rows b) \<Longrightarrow> or_state r = Leased \<Longrightarrow> or_owner r = owner \<Longrightarrow> e = ObRetry (or_id r) owner err now \<Longrightarrow>
     outcome flt b e (with_change flt (failed_row (ob_max_attempts b) err now) r b)"

lemma transaction_cases: "fst (transaction f b) = (case snd (f b) of
     Inl _ \<Rightarrow> b\<lparr>ob_seen := ob_seen (fst (f b)) \<and> ob_rows (fst (f b)) = ob_rows b\<rparr> | Inr _ \<Rightarrow> (fst (f b))\<lparr>ob_seen := True\<rparr>)"
  "snd (transaction f b) = snd (f b)"
  by (cases "f b"; cases "snd (f b)"; simp add: transaction_def)+

lemma same_self: "outcome flt b e b"
  using outcome_same [of flt b e "ob_seen b"] by simp

lemma grown_seen [simp]: "(grown b rs)\<lparr>ob_seen := True\<rparr> = grown b rs"
  by (simp add: grown_def Let_def pruned_def)

lemma seen_states [simp]: "(claimed flt who now n lease b)\<lparr>ob_seen := True\<rparr> = claimed flt who now n lease b"
  "(pruned (with_change flt f r b))\<lparr>ob_seen := True\<rparr> = pruned (with_change flt f r b)"
  "(with_change flt f r b)\<lparr>ob_seen := True\<rparr> = with_change flt f r b"
  by (simp_all add: claimed_def leased_def released_def pruned_def with_change_def)

lemma enqueue_outcome:
  assumes t: "table_inv flt b"
  shows "outcome flt b e (fst (enqueue flt i payload clock b))"
proof (cases "prepare_row flt (ob_key b) i payload clock")
  case (Inr r)
  have "outcome flt b e (grown b [r])" if "find_row (or_id r) b = None" "has_room b [r]"
    using that prepared_row [OF Inr] by (intro outcome_grown) (auto simp: fresh_row_def find_row_None)
  with insert_row_cases [OF t, of r] outcome_same [of flt b e] same_self Inr show ?thesis
    by (auto simp: enqueue_def transaction_cases split: sum.split)
qed (simp add: enqueue_def same_self)

lemma enqueue_many_outcome:
  assumes t: "table_inv flt b"
  shows "outcome flt b e (fst (enqueue_many flt es b))"
proof (cases "prepare_batch flt (ob_key b) es []")
  case (Inr rs)
  have p: "\<forall>r \<in> set rs. verify_row flt (ob_key b) r \<and> or_state r = Pending \<and> or_attempts r = 0" "distinct (map or_id rs)"
    using prepared_fields [OF Inr] by auto
  have g: "outcome flt b e (grown b added)" if "split_known flt (b\<lparr>ob_seen := True\<rparr>) rs = Inr added" "has_room b added" for added
  proof -
    have "added = filter (\<lambda>r. find_row (or_id r) b = None) rs"
      using split_known_exact [OF that(1)] by simp
    with p that(2) show ?thesis
      by (intro outcome_grown) (auto simp: fresh_row_def find_row_None distinct_map_filter)
  qed
  from insert_rows_cases [OF t, of rs]
  have "outcome flt b e (fst (transaction (insert_rows flt rs) b))"
    using g outcome_same [of flt b e] same_self by (auto simp: transaction_cases split: sum.split)
  with Inr show ?thesis
    by (simp add: enqueue_many_def same_self)
qed (simp add: enqueue_many_def same_self)

lemma finish_outcome:
  assumes t: "table_inv flt b" and m: "\<And>r. find_row i b = Some r \<Longrightarrow> may r \<Longrightarrow> delivers e r"
  shows "outcome flt b e (fst (transaction (finish_row flt i may) b))"
proof -
  have d: "or_state r \<noteq> Delivered" if "find_row i b = Some r" "may r" for r
    using m [OF that] by (auto simp: delivers_def split: outbox_event.splits)
  have f: "finish_row flt i may b = (case find_row i b of
     None \<Rightarrow> (b\<lparr>ob_seen := True\<rparr>, Inl ObKeyError)
   | Some r \<Rightarrow> if may r then (pruned (with_change flt deliver r b), Inr ()) else (b\<lparr>ob_seen := True\<rparr>, Inl ObKeyError))"
    by (rule finish_trusted [OF t]) (rule d)
  show ?thesis
  proof (cases "find_row i b")
    case (Some r)
    with outcome_delivered [OF _ m [OF Some]] find_row_Some [OF Some] outcome_same show ?thesis
      by (simp add: transaction_cases f)
  qed (simp add: transaction_cases f outcome_same)
qed

lemma step_outcome:
  assumes t: "table_inv flt b"
  shows "outcome flt b e (outbox_step flt b e)"
proof (cases e)
  case (ObClaim owner now limit lease)
  then show ?thesis
    using outcome_claimed [of "take 160 (py_strip owner)" e owner now limit lease flt b]
      claim_rows_exact [OF t, of "take 160 (py_strip owner)"] same_self
    by (cases "py_strip owner = []") (simp_all add: claim_def Let_def transaction_cases)
next
  case (ObRetry i owner err now)
  then show ?thesis
    using find_row_Some [of i b] outcome_same outcome_failed [of _ b owner e err now flt]
    by (cases "find_row i b") (auto simp: retry_def transaction_cases retry_trusted [OF t])
next
  case (ObComplete i)
  then show ?thesis
    by (auto intro!: finish_outcome [OF t] simp: complete_pending_def delivers_def dest: find_row_Some)
next
  case (ObAcknowledge i owner)
  then show ?thesis
    by (auto intro!: finish_outcome [OF t] simp: acknowledge_def delivers_def dest: find_row_Some)
next
  case (ObIsDelivered i)
  then show ?thesis
    using outcome_same [of flt b e True] by (simp add: is_delivered_def op_then_def verify_trusted [OF t] split: option.split)
next
  case ObStats
  then show ?thesis
    using outcome_same [of flt b e True] by (simp add: stats_def op_then_def verify_trusted [OF t])
qed (simp_all add: enqueue_outcome [OF t] enqueue_many_outcome [OF t] outcome_same)

lemma claimed_delivered:
  assumes "table_inv flt b" and "who \<noteq> []" "length who \<le> 160"
  shows "length (delivered_rows (claimed flt who now n lease b)) = length (delivered_rows b)"
proof -
  have *: "length (filter (\<lambda>x. or_state x = Delivered) (map (apply_rows flt key f rs) rows)) = length (filter (\<lambda>x. or_state x = Delivered) rows)"
    if "\<And>x. x \<in> set rs \<Longrightarrow> or_state x \<noteq> Delivered \<and> or_state (f x) \<noteq> Delivered" for f rs key rows
    using that by (induction rows) (auto simp: apply_rows_def resign_def)
  have "length (delivered_rows (released flt now c)) = length (delivered_rows c)" for c
    using * [of "expired_rows now c" release_lease "ob_key c" "ob_rows c"]
    by (simp add: released_def delivered_rows_def expired_rows_def release_lease_def del: filter_map)
  moreover have "length (delivered_rows (leased flt who now n lease c)) = length (delivered_rows c)" for c
  proof -
    have "or_state x = Pending" if "x \<in> set (ready_rows now n c)" for x
      using that by (auto simp: ready_rows_def dest!: in_set_takeD)
    then show ?thesis
      using * [of "ready_rows now n c" "take_lease who (now + lease)" "ob_key c" "ob_rows c"]
      by (simp add: leased_def delivered_rows_def take_lease_def del: filter_map)
  qed
  ultimately show ?thesis
    by (simp add: claimed_def)
qed

lemma limits_kept: "ob_tombstones (claimed flt who now n lease b) = ob_tombstones b" "ob_tombstones (with_change flt f r b) = ob_tombstones b"
  "ob_max_attempts (claimed flt who now n lease b) = ob_max_attempts b" "ob_max_attempts (with_change flt f r b) = ob_max_attempts b"
  "ob_max_attempts (pruned b) = ob_max_attempts b" "ob_max_attempts (grown b rs) = ob_max_attempts b"
  by (simp_all add: claimed_def leased_def released_def with_change_def pruned_def grown_def Let_def)

lemma outcome_inv: "outcome flt b e b' \<Longrightarrow> outbox_inv flt b \<Longrightarrow> outbox_inv flt b'"
proof (induction rule: outcome.induct)
  case (outcome_same s)
  then show ?case by (simp add: outbox_inv_def)
next
  case (outcome_grown rs)
  then show ?case by (intro grown_inv) (auto simp: outbox_inv_def)
next
  case (outcome_claimed who owner now limit lease)
  then have t: "table_inv flt b" "length (delivered_rows b) \<le> ob_tombstones b"
    by (simp_all add: outbox_inv_def)
  with claim_rows_exact [OF t(1) outcome_claimed(1,2)] claimed_delivered [OF t(1) outcome_claimed(1,2)] show ?case
    by (simp add: outbox_inv_def limits_kept)
next
  case (outcome_delivered r)
  then show ?case by (intro finish_inv) (simp_all add: outbox_inv_def)
next
  case (outcome_failed r owner err now)
  then have t: "table_inv flt b" "length (delivered_rows b) \<le> ob_tombstones b"
    by (simp_all add: outbox_inv_def)
  have "or_state (failed_row (ob_max_attempts b) err now r) \<noteq> Delivered"
    by (simp add: failed_row_def Let_def)
  then show ?case
    using t failed_inv [OF t(1) outcome_failed(1,2)] outcome_failed(2)
    by (simp add: outbox_inv_def limits_kept with_change_open)
qed

interpretation outbox: machine "outbox_step flt" "outbox_inv flt" for flt
  by unfold_locales (metis outcome_inv step_outcome outbox_inv_def)

text \<open>An item that is not delivered, some failed attempts later.\<close>

definition follows :: "nat \<Rightarrow> orow \<Rightarrow> orow \<Rightarrow> bool" where
  "follows n r s \<longleftrightarrow> same_content r s \<and> or_state s \<noteq> Delivered \<and> or_attempts s = or_attempts r + n"

definition stays :: "nat \<Rightarrow> orow \<Rightarrow> outbox \<Rightarrow> bool" where
  "stays n r b \<longleftrightarrow> (\<exists>s \<in> set (ob_rows b). follows n r s)"

lemma follows_refl: "or_state r \<noteq> Delivered \<Longrightarrow> follows 0 r r"
  by (simp add: follows_def same_content_def)

lemma follows_trans: "follows m r s \<Longrightarrow> follows n s t \<Longrightarrow> follows (m + n) r t"
  by (simp add: follows_def same_content_def)

lemma pruned_stays: "r \<in> set (ob_rows b) \<Longrightarrow> or_state r \<noteq> Delivered \<Longrightarrow> r \<in> set (ob_rows (pruned b))"
  using old_delivered [of b] by (auto simp: pruned_def delivered_rows_def)

lemma mapped_stays:
  assumes "r \<in> set (ob_rows b)" and "follows 0 r (apply_rows flt key f rs r)"
  shows "stays 0 r (b\<lparr>ob_rows := map (apply_rows flt key f rs) (ob_rows b)\<rparr>)"
  using assms by (auto simp: stays_def)

lemma leasing_follows: "or_state r \<noteq> Delivered \<Longrightarrow> follows 0 r (apply_rows flt key release_lease rs r)"
  "or_state r \<noteq> Delivered \<Longrightarrow> follows 0 r (apply_rows flt key (take_lease who until) rs r)"
  by (simp_all add: follows_def apply_rows_def resign_def release_lease_def take_lease_def same_content_def)

lemma claimed_stays:
  assumes "r \<in> set (ob_rows b)" and "or_state r \<noteq> Delivered"
  shows "stays 0 r (claimed flt who now n lease b)"
proof -
  obtain s where s: "s \<in> set (ob_rows (released flt now (b\<lparr>ob_seen := True\<rparr>)))" "follows 0 r s"
    using mapped_stays [of r "b\<lparr>ob_seen := True\<rparr>"] leasing_follows(1) [OF assms(2)] assms(1)
    by (fastforce simp: stays_def released_def)
  have "stays 0 s (claimed flt who now n lease b)"
    unfolding claimed_def leased_def using s by (intro mapped_stays leasing_follows) (auto simp: follows_def)
  then show ?thesis
    using follows_trans [OF s(2)] by (fastforce simp: stays_def)
qed

definition finishes :: "string \<Rightarrow> outbox_event \<Rightarrow> bool" where
  "finishes i e \<longleftrightarrow> e = ObComplete i \<or> (\<exists>owner. e = ObAcknowledge i owner)"

text \<open>A retry that is accepted.\<close>

definition retried :: "(rat \<Rightarrow> string) \<Rightarrow> string \<Rightarrow> outbox \<Rightarrow> outbox_event \<Rightarrow> bool" where
  "retried flt i b e = (case e of
     ObRetry j owner err now \<Rightarrow> j = i \<and> snd (retry flt j owner err now b) = Inr ()
   | _ \<Rightarrow> False)"

fun retries_in :: "(rat \<Rightarrow> string) \<Rightarrow> string \<Rightarrow> outbox \<Rightarrow> outbox_event list \<Rightarrow> nat" where
  "retries_in flt i b [] = 0"
| "retries_in flt i b (e # es) = (if retried flt i b e then 1 else 0) + retries_in flt i (outbox_step flt b e) es"

lemma unique_row: "table_inv flt b \<Longrightarrow> r \<in> set (ob_rows b) \<Longrightarrow> s \<in> set (ob_rows b) \<Longrightarrow> or_id r = or_id s \<Longrightarrow> r = s"
  by (auto simp: table_inv_def distinct_map inj_on_def)

lemma find_present: "table_inv flt b \<Longrightarrow> r \<in> set (ob_rows b) \<Longrightarrow> find_row (or_id r) b = Some r"
proof -
  assume t: "table_inv flt b" and r: "r \<in> set (ob_rows b)"
  then obtain s where s: "find_row (or_id r) b = Some s"
    by (cases "find_row (or_id r) b") (auto simp: find_row_None)
  with find_row_Some [OF s] unique_row [OF t r, of s] show ?thesis by metis
qed

lemma with_change_other: "s \<in> set (ob_rows b) \<Longrightarrow> s \<noteq> r \<Longrightarrow> s \<in> set (ob_rows (with_change flt f r b))"
  by (force simp: with_change_def apply_rows_def)

lemma with_change_self: "r \<in> set (ob_rows b) \<Longrightarrow> resign flt (ob_key b) (f r) \<in> set (ob_rows (with_change flt f r b))"
  by (force simp: with_change_def apply_rows_def)

lemma step_stays:
  assumes t: "table_inv flt b" and r: "r \<in> set (ob_rows b)" "or_state r \<noteq> Delivered" and e: "\<not> finishes (or_id r) e"
  shows "stays (if retried flt (or_id r) b e then 1 else 0) r (outbox_step flt b e)"
proof (cases "retried flt (or_id r) b e")
  case True
  then obtain owner err now where e: "e = ObRetry (or_id r) owner err now" "snd (retry flt (or_id r) owner err now b) = Inr ()"
    by (auto simp: retried_def split: outbox_event.splits)
  have "snd (retry_row flt (or_id r) owner err now b) = Inr ()"
    using e(2) by (simp add: retry_def transaction_cases)
  then have "outbox_step flt b e = with_change flt (failed_row (ob_max_attempts b) err now) r b"
    using e(1) by (simp add: retry_def transaction_cases retry_trusted [OF t] find_present [OF t r(1)] split: if_splits)
  moreover have "follows 1 r (resign flt (ob_key b) (failed_row (ob_max_attempts b) err now r))"
    by (simp add: follows_def failed_row_def resign_def same_content_def Let_def)
  ultimately show ?thesis
    using True with_change_self [OF r(1)] by (auto simp: stays_def)
next
  case False
  have keep: "stays 0 r b'" if "r \<in> set (ob_rows b')" for b'
    using that follows_refl [OF r(2)] by (auto simp: stays_def)
  show ?thesis
    using step_outcome [OF t, of e]
  proof cases
    case (outcome_same s)
    with False keep r show ?thesis by simp
  next
    case (outcome_grown rs)
    with False keep pruned_stays [of r "b\<lparr>ob_seen := True\<rparr>"] r show ?thesis by (simp add: grown_def Let_def)
  next
    case (outcome_claimed who owner now limit lease)
    with False claimed_stays [OF r] show ?thesis by simp
  next
    case (outcome_delivered s)
    with e have "r \<noteq> s"
      by (auto simp: delivers_def finishes_def split: outbox_event.splits)
    with False outcome_delivered keep pruned_stays with_change_other [OF r(1)] r(2) show ?thesis by simp
  next
    case (outcome_failed s owner err now)
    have "snd (retry flt (or_id s) owner err now b) = Inr ()"
      using outcome_failed find_present [OF t] by (simp add: retry_def transaction_cases retry_trusted [OF t])
    with False outcome_failed have "r \<noteq> s"
      by (auto simp: retried_def)
    with False outcome_failed keep with_change_other [OF r(1)] show ?thesis by simp
  qed
qed

lemma run_stays:
  assumes "outbox_inv flt b" and "r \<in> set (ob_rows b)" and "or_state r \<noteq> Delivered" and "\<forall>e \<in> set es. \<not> finishes (or_id r) e"
  shows "stays (retries_in flt (or_id r) b es) r (foldl (outbox_step flt) b es)"
  using assms
proof (induction es arbitrary: b r)
  case Nil
  then show ?case
    using follows_refl by (auto simp: stays_def)
next
  case (Cons e es)
  let ?n = "if retried flt (or_id r) b e then 1 else 0"
  have "stays ?n r (outbox_step flt b e)"
    using Cons.prems by (intro step_stays) (simp_all add: outbox_inv_def)
  then obtain s where s: "s \<in> set (ob_rows (outbox_step flt b e))" "follows ?n r s"
    unfolding stays_def by blast
  have i: "or_id s = or_id r" "or_state s \<noteq> Delivered"
    using s(2) by (simp_all add: follows_def same_content_def)
  have "stays (retries_in flt (or_id s) (outbox_step flt b e) es) s (foldl (outbox_step flt) (outbox_step flt b e) es)"
    using Cons.prems(4) i by (intro Cons.IH outbox.inv_step Cons.prems(1) s(1)) simp_all
  then obtain u where u: "u \<in> set (ob_rows (foldl (outbox_step flt) (outbox_step flt b e) es))"
      "follows (?n + retries_in flt (or_id r) (outbox_step flt b e) es) r u"
    using follows_trans [OF s(2)] i unfolding stays_def by metis
  then show ?case
    by (auto simp: stays_def)
qed

lemma retried_attempts:
  assumes t: "table_inv flt b" and r: "r \<in> set (ob_rows b)" and e: "retried flt (or_id r) b e"
  shows "or_attempts r < ob_max_attempts b"
proof -
  obtain owner err now where e: "e = ObRetry (or_id r) owner err now" "snd (retry flt (or_id r) owner err now b) = Inr ()"
    using e by (auto simp: retried_def split: outbox_event.splits)
  then have "or_state r = Leased"
    by (simp add: retry_def transaction_cases retry_trusted [OF t] find_present [OF t r] split: if_splits)
  with t r show ?thesis
    by (auto simp: table_inv_def list_all_iff)
qed

lemma attempts_limit: "outbox_inv flt b \<Longrightarrow> ob_max_attempts (outbox_step flt b e) = ob_max_attempts b"
proof -
  assume "outbox_inv flt b"
  then have "outcome flt b e (outbox_step flt b e)"
    by (intro step_outcome) (simp add: outbox_inv_def)
  then show ?thesis
    by cases (simp_all add: limits_kept)
qed

lemma run_retries:
  assumes "outbox_inv flt b" and "r \<in> set (ob_rows b)" and "or_state r \<noteq> Delivered" and "or_attempts r \<le> ob_max_attempts b"
    and "\<forall>e \<in> set es. \<not> finishes (or_id r) e"
  shows "or_attempts r + retries_in flt (or_id r) b es \<le> ob_max_attempts b"
  using assms
proof (induction es arbitrary: b r)
  case (Cons e es)
  let ?n = "if retried flt (or_id r) b e then 1 else 0"
  have t: "table_inv flt b"
    using Cons.prems(1) by (simp add: outbox_inv_def)
  have "stays ?n r (outbox_step flt b e)"
    using Cons.prems by (intro step_stays t) simp_all
  then obtain s where s: "s \<in> set (ob_rows (outbox_step flt b e))" "follows ?n r s"
    unfolding stays_def by blast
  have i: "or_id s = or_id r" "or_state s \<noteq> Delivered" "or_attempts s = or_attempts r + ?n"
    using s(2) by (simp_all add: follows_def same_content_def)
  have "or_attempts s \<le> ob_max_attempts (outbox_step flt b e)"
    using i(3) retried_attempts [OF t Cons.prems(2), of e] Cons.prems(4) by (auto simp: attempts_limit [OF Cons.prems(1)])
  then have "or_attempts s + retries_in flt (or_id s) (outbox_step flt b e) es \<le> ob_max_attempts (outbox_step flt b e)"
    using Cons.prems(5) i by (intro Cons.IH outbox.inv_step Cons.prems(1) s(1)) simp_all
  then show ?case
    using i by (simp add: attempts_limit [OF Cons.prems(1)])
qed simp

lemma opened_inv: "new_outbox flt key items space attempts tombstones [] = Inr b \<Longrightarrow> outbox_inv flt b"
  by (auto simp: new_outbox_def outbox_inv_def table_inv_def open_rows_def delivered_rows_def retained_bytes_def clamp_def split: if_splits)

section \<open>Properties\<close>

text \<open>C23: An outbox opened on an empty table stays within its bounds and authenticated through any run: every
row verifies, no identifier occurs twice, what is not delivered fits \<open>max_items\<close> and \<open>max_bytes\<close>, and the
tombstones fit theirs.\<close>

theorem outbox_runs_bounded:
  assumes "new_outbox flt key items space attempts tombstones [] = Inr b"
  shows "outbox_inv flt (foldl (outbox_step flt) b es)"
  by (rule outbox.inv_run [OF opened_inv [OF assms]])

text \<open>C20: At-least-once: an item that is not delivered is still there, undelivered and with the same payload and
time, after any run in which nobody acknowledges or completes it, with one more attempt for each accepted retry.\<close>

theorem items_survive:
  assumes "outbox_inv flt b" and "r \<in> set (ob_rows b)" and "or_state r \<noteq> Delivered" and "\<forall>e \<in> set es. \<not> finishes (or_id r) e"
  shows "\<exists>s \<in> set (ob_rows (foldl (outbox_step flt) b es)). same_content r s \<and> or_state s \<noteq> Delivered
    \<and> or_attempts s = or_attempts r + retries_in flt (or_id r) b es"
  using run_stays [OF assms] by (simp add: stays_def follows_def)

text \<open>C22: Retrying terminates: in any run in which nobody finishes an open item, its attempts and the retries
that are accepted never exceed \<open>max_attempts\<close>, and the backoff never exceeds an hour.\<close>

theorem retries_bounded:
  assumes "outbox_inv flt b" and "r \<in> set (ob_rows b)" and "or_state r = Pending \<or> or_state r = Leased"
    and "\<forall>e \<in> set es. \<not> finishes (or_id r) e"
  shows "or_attempts r + retries_in flt (or_id r) b es \<le> ob_max_attempts b \<and> backoff n \<le> 3600"
proof -
  have "or_attempts r < ob_max_attempts b" "or_state r \<noteq> Delivered"
    using assms(1-3) by (auto simp: outbox_inv_def table_inv_def list_all_iff)
  then show ?thesis
    using run_retries [OF assms(1,2) _ _ assms(4)] by (simp add: backoff_def)
qed

text \<open>A sample outbox and an item in it.\<close>

definition sample_box :: outbox where
  "sample_box = \<lparr>ob_key = replicate 32 0, ob_max_items = 100, ob_max_bytes = max_item_bytes, ob_max_attempts = 5, ob_tombstones = 100,
     ob_rows = [], ob_seen = True\<rparr>"

definition sample_row :: orow where
  "sample_row = resign (\<lambda>_. []) (replicate 32 0) \<lparr>or_id = ''a'', or_json = ''{}'', or_doc = Some (PDict []),
     or_digest = hex_text (sha256 (utf8 ''{}'')), or_signature = row_signature (\<lambda>_. []) (replicate 32 0) ''a'' ''{}'' 0,
     or_state = Pending, or_attempts = 0, or_next = 0, or_owner = [], or_until = 0, or_error = [],
     or_created = 0, or_size = length (utf8 ''{}''), or_mac = []\<rparr>"

definition filled_box :: outbox where
  "filled_box = sample_box\<lparr>ob_rows := [sample_row]\<rparr>"

lemma sample_opened: "new_outbox (\<lambda>_. []) (replicate 32 0) 0 0 5 0 [] = Inr sample_box"
  by (simp add: new_outbox_def sample_box_def clamp_def max_item_bytes_def)

lemma sample_fields: "or_id sample_row = ''a''" "or_state sample_row = Pending" "or_attempts sample_row = 0"
  by (simp_all add: sample_row_def resign_def)

lemma sample_prepared: "prepare_row (\<lambda>_. []) (replicate 32 0) ''a'' [] (Some 0) = Inr sample_row"
  by (simp add: prepare_row_def sample_row_def py_strip_def py_space_def max_item_bytes_def utf8_def utf8_char_def Let_def)

lemma filled_inv: "outbox_inv (\<lambda>_. []) filled_box"
proof -
  have i: "outbox_inv (\<lambda>_. []) sample_box"
    by (rule opened_inv [OF sample_opened])
  have r: "\<And>r. r \<in> set [sample_row] \<Longrightarrow> fresh_row (\<lambda>_. []) sample_box r"
    using prepared_row [OF sample_prepared] by (simp add: fresh_row_def sample_box_def)
  have "or_size sample_row = 2"
    by (simp add: sample_row_def resign_def utf8_def utf8_char_def)
  then have "outbox_inv (\<lambda>_. []) (sample_box\<lparr>ob_rows := ob_rows sample_box @ [sample_row]\<rparr>)"
    by (intro appended_inv [OF i r]) (simp_all add: sample_box_def open_rows_def retained_bytes_def max_item_bytes_def)
  then show ?thesis
    by (simp add: filled_box_def sample_box_def)
qed

theorem outbox_runs_bounded_witness:
  "outbox_inv (\<lambda>_. []) (foldl (outbox_step (\<lambda>_. [])) sample_box [ObEnqueue ''a'' [] (Some 0), ObTouched, ObClaim ''w'' 1 10 30])"
  by (rule outbox_runs_bounded [OF sample_opened])

theorem items_survive_witness:
  "\<exists>s \<in> set (ob_rows (foldl (outbox_step (\<lambda>_. [])) filled_box [ObClaim ''w'' 1 10 30, ObRetry ''a'' ''w'' ''down'' 2])).
     same_content sample_row s \<and> or_state s \<noteq> Delivered
     \<and> or_attempts s = or_attempts sample_row + retries_in (\<lambda>_. []) (or_id sample_row) filled_box [ObClaim ''w'' 1 10 30, ObRetry ''a'' ''w'' ''down'' 2]"
  by (rule items_survive [OF filled_inv]) (simp_all add: filled_box_def sample_box_def sample_fields finishes_def)

theorem retries_bounded_witness:
  "or_attempts sample_row + retries_in (\<lambda>_. []) (or_id sample_row) filled_box [ObClaim ''w'' 1 10 30, ObRetry ''a'' ''w'' ''down'' 2]
     \<le> ob_max_attempts filled_box \<and> backoff 12 \<le> 3600"
  by (rule retries_bounded [OF filled_inv]) (simp_all add: filled_box_def sample_box_def sample_fields finishes_def)

text \<open>C24: An unseen change of the table that breaks the authentication of a single row stops every operation:
completing, acknowledging, retrying, asking, counting, claiming, and enqueueing one item or a batch, whose arguments
are accepted, raise the integrity error and change nothing; and the table cannot be opened again.\<close>

theorem tampering_stops_everything:
  assumes "\<not> ob_seen b" and "\<not> list_all (verify_row flt (ob_key b)) (ob_rows b)"
  shows "complete_pending flt i b = (b, Inl ObIntegrityError) \<and> acknowledge flt i owner b = (b, Inl ObIntegrityError)
    \<and> retry flt i owner err now b = (b, Inl ObIntegrityError) \<and> is_delivered flt i b = (b, Inl ObIntegrityError)
    \<and> stats flt b = (b, Inl ObIntegrityError)
    \<and> (py_strip owner \<noteq> [] \<longrightarrow> claim flt owner now n lease b = (b, Inl ObIntegrityError))
    \<and> (prepare_row flt (ob_key b) i payload clock = Inr r \<longrightarrow> enqueue flt i payload clock b = (b, Inl ObIntegrityError))
    \<and> (length es \<le> 100 \<and> prepare_batch flt (ob_key b) es [] = Inr rs \<and> rs \<noteq> [] \<longrightarrow> enqueue_many flt es b = (b, Inl ObIntegrityError))
    \<and> (32 \<le> length (ob_key b) \<longrightarrow> new_outbox flt (ob_key b) items space attempts tombstones (ob_rows b) = Inl ObIntegrityError)"
proof -
  have v: "verify_if_changed flt b = (b, Inl ObIntegrityError)"
    using assms by (simp add: verify_if_changed_def)
  have s: "b\<lparr>ob_seen := False\<rparr> = b"
    using assms(1) by (cases b) simp
  have "enqueue_many flt es b = (b, Inl ObIntegrityError)"
    if "length es \<le> 100" "prepare_batch flt (ob_key b) es [] = Inr rs" "rs \<noteq> []"
    using that by (simp add: enqueue_many_def max_batch_def insert_rows_def transaction_def v s assms(1))
  moreover have "new_outbox flt (ob_key b) items space attempts tombstones (ob_rows b) = Inl ObIntegrityError" if "32 \<le> length (ob_key b)"
    using that assms(2) by (simp add: new_outbox_def)
  ultimately show ?thesis
    by (simp add: complete_pending_def acknowledge_def finish_row_def retry_def retry_row_def is_delivered_def stats_def claim_def
        claim_rows_def enqueue_def insert_row_def transaction_def v s assms(1) Let_def)
qed

theorem tampering_stops_everything_witness:
  "acknowledge (\<lambda>_. []) ''a'' ''w'' (filled_box\<lparr>ob_seen := False, ob_rows := [sample_row\<lparr>or_attempts := 101\<rparr>]\<rparr>)
     = (filled_box\<lparr>ob_seen := False, ob_rows := [sample_row\<lparr>or_attempts := 101\<rparr>]\<rparr>, Inl ObIntegrityError)"
proof -
  let ?b = "filled_box\<lparr>ob_seen := False, ob_rows := [sample_row\<lparr>or_attempts := 101\<rparr>]\<rparr>"
  have "\<not> ob_seen ?b" "\<not> list_all (verify_row (\<lambda>_. []) (ob_key ?b)) (ob_rows ?b)"
    by (simp_all add: verify_row_def row_shape_def)
  from tampering_stops_everything [OF this] show ?thesis by blast
qed












end
