(* ===== verification/Event_Bus.thy ===== *)
theory Event_Bus
  imports Canonical_Json Sha256
begin

text \<open>
  The publish and subscribe bus, \<^verbatim>\<open>src/angerona/core/eventbus.py\<close>: signing, the general ring and the lane of
  serious events, the revisions by which consumers poll them, the subscribers and their statistics, and
  the receipts that tie an event to a live generation of the mesh.

  A mesh authority is its identity, a number; what its admission gate answers, and what the channel of a
  producer handle carries, come with each operation.  A subscriber is its identity; \<open>run_sub\<close> says whether a
  callback fails and how long it takes.  Callbacks do not publish, so no delivery is under way between two
  operations.  The key file is outside the model.
\<close>

section \<open>Events\<close>

datatype severity = Info | Low | Medium | High | Critical

fun severity_rank :: "severity \<Rightarrow> nat" where
  "severity_rank Info = 0"
| "severity_rank Low = 1"
| "severity_rank Medium = 2"
| "severity_rank High = 3"
| "severity_rank Critical = 4"

instantiation severity :: linorder
begin

definition less_eq_severity :: "severity \<Rightarrow> severity \<Rightarrow> bool" where
  "less_eq_severity a b \<longleftrightarrow> severity_rank a \<le> severity_rank b"

definition less_severity :: "severity \<Rightarrow> severity \<Rightarrow> bool" where
  "less_severity a b \<longleftrightarrow> severity_rank a < severity_rank b"

instance
proof
  fix a b :: severity
  assume "a \<le> b" and "b \<le> a"
  then show "a = b"
    by (cases a; cases b) (simp_all add: less_eq_severity_def)
qed (auto simp: less_eq_severity_def less_severity_def)

end

record event =
  ev_module :: string
  ev_message :: string
  ev_severity :: severity
  ev_ts :: rat
  ev_details :: "(string, pyval) dict"
  ev_hmac :: string
  ev_mesh_sig :: string
  ev_mesh_peer :: string

text \<open>\<open>bool(x)\<close>.\<close>

fun truthy :: "pyval \<Rightarrow> bool" where
  "truthy PNone = False"
| "truthy (PBool b) = b"
| "truthy (PInt i) = (i \<noteq> 0)"
| "truthy (PFloat f) = (f \<noteq> Fin 0)"
| "truthy (PStr s) = (s \<noteq> [])"
| "truthy (PList vs) = (vs \<noteq> [])"
| "truthy (PDict d) = (d \<noteq> [])"

definition remote_observe_only :: "event \<Rightarrow> bool" where
  "remote_observe_only e \<longleftrightarrow>
     dict_get (ev_details e) ''response_authority'' = Some (PStr ''remote-observe-only'')
   \<or> dict_get (ev_details e) ''response_authority'' = Some (PStr ''unattributed-advisory'')
   \<or> (case dict_get (ev_details e) ''node_origin'' of None \<Rightarrow> False | Some v \<Rightarrow> truthy v)"

definition event_document :: "event \<Rightarrow> pyval" where
  "event_document e = PDict [(''details'', PDict (ev_details e)), (''message'', PStr (ev_message e)), (''module'', PStr (ev_module e)),
     (''severity'', PInt (int (severity_rank (ev_severity e)))), (''ts'', PFloat (Fin (ev_ts e)))]"

text \<open>\<open>BusAuthority.sign\<close> prints non-finite numbers; \<open>_event_payload\<close> refuses them and long payloads.\<close>

definition sign_event :: "(rat \<Rightarrow> string) \<Rightarrow> bytes \<Rightarrow> event \<Rightarrow> string" where
  "sign_event flt key e = hex_text (hmac_sha256 key (utf8 (json_text False flt (json_sorted (event_document e)))))"

definition event_payload :: "(rat \<Rightarrow> string) \<Rightarrow> event \<Rightarrow> bytes option" where
  "event_payload flt e = (case canonical False flt (event_document e) of
     None \<Rightarrow> None
   | Some bs \<Rightarrow> if 256 * 1024 < length bs then None else Some bs)"

definition receipt_key :: "(rat \<Rightarrow> string) \<Rightarrow> event \<Rightarrow> string option" where
  "receipt_key flt e = map_option (\<lambda>bs. hex_text (sha256 (bs @ [0] @ utf8 (ev_mesh_sig e) @ [0] @ utf8 (ev_mesh_peer e))))
     (event_payload flt e)"

section \<open>The bus\<close>

datatype bus_error = BusValueError | BusTypeError | BusRuntimeError | BusMeshError

record sub_stats =
  ss_name :: string
  ss_budget :: rat
  ss_deliveries :: nat
  ss_failures :: nat
  ss_violations :: nat
  ss_last :: rat
  ss_max :: rat
  ss_total :: rat

record bus =
  bs_size :: nat
  bs_ring :: "event list"
  bs_lane_size :: nat
  bs_lane :: "(nat \<times> nat \<times> event) list"
  bs_key :: "bytes option"
  bs_required :: bool
  bs_mesh :: "nat option"
  bs_control :: "nat option"
  bs_fresh :: nat
  bs_receipts :: "(string, bool \<times> nat) dict"
  bs_generation :: nat
  bs_active :: bool
  bs_revision :: nat
  bs_lane_revision :: nat
  bs_subs :: "nat list"
  bs_stats :: "(nat, sub_stats) dict"
  bs_calls :: "(nat \<times> event) list"

type_synonym 'a bus_op = "(bus, bus_error, 'a) oper"

definition new_bus :: "nat \<Rightarrow> int option \<Rightarrow> bus" where
  "new_bus capacity lane_size = \<lparr>bs_size = capacity, bs_ring = [],
     bs_lane_size = nat (max 1 (case lane_size of None \<Rightarrow> max 64 (int capacity) | Some n \<Rightarrow> n)), bs_lane = [], bs_key = None,
     bs_required = False, bs_mesh = None, bs_control = None, bs_fresh = 0, bs_receipts = [], bs_generation = 0, bs_active = False,
     bs_revision = 0, bs_lane_revision = 0, bs_subs = [], bs_stats = [], bs_calls = []\<rparr>"

text \<open>\<open>deque(maxlen=n).append\<close>.\<close>

definition deque_append :: "nat \<Rightarrow> 'a list \<Rightarrow> 'a \<Rightarrow> 'a list" where
  "deque_append n xs x = (let ys = xs @ [x] in drop (length ys - n) ys)"

definition arm :: "bytes \<Rightarrow> bus \<Rightarrow> bus" where
  "arm key b = b\<lparr>bs_key := Some key\<rparr>"

text \<open>\<open>hmac.compare_digest\<close> on strings raises unless both are ASCII.\<close>

definition compare_digest :: "string \<Rightarrow> string \<Rightarrow> bus_error + bool" where
  "compare_digest s t =
     (if list_all (\<lambda>c. (of_char c :: nat) < 128) s \<and> list_all (\<lambda>c. (of_char c :: nat) < 128) t then Inr (s = t) else Inl BusTypeError)"

definition verify_archived :: "(rat \<Rightarrow> string) \<Rightarrow> bus \<Rightarrow> event \<Rightarrow> bus_error + bool" where
  "verify_archived flt b e = (case bs_key b of
     None \<Rightarrow> Inr True
   | Some key \<Rightarrow> if ev_hmac e = [] then Inr False else compare_digest (ev_hmac e) (sign_event flt key e))"

text \<open>The receipt of an event is live for the control lane, or for the present generation of an active mesh.\<close>

definition live_receipt :: "bool \<Rightarrow> bus \<Rightarrow> bool \<times> nat \<Rightarrow> bool" where
  "live_receipt gate b r = (case r of (control, generation) \<Rightarrow> control \<or> bs_active b \<and> generation = bs_generation b \<and> gate)"

definition verify_event :: "(rat \<Rightarrow> string) \<Rightarrow> bool \<Rightarrow> bus \<Rightarrow> event \<Rightarrow> bus_error + bool" where
  "verify_event flt gate b e =
     (if bs_required b
      then case receipt_key flt e of
        None \<Rightarrow> Inr False
      | Some k \<Rightarrow> (case dict_get (bs_receipts b) k of
          None \<Rightarrow> Inr False
        | Some r \<Rightarrow>
            if remote_observe_only e \<or> \<not> live_receipt gate b r then Inr False
            else case verify_archived flt b e of Inl _ \<Rightarrow> Inr False | Inr v \<Rightarrow> Inr v)
      else verify_archived flt b e)"

section \<open>Generations of the mesh\<close>

definition require_mesh :: "bus \<Rightarrow> bus" where
  "require_mesh b = (case bs_control b of
     None \<Rightarrow> b\<lparr>bs_required := True, bs_control := Some (bs_fresh b), bs_fresh := Suc (bs_fresh b)\<rparr>
   | Some _ \<Rightarrow> b\<lparr>bs_required := True\<rparr>)"

definition control_receipts :: "bus \<Rightarrow> (string, bool \<times> nat) dict" where
  "control_receipts b = filter (\<lambda>(_, control, _). control) (bs_receipts b)"

definition activate_mesh :: "bus \<Rightarrow> bus" where
  "activate_mesh b0 = (let b = require_mesh b0 in
     b\<lparr>bs_generation := Suc (bs_generation b), bs_receipts := control_receipts b, bs_mesh := Some (bs_fresh b),
       bs_fresh := Suc (bs_fresh b), bs_active := True\<rparr>)"

definition freeze_mesh :: "bus \<Rightarrow> bus" where
  "freeze_mesh b = b\<lparr>bs_active := False, bs_generation := Suc (bs_generation b), bs_receipts := control_receipts b\<rparr>"

definition close_mesh :: "bus \<Rightarrow> bus" where
  "close_mesh b = b\<lparr>bs_active := False, bs_generation := Suc (bs_generation b), bs_receipts := []\<rparr>"

section \<open>Publishing\<close>

text \<open>What a delivery finds outside the bus: the admission gate, and each callback's failure and duration.\<close>

record bus_env =
  be_gate :: bool
  be_call :: "nat \<Rightarrow> event \<Rightarrow> bool \<times> rat"

definition signed :: "(rat \<Rightarrow> string) \<Rightarrow> bus \<Rightarrow> event \<Rightarrow> event" where
  "signed flt b e = (case bs_key b of None \<Rightarrow> e | Some key \<Rightarrow> e\<lparr>ev_hmac := sign_event flt key e\<rparr>)"

definition max_mesh_receipts :: nat where
  "max_mesh_receipts = 8192"

text \<open>Admission of a mesh event: control lane or not, generation and authority of its handle.\<close>

definition admit_receipt :: "(rat \<Rightarrow> string) \<Rightarrow> bool \<Rightarrow> (bool \<times> nat \<times> nat) option \<Rightarrow> event \<Rightarrow> unit bus_op" where
  "admit_receipt flt gate admitted e b = (case admitted of
     None \<Rightarrow> (b, Inr ())
   | Some (control, generation, authority) \<Rightarrow>
       if Some authority \<noteq> (if control then bs_control b else bs_mesh b)
         \<or> \<not> control \<and> (\<not> bs_active b \<or> generation \<noteq> bs_generation b \<or> \<not> gate)
       then (b, Inl BusRuntimeError)
       else case receipt_key flt e of
         None \<Rightarrow> (b, Inl BusValueError)
       | Some k \<Rightarrow>
           (let rs = dict_set k (control, generation) (bs_receipts b) in
            (b\<lparr>bs_receipts := drop (length rs - max_mesh_receipts) rs\<rparr>, Inr ())))"

text \<open>Both rings and their revisions.\<close>

definition retain_event :: "event \<Rightarrow> bus \<Rightarrow> bus" where
  "retain_event e b =
     (let b1 = b\<lparr>bs_ring := deque_append (bs_size b) (bs_ring b) e, bs_revision := Suc (bs_revision b)\<rparr> in
      if High \<le> ev_severity e
      then b1\<lparr>bs_lane_revision := Suc (bs_lane_revision b1),
        bs_lane := deque_append (bs_lane_size b1) (bs_lane b1) (bs_revision b1, Suc (bs_lane_revision b1), e)\<rparr>
      else b1)"

definition count_call :: "bool \<Rightarrow> rat \<Rightarrow> sub_stats \<Rightarrow> sub_stats" where
  "count_call failed ms s = s\<lparr>ss_deliveries := Suc (ss_deliveries s), ss_failures := ss_failures s + (if failed then 1 else 0),
     ss_last := ms, ss_max := max (ss_max s) ms, ss_total := ss_total s + ms,
     ss_violations := ss_violations s + (if ss_budget s < ms then 1 else 0)\<rparr>"

definition call_sub :: "bus_env \<Rightarrow> event \<Rightarrow> bus \<Rightarrow> nat \<Rightarrow> bus" where
  "call_sub ev e b i =
     (let (failed, ms) = be_call ev i e; b1 = b\<lparr>bs_calls := bs_calls b @ [(i, e)]\<rparr> in
      case dict_get (bs_stats b1) i of
        None \<Rightarrow> b1
      | Some s \<Rightarrow> b1\<lparr>bs_stats := dict_set i (count_call failed ms s) (bs_stats b1)\<rparr>)"

definition deliver_event :: "(rat \<Rightarrow> string) \<Rightarrow> bus_env \<Rightarrow> (bool \<times> nat \<times> nat) option \<Rightarrow> event \<Rightarrow> unit bus_op" where
  "deliver_event flt ev admitted e0 b0 =
     (let e = signed flt b0 e0 in
      op_then (admit_receipt flt (be_gate ev) admitted e) (\<lambda>_ b.
        let b1 = retain_event e b in (foldl (call_sub ev e) b1 (bs_subs b1), Inr ())) b0)"

text \<open>With a mesh, a publication without a handle becomes an advisory of an unattributed producer.\<close>

definition advisory_details :: "event \<Rightarrow> (string, pyval) dict" where
  "advisory_details e =
     (let d = (case json_sorted (PDict (ev_details e)) of PDict d \<Rightarrow> d | _ \<Rightarrow> []) in
      foldl (\<lambda>d (k, v). dict_set k v d) (dict_del ''response_contract'' d)
        [(''response_authorized'', PBool False), (''response_authority'', PStr ''unattributed-advisory''),
         (''active_attack'', PBool False), (''disposition'', PStr ''observation''),
         (''unattributed_module'', PStr (take 160 (ev_module e)))])"

definition advisory :: "event \<Rightarrow> event" where
  "advisory e = e\<lparr>ev_module := ''Unattributed local producer'', ev_details := advisory_details e,
     ev_mesh_sig := [], ev_mesh_peer := [], ev_hmac := []\<rparr>"

definition publish :: "(rat \<Rightarrow> string) \<Rightarrow> bus_env \<Rightarrow> event \<Rightarrow> unit bus_op" where
  "publish flt ev e b =
     (if bs_required b
      then case event_payload flt e of None \<Rightarrow> (b, Inl BusValueError) | Some _ \<Rightarrow> deliver_event flt ev None (advisory e) b
      else deliver_event flt ev None e b)"

text \<open>A producer handle: its module, lane, generation, authority and peer.\<close>

record handle =
  hd_name :: string
  hd_control :: bool
  hd_generation :: nat
  hd_authority :: nat
  hd_peer :: string

definition enroll_publisher :: "string \<Rightarrow> bool \<Rightarrow> string \<Rightarrow> handle bus_op" where
  "enroll_publisher name control peer b = (case (if control then bs_control b else bs_mesh b) of
     None \<Rightarrow> (b, Inl BusRuntimeError)
   | Some authority \<Rightarrow> (b, Inr \<lparr>hd_name = name, hd_control = control, hd_generation = bs_generation b,
       hd_authority = authority, hd_peer = peer\<rparr>))"

text \<open>\<open>sealed\<close> is the signature of the envelope when the channel carries the payload, \<open>None\<close> when it refuses.\<close>

definition mesh_publish :: "(rat \<Rightarrow> string) \<Rightarrow> bus_env \<Rightarrow> handle \<Rightarrow> string option \<Rightarrow> event \<Rightarrow> unit bus_op" where
  "mesh_publish flt ev h sealed e b =
     (if ev_module e \<noteq> hd_name h then (b, Inl BusValueError)
      else case event_payload flt e of
        None \<Rightarrow> (b, Inl BusValueError)
      | Some _ \<Rightarrow> (case sealed of
          None \<Rightarrow> (b, Inl BusMeshError)
        | Some sig \<Rightarrow> deliver_event flt ev (Some (hd_control h, hd_generation h, hd_authority h))
            (e\<lparr>ev_details := (case json_sorted (PDict (ev_details e)) of PDict d \<Rightarrow> d | _ \<Rightarrow> []),
               ev_mesh_sig := sig, ev_mesh_peer := hd_peer h, ev_hmac := []\<rparr>) b))"

section \<open>Subscribers\<close>

definition subscribe :: "nat \<Rightarrow> string \<Rightarrow> rat \<Rightarrow> unit bus_op" where
  "subscribe i name budget b =
     (if \<not> (1 / 10 \<le> budget \<and> budget \<le> 60000) then (b, Inl BusValueError)
      else if i \<in> set (bs_subs b) then (b, Inr ())
      else (b\<lparr>bs_subs := bs_subs b @ [i], bs_stats := dict_set i \<lparr>ss_name = take 200 name, ss_budget = budget, ss_deliveries = 0,
        ss_failures = 0, ss_violations = 0, ss_last = 0, ss_max = 0, ss_total = 0\<rparr> (bs_stats b)\<rparr>, Inr ()))"

definition unsubscribe :: "nat \<Rightarrow> bus \<Rightarrow> bus" where
  "unsubscribe i b = (if i \<in> set (bs_subs b)
     then b\<lparr>bs_subs := remove1 i (bs_subs b), bs_stats := dict_del i (bs_stats b)\<rparr> else b)"

definition subscriber_metrics :: "bus \<Rightarrow> sub_stats list" where
  "subscriber_metrics b = sort_key (\<lambda>s. py_casefold (ss_name s)) (map snd (bs_stats b))"

section \<open>Polling\<close>

definition recent :: "int \<Rightarrow> bus \<Rightarrow> event list" where
  "recent limit b = (if 0 < limit then take (nat limit) (rev (bs_ring b)) else rev (drop (nat (- limit)) (bs_ring b)))"

text \<open>A cursor that is no number reads as \<open>-1\<close>.\<close>

definition cursor :: "int option \<Rightarrow> int" where
  "cursor r = (case r of None \<Rightarrow> - 1 | Some n \<Rightarrow> n)"

definition lane_records_since :: "int option \<Rightarrow> bus \<Rightarrow> nat \<times> (nat \<times> event) list \<times> bool" where
  "lane_records_since r b =
     (let prev = cursor r; current = bs_lane_revision b; records = map snd (rev (bs_lane b)) in
      if prev = int current then (current, [], False)
      else if prev < 0 \<or> int current < prev then (current, records, True)
      else let delta = current - nat prev in (current, take (min delta (length records)) records, length records < delta))"

definition lane_since :: "int option \<Rightarrow> bus \<Rightarrow> nat \<times> event list \<times> bool" where
  "lane_since r b = (case lane_records_since r b of (current, records, overflow) \<Rightarrow> (current, map snd records, overflow))"

definition ring_records :: "bus \<Rightarrow> (nat \<times> event) list" where
  "ring_records b = map (\<lambda>(offset, e). (bs_revision b - offset, e)) (enumerate 0 (rev (bs_ring b)))"

text \<open>The general records completed by the lane, newest first.\<close>

definition dict_setdefault :: "'k \<Rightarrow> 'v \<Rightarrow> ('k, 'v) dict \<Rightarrow> ('k, 'v) dict" where
  "dict_setdefault k v d = (case dict_get d k of None \<Rightarrow> d @ [(k, v)] | Some _ \<Rightarrow> d)"

definition merged_records :: "int \<Rightarrow> bus \<Rightarrow> (nat \<times> event) list" where
  "merged_records prev b =
     (let d = foldl (\<lambda>d (g, _, e). if prev < int g then dict_setdefault g e d else d)
        (filter (\<lambda>(g, e). prev < int g) (ring_records b)) (bs_lane b)
      in map (\<lambda>g. (g, the (dict_get d g))) (rev (sort (dict_keys d))))"

definition records_since :: "int option \<Rightarrow> bus \<Rightarrow> nat \<times> (nat \<times> event) list \<times> bool" where
  "records_since r b =
     (let prev = cursor r; current = bs_revision b in
      if prev = int current then (current, [], False)
      else if prev < 0 \<or> int current < prev then (current, merged_records (- 1) b, True)
      else let delta = current - nat prev; retained = length (bs_ring b) in
        if delta \<le> retained then (current, take (min delta retained) (ring_records b), False)
        else (current, merged_records prev b, True))"

definition recent_since :: "int option \<Rightarrow> bus \<Rightarrow> nat \<times> event list \<times> bool" where
  "recent_since r b = (case records_since r b of (current, records, overflow) \<Rightarrow> (current, map snd records, overflow))"

section \<open>The log of published events\<close>

text \<open>The abstract bus is the list of all delivered events; an event's revision is its position in it.\<close>

definition serious :: "event list \<Rightarrow> (nat \<times> nat \<times> event) list" where
  "serious h = map (\<lambda>(k, g, e). (g, Suc k, e)) (enumerate 0 (filter (\<lambda>(g, e). High \<le> ev_severity e) (enumerate 1 h)))"

definition follows_log :: "event list \<Rightarrow> bus \<Rightarrow> bool" where
  "follows_log h b \<longleftrightarrow> bs_revision b = length h \<and> bs_ring b = newest (bs_size b) h
     \<and> bs_lane_revision b = length (serious h) \<and> bs_lane b = newest (bs_lane_size b) (serious h)"

lemma deque_newest: "deque_append n (newest n xs) x = newest n (xs @ [x])"
  using newest_append [of n xs "[x]"] by (simp add: deque_append_def newest_def Let_def)

lemma serious_append:
  "serious (h @ hs) = serious h @ map (\<lambda>(k, g, e). (g, Suc k, e))
     (enumerate (length (serious h)) (filter (\<lambda>(g, e). High \<le> ev_severity e) (enumerate (Suc (length h)) hs)))"
  by (simp add: serious_def enumerate_append_eq)

lemma serious_snoc:
  "serious (h @ [e]) = serious h @ (if High \<le> ev_severity e then [(Suc (length h), Suc (length (serious h)), e)] else [])"
  by (simp add: serious_append)

lemma follows_retain: "follows_log h b \<Longrightarrow> follows_log (h @ [e]) (retain_event e b)"
  by (simp add: follows_log_def retain_event_def Let_def serious_snoc deque_newest)

text \<open>Rings and revisions are all that a log speaks about.\<close>

definition same_rings :: "bus \<Rightarrow> bus \<Rightarrow> bool" where
  "same_rings b c \<longleftrightarrow> bs_size c = bs_size b \<and> bs_ring c = bs_ring b \<and> bs_lane_size c = bs_lane_size b \<and> bs_lane c = bs_lane b
     \<and> bs_revision c = bs_revision b \<and> bs_lane_revision c = bs_lane_revision b"

lemma same_rings_log: "same_rings b c \<Longrightarrow> follows_log h c = follows_log h b"
  by (simp add: same_rings_def follows_log_def)

lemma same_rings_refl [simp]: "same_rings b b"
  by (simp add: same_rings_def)

lemma same_rings_trans: "same_rings b c \<Longrightarrow> same_rings c d \<Longrightarrow> same_rings b d"
  by (simp add: same_rings_def)

lemma call_sub_rings: "same_rings b (call_sub ev e b i)"
  by (simp add: same_rings_def call_sub_def Let_def split: prod.split option.split)

lemma calls_rings: "same_rings b (foldl (call_sub ev e) b is)"
proof (induction "is" arbitrary: b)
  case (Cons i "is")
  show ?case
    using same_rings_trans [OF call_sub_rings Cons.IH] by simp
qed simp

lemma admit_rings: "same_rings b (fst (admit_receipt flt gate admitted e b))"
  by (simp add: admit_receipt_def same_rings_def Let_def split: option.split)

lemma deliver_Inl: "snd (deliver_event flt ev admitted e b) = Inl x \<Longrightarrow> fst (deliver_event flt ev admitted e b) = b"
  by (auto simp: deliver_event_def op_then_def Let_def admit_receipt_def split: option.splits prod.splits sum.splits if_splits)

lemma deliver_log:
  assumes "follows_log h b" and "snd (deliver_event flt ev admitted e b) = Inr ()"
  shows "follows_log (h @ [signed flt b e]) (fst (deliver_event flt ev admitted e b))"
proof -
  let ?e = "signed flt b e"
  obtain b1 r where a: "admit_receipt flt (be_gate ev) admitted ?e b = (b1, r)"
    by fastforce
  with assms(2) have r: "r = Inr ()"
    by (cases r) (simp_all add: deliver_event_def op_then_def Let_def)
  have "same_rings b b1"
    using admit_rings [of b flt "be_gate ev" admitted ?e] a by simp
  then have "follows_log h b1"
    using assms(1) same_rings_log by blast
  note follows_retain [OF this, of ?e]
  then show ?thesis
    using a r same_rings_log [OF calls_rings]
    by (simp add: deliver_event_def op_then_def Let_def)
qed

section \<open>Runs of the bus\<close>

datatype bus_event =
  BusArm bytes
| BusPublish bus_env event
| BusMesh bus_env handle "string option" event
| BusRequire
| BusActivate
| BusFreeze
| BusClose
| BusSubscribe nat string rat
| BusUnsubscribe nat

fun bus_step :: "(rat \<Rightarrow> string) \<Rightarrow> bus \<Rightarrow> bus_event \<Rightarrow> bus" where
  "bus_step flt b (BusArm key) = arm key b"
| "bus_step flt b (BusPublish ev e) = fst (publish flt ev e b)"
| "bus_step flt b (BusMesh ev h sealed e) = fst (mesh_publish flt ev h sealed e b)"
| "bus_step flt b BusRequire = require_mesh b"
| "bus_step flt b BusActivate = activate_mesh b"
| "bus_step flt b BusFreeze = freeze_mesh b"
| "bus_step flt b BusClose = close_mesh b"
| "bus_step flt b (BusSubscribe i name budget) = fst (subscribe i name budget b)"
| "bus_step flt b (BusUnsubscribe i) = unsubscribe i b"

text \<open>The event that a publication put into the rings, if it was accepted.\<close>

definition carried :: "handle \<Rightarrow> string option \<Rightarrow> event \<Rightarrow> event" where
  "carried h sealed e = e\<lparr>ev_details := (case json_sorted (PDict (ev_details e)) of PDict d \<Rightarrow> d | _ \<Rightarrow> []),
     ev_mesh_sig := the sealed, ev_mesh_peer := hd_peer h, ev_hmac := []\<rparr>"

fun delivered_by :: "(rat \<Rightarrow> string) \<Rightarrow> bus \<Rightarrow> bus_event \<Rightarrow> event list" where
  "delivered_by flt b (BusPublish ev e) =
     (if snd (publish flt ev e b) = Inr () then [signed flt b (if bs_required b then advisory e else e)] else [])"
| "delivered_by flt b (BusMesh ev h sealed e) =
     (if snd (mesh_publish flt ev h sealed e b) = Inr () then [signed flt b (carried h sealed e)] else [])"
| "delivered_by flt b _ = []"

fun bus_log :: "(rat \<Rightarrow> string) \<Rightarrow> bus \<Rightarrow> bus_event list \<Rightarrow> event list" where
  "bus_log flt b [] = []"
| "bus_log flt b (x # xs) = delivered_by flt b x @ bus_log flt (bus_step flt b x) xs"

lemma publish_deliver:
  "publish flt ev e b = (b, Inl BusValueError) \<or> publish flt ev e b = deliver_event flt ev None (if bs_required b then advisory e else e) b"
  by (auto simp: publish_def split: option.split)

lemma mesh_deliver:
  "(\<exists>x. mesh_publish flt ev h sealed e b = (b, Inl x))
   \<or> mesh_publish flt ev h sealed e b = deliver_event flt ev (Some (hd_control h, hd_generation h, hd_authority h)) (carried h sealed e) b"
  by (auto simp: mesh_publish_def carried_def split: option.split)

lemma unit_result: "snd f = Inr () \<or> (\<exists>x. snd f = Inl x)"
  by (cases "snd f") auto

lemma mesh_rings: "same_rings b (require_mesh b)" "same_rings b (activate_mesh b)" "same_rings b (freeze_mesh b)" "same_rings b (close_mesh b)"
  "same_rings b (arm key b)" "same_rings b (fst (subscribe i name budget b))" "same_rings b (unsubscribe i b)"
  by (simp_all add: same_rings_def require_mesh_def activate_mesh_def freeze_mesh_def close_mesh_def arm_def subscribe_def unsubscribe_def
      Let_def split: option.split)

lemma step_log:
  assumes "follows_log h b"
  shows "follows_log (h @ delivered_by flt b x) (bus_step flt b x)"
proof (cases x)
  case (BusPublish ev e)
  from publish_deliver [of flt ev e b] show ?thesis
  proof
    assume p: "publish flt ev e b = deliver_event flt ev None (if bs_required b then advisory e else e) b"
    show ?thesis
      using BusPublish p deliver_log [OF assms] deliver_Inl unit_result [of "publish flt ev e b"] assms by (auto simp: if_distrib)
  qed (use BusPublish assms in simp)
next
  case (BusMesh ev hd sealed e)
  from mesh_deliver [of flt ev hd sealed e b] show ?thesis
  proof
    assume p: "mesh_publish flt ev hd sealed e b = deliver_event flt ev (Some (hd_control hd, hd_generation hd, hd_authority hd)) (carried hd sealed e) b"
    show ?thesis
      using BusMesh p deliver_log [OF assms] deliver_Inl unit_result [of "mesh_publish flt ev hd sealed e b"] assms by auto
  qed (use BusMesh assms in auto)
qed (use assms same_rings_log [OF mesh_rings(1)] same_rings_log [OF mesh_rings(2)] same_rings_log [OF mesh_rings(3)]
    same_rings_log [OF mesh_rings(4)] same_rings_log [OF mesh_rings(5)] same_rings_log [OF mesh_rings(6)] same_rings_log [OF mesh_rings(7)] in simp_all)

lemma run_log: "follows_log h b \<Longrightarrow> follows_log (h @ bus_log flt b xs) (foldl (bus_step flt) b xs)"
proof (induction xs arbitrary: h b)
  case (Cons x xs)
  from Cons.IH [OF step_log [OF Cons.prems]] show ?case by simp
qed simp

lemma new_log: "follows_log [] (new_bus n m)"
  by (simp add: follows_log_def new_bus_def serious_def)

section \<open>What a poll returns\<close>

lemma enumerate_rev:
  "length xs \<le> N \<Longrightarrow> map (\<lambda>(offset, e). (N - offset, e)) (enumerate 0 (rev xs)) = rev (enumerate (Suc N - length xs) xs)"
proof (rule nth_equalityI)
  fix i
  assume l: "length xs \<le> N" and "i < length (map (\<lambda>(offset, e). (N - offset, e)) (enumerate 0 (rev xs)))"
  then have i: "i < length xs"
    by simp
  then have "rev (enumerate (Suc N - length xs) xs) ! i = (Suc N - length xs + (length xs - Suc i), xs ! (length xs - Suc i))"
    by (simp add: rev_nth nth_enumerate_eq)
  with i l show "map (\<lambda>(offset, e). (N - offset, e)) (enumerate 0 (rev xs)) ! i = rev (enumerate (Suc N - length xs) xs) ! i"
    by (simp add: nth_enumerate_eq rev_nth)
qed simp

lemma drop_enumerate: "drop k (enumerate n xs) = enumerate (n + k) (drop k xs)"
  by (rule nth_equalityI) (simp_all add: nth_enumerate_eq)

lemma filter_enumerate: "filter (\<lambda>(g, e). k < g) (enumerate (Suc n) xs) = drop (k - n) (enumerate (Suc n) xs)"
proof (induction xs arbitrary: n)
  case (Cons x xs)
  show ?case
  proof (cases "k < Suc n")
    case True
    then have "filter (\<lambda>(g, e). k < g) (enumerate (Suc (Suc n)) xs) = enumerate (Suc (Suc n)) xs"
      using Cons.IH [of "Suc n"] by simp
    with True show ?thesis by simp
  next
    case False
    then have "k - n = Suc (k - Suc n)"
      by simp
    with False Cons.IH [of "Suc n"] show ?thesis by simp
  qed
qed simp

lemma ring_records_log:
  assumes "follows_log h b"
  shows "ring_records b = rev (drop (length h - bs_size b) (enumerate 1 h))"
proof -
  have "length (newest (bs_size b) h) \<le> length h"
    by simp
  from enumerate_rev [OF this] show ?thesis
    using assms by (auto simp: ring_records_def follows_log_def newest_def drop_enumerate min_def)
qed

lemma take_rev_drop: "length xs - n = k \<Longrightarrow> n \<le> length xs \<Longrightarrow> take n (rev xs) = rev (drop k xs)"
  by (simp add: take_rev)

text \<open>A sorted association list is determined by what it maps.\<close>

lemma dict_sorted_unique:
  assumes d: "dict_wf d" and L: "sorted (map fst L)" "distinct (map fst L)" and same: "\<And>g e. (g, e) \<in> set d \<longleftrightarrow> (g, e) \<in> set L"
  shows "map (\<lambda>g. (g, the (dict_get d g))) (sort (dict_keys d)) = L"
proof -
  have "set d = set L"
    using same by auto
  then have "set (dict_keys d) = set (map fst L)"
    by simp
  then have "sort (dict_keys d) = map fst L"
    using L d by (intro sorted_distinct_set_unique) (simp_all add: dict_wf_def)
  moreover have "the (dict_get d (fst p)) = snd p" if "p \<in> set L" for p
    using that \<open>set d = set L\<close> dict_get_wf [OF d, of "fst p" "snd p"] by simp
  ultimately show ?thesis
    by (simp add: comp_def map_idI)
qed

lemma setdefault_wf: "dict_wf d \<Longrightarrow> dict_wf (dict_setdefault k v d)"
  by (auto simp: dict_setdefault_def dict_wf_def map_of_eq_None_iff split: option.split)

lemma setdefault_in: "p \<in> set (dict_setdefault k v d) \<longleftrightarrow> p \<in> set d \<or> p = (k, v) \<and> dict_get d k = None"
  by (auto simp: dict_setdefault_def split: option.split)

text \<open>Completing entries that agree with a function of their position.\<close>

lemma completed:
  assumes "dict_wf d" and "\<forall>(g, e) \<in> set d. e = f g" and "\<forall>(g, r, e) \<in> set ls. e = f g"
  shows "dict_wf (foldl (\<lambda>d (g, _, e). if P g then dict_setdefault g e d else d) d ls)
    \<and> (\<forall>g e. (g, e) \<in> set (foldl (\<lambda>d (g, _, e). if P g then dict_setdefault g e d else d) d ls)
        \<longleftrightarrow> e = f g \<and> (g \<in> set (dict_keys d) \<or> P g \<and> g \<in> fst ` set ls))"
  using assms
proof (induction ls arbitrary: d)
  case Nil
  then show ?case by (force simp: split_beta)
next
  case (Cons l ls)
  obtain g r e where l: "l = (g, r, e)"
    by (cases l)
  let ?d = "if P g then dict_setdefault g e d else d"
  have w: "dict_wf ?d"
    using Cons.prems(1) setdefault_wf by auto
  have "\<forall>(g, e) \<in> set ?d. e = f g"
    using Cons.prems(2,3) l by (auto simp: setdefault_in)
  from Cons.IH [OF w this] Cons.prems(3)
  have IH: "dict_wf (foldl (\<lambda>d (g, _, e). if P g then dict_setdefault g e d else d) ?d ls)
    \<and> (\<forall>g e. (g, e) \<in> set (foldl (\<lambda>d (g, _, e). if P g then dict_setdefault g e d else d) ?d ls)
        \<longleftrightarrow> e = f g \<and> (g \<in> set (dict_keys ?d) \<or> P g \<and> g \<in> fst ` set ls))"
    by simp
  have "set (dict_keys ?d) = (if P g then insert g (set (dict_keys d)) else set (dict_keys d))"
    using dict_get_dom [of d g] by (auto simp: dict_setdefault_def split: option.split)
  with IH l show ?case
    by (auto split: if_splits)
qed


lemma in_serious: "(g, r, e) \<in> set (serious h) \<Longrightarrow> 0 < g \<and> g \<le> length h \<and> e = h ! (g - 1) \<and> High \<le> ev_severity e"
  by (auto simp: serious_def in_set_enumerate_eq dest!: nth_mem)

lemma drop_as_filter: "drop k (enumerate 1 h) = filter (\<lambda>(g, e). k < g) (enumerate 1 h)"
  using filter_enumerate [of k 0 h] by simp

lemma in_enumerate: "(g, e) \<in> set (enumerate 1 h) \<longleftrightarrow> 0 < g \<and> g \<le> length h \<and> e = h ! (g - 1)"
  by (auto simp: in_set_enumerate_eq)

text \<open>What is still known of the log: the newest events, and the newest serious ones.\<close>

definition known :: "event list \<Rightarrow> bus \<Rightarrow> nat \<Rightarrow> bool" where
  "known h b g \<longleftrightarrow> length h - bs_size b < g \<or> g \<in> fst ` set (newest (bs_lane_size b) (serious h))"

lemma merged_log:
  assumes l: "follows_log h b"
  shows "merged_records p b = rev (filter (\<lambda>(g, e). p < int g \<and> known h b g) (enumerate 1 h))"
proof -
  let ?L = "filter (\<lambda>(g, e). p < int g \<and> known h b g) (enumerate 1 h)"
  define d where "d = filter (\<lambda>(g, e). p < int g) (ring_records b)"
  define c where "c = foldl (\<lambda>d (g, _, e). if p < int g then dict_setdefault g e d else d) d (bs_lane b)"
  have r: "set (ring_records b) = {(g, e). length h - bs_size b < g \<and> g \<le> length h \<and> e = h ! (g - 1)}"
    unfolding ring_records_log [OF l] set_rev drop_as_filter by (auto simp: in_set_enumerate_eq)
  have "distinct (map fst (ring_records b))"
    by (simp add: ring_records_log [OF l] rev_map [symmetric] drop_enumerate)
  then have w: "dict_wf d"
    by (simp add: d_def dict_wf_def distinct_map_filter)
  have ln: "set (bs_lane b) = set (newest (bs_lane_size b) (serious h))" "set (newest (bs_lane_size b) (serious h)) \<subseteq> set (serious h)"
    using l by (auto simp: follows_log_def newest_def dest: in_set_dropD)
  have f1: "\<forall>(g, e) \<in> set d. e = h ! (g - 1)"
    using r by (auto simp: d_def)
  have f2: "\<forall>(g, r, e) \<in> set (bs_lane b). e = h ! (g - 1)"
    using ln in_serious by auto
  from completed [OF w f1 f2, of "\<lambda>g. p < int g"]
  have c: "dict_wf c" "\<And>g e. (g, e) \<in> set c \<longleftrightarrow> e = h ! (g - 1) \<and> (g \<in> set (dict_keys d) \<or> p < int g \<and> g \<in> fst ` set (bs_lane b))"
    by (simp_all add: c_def)
  have lane: "0 < g \<and> g \<le> length h" if "g \<in> fst ` set (bs_lane b)" for g
    using that ln in_serious by auto
  have keys: "g \<in> set (dict_keys d) \<longleftrightarrow> p < int g \<and> length h - bs_size b < g \<and> g \<le> length h" for g
    using r by (force simp: d_def)
  have "(g, e) \<in> set c \<longleftrightarrow> (g, e) \<in> set ?L" for g e
  proof -
    have "(g, e) \<in> set ?L \<longleftrightarrow> 0 < g \<and> g \<le> length h \<and> e = h ! (g - 1) \<and> p < int g \<and> known h b g"
      unfolding set_filter by (auto simp: in_set_enumerate_eq)
    moreover have "known h b g \<longleftrightarrow> length h - bs_size b < g \<or> g \<in> fst ` set (bs_lane b)"
      by (simp only: known_def ln(1))
    ultimately show ?thesis
      unfolding c(2) keys using lane [of g] by auto
  qed
  moreover have "sorted (map fst (enumerate 1 h))" "distinct (map fst (enumerate 1 h))"
    by (simp_all only: map_fst_enumerate sorted_upt distinct_upt)
  then have "sorted (map fst ?L)" "distinct (map fst ?L)"
    by (simp_all only: sorted_filter distinct_map_filter)
  ultimately have "map (\<lambda>g. (g, the (dict_get c g))) (sort (dict_keys c)) = ?L"
    by (intro dict_sorted_unique c(1))
  then show ?thesis
    by (simp add: merged_records_def Let_def d_def [symmetric] c_def [symmetric] rev_map [symmetric])
qed

lemma records_log:
  assumes l: "follows_log h b" and p: "0 \<le> p" "p \<le> int (length h)"
  shows "records_since (Some p) b = (length h, rev (filter (\<lambda>(g, e). p < int g \<and> known h b g) (enumerate 1 h)),
    int (bs_size b) < int (length h) - p)"
proof -
  have r: "bs_revision b = length h" "length (bs_ring b) = min (bs_size b) (length h)"
    using l by (simp_all add: follows_log_def)
  have c: "cursor (Some p) = p"
    by (simp add: cursor_def)
  consider "p = int (length h)" | "p < int (length h)" "length h - nat p \<le> bs_size b" | "p < int (length h)" "bs_size b < length h - nat p"
    using p(2) by linarith
  then show ?thesis
  proof cases
    case 1
    then have "filter (\<lambda>(g, e). p < int g \<and> known h b g) (enumerate 1 h) = []"
      by (auto simp: filter_empty_conv in_set_enumerate_eq)
    with 1 show ?thesis
      unfolding records_since_def c Let_def r by simp
  next
    case 2
    have "filter (\<lambda>(g, e). p < int g \<and> known h b g) (enumerate 1 h) = filter (\<lambda>(g, e). nat p < g) (enumerate 1 h)"
      using 2 p(1) by (intro filter_cong) (auto simp: known_def)
    also have "\<dots> = drop (nat p) (enumerate 1 h)"
      using filter_enumerate [of "nat p" 0 h] by simp
    finally have f: "filter (\<lambda>(g, e). p < int g \<and> known h b g) (enumerate 1 h) = drop (nat p) (enumerate 1 h)" .
    have t: "take (length h - nat p) (rev (drop (length h - bs_size b) (enumerate 1 h))) = rev (drop (nat p) (enumerate 1 h))"
      using 2 p(1) by (subst take_rev_drop [where k = "nat p - (length h - bs_size b)"]) auto
    have g: "length h - nat p \<le> min (bs_size b) (length h)"
      using 2 by simp
    show ?thesis
      unfolding records_since_def c Let_def r f using 2 p(1) g t
      by (simp add: ring_records_log [OF l] min_def)
  next
    case 3
    then have "\<not> length h - nat p \<le> min (bs_size b) (length h)"
      by simp
    with 3 p(1) show ?thesis
      by (simp add: records_since_def c Let_def r merged_log [OF l])
  qed
qed

section \<open>Receipts and generations\<close>

text \<open>The receipts that admissions have issued: key, lane and generation.\<close>

fun admitted_by :: "(rat \<Rightarrow> string) \<Rightarrow> bus \<Rightarrow> bus_event \<Rightarrow> (string \<times> bool \<times> nat) list" where
  "admitted_by flt b (BusMesh ev h sealed e) =
     (if snd (mesh_publish flt ev h sealed e b) = Inr ()
      then case receipt_key flt (signed flt b (carried h sealed e)) of None \<Rightarrow> [] | Some k \<Rightarrow> [(k, hd_control h, hd_generation h)]
      else [])"
| "admitted_by flt b _ = []"

fun mesh_log :: "(rat \<Rightarrow> string) \<Rightarrow> bus \<Rightarrow> bus_event list \<Rightarrow> (string \<times> bool \<times> nat) list" where
  "mesh_log flt b [] = []"
| "mesh_log flt b (x # xs) = admitted_by flt b x @ mesh_log flt (bus_step flt b x) xs"

definition receipts_ok :: "bus \<Rightarrow> bool" where
  "receipts_ok b \<longleftrightarrow> length (bs_receipts b) \<le> max_mesh_receipts
     \<and> (\<forall>(k, control, g) \<in> set (bs_receipts b). control \<or> bs_active b \<and> g = bs_generation b)"

definition issued :: "(string \<times> bool \<times> nat) list \<Rightarrow> bus \<Rightarrow> bool" where
  "issued granted b \<longleftrightarrow> receipts_ok b \<and> set (bs_receipts b) \<subseteq> set granted"

definition same_mesh :: "bus \<Rightarrow> bus \<Rightarrow> bool" where
  "same_mesh b c \<longleftrightarrow> bs_receipts c = bs_receipts b \<and> bs_active c = bs_active b \<and> bs_generation c = bs_generation b"

lemma same_mesh_issued: "same_mesh b c \<Longrightarrow> issued granted c = issued granted b"
  by (simp add: same_mesh_def issued_def receipts_ok_def)

lemma call_sub_mesh: "same_mesh b (call_sub ev e b i)"
  by (simp add: same_mesh_def call_sub_def Let_def split: prod.split option.split)

lemma calls_mesh: "same_mesh b (foldl (call_sub ev e) b is)"
proof (induction "is" arbitrary: b)
  case (Cons i "is")
  from call_sub_mesh [of b ev e i] Cons.IH [of "call_sub ev e b i"] show ?case
    by (simp add: same_mesh_def)
qed (simp add: same_mesh_def)

lemma retain_mesh: "same_mesh b (retain_event e b)"
  by (simp add: same_mesh_def retain_event_def Let_def)

lemma mesh_fields: "same_mesh b (arm key b)" "same_mesh b (fst (subscribe i name budget b))" "same_mesh b (unsubscribe i b)" "same_mesh b (require_mesh b)"
  by (simp_all add: same_mesh_def arm_def subscribe_def unsubscribe_def require_mesh_def Let_def split: option.split)

lemma generations_issued: "issued granted b \<Longrightarrow> issued granted (activate_mesh b)" "issued granted b \<Longrightarrow> issued granted (freeze_mesh b)"
  "issued granted (close_mesh b)"
proof -
  assume i: "issued granted b"
  have r: "bs_receipts (require_mesh b) = bs_receipts b"
    by (simp add: require_mesh_def split: option.split)
  have "length (bs_receipts b) \<le> max_mesh_receipts"
    using i by (simp add: issued_def receipts_ok_def)
  then have l: "length (filter P (bs_receipts b)) \<le> max_mesh_receipts" for P
    by (rule le_trans [OF length_filter_le])
  show "issued granted (activate_mesh b)" "issued granted (freeze_mesh b)"
    using i l by (auto simp: issued_def receipts_ok_def activate_mesh_def freeze_mesh_def control_receipts_def Let_def r)
next
  show "issued granted (close_mesh b)"
    by (simp add: issued_def receipts_ok_def close_mesh_def)
qed

lemma dict_set_subset: "set (dict_set k v d) \<subseteq> insert (k, v) (set d)"
  by (induction d) auto

lemma admit_issued:
  assumes i: "issued granted b" and a: "admit_receipt flt gate (Some (control, g, authority)) e b = (b', Inr ())"
  shows "\<exists>k. receipt_key flt e = Some k \<and> issued (granted @ [(k, control, g)]) b'"
proof -
  obtain k where k: "receipt_key flt e = Some k" and live: "control \<or> bs_active b \<and> g = bs_generation b"
    and b': "b' = b\<lparr>bs_receipts := drop (length (dict_set k (control, g) (bs_receipts b)) - max_mesh_receipts) (dict_set k (control, g) (bs_receipts b))\<rparr>"
    using a by (auto simp: admit_receipt_def Let_def split: if_splits option.splits)
  have "set (bs_receipts b') \<subseteq> insert (k, control, g) (set (bs_receipts b))"
    using dict_set_subset [of k "(control, g)" "bs_receipts b"] by (auto simp: b' dest: in_set_dropD)
  moreover have "length (bs_receipts b') \<le> max_mesh_receipts" "bs_active b' = bs_active b" "bs_generation b' = bs_generation b"
    by (simp_all add: b')
  ultimately have "issued (granted @ [(k, control, g)]) b'"
    using i live by (fastforce simp: issued_def receipts_ok_def)
  with k show ?thesis by blast
qed

lemma deliver_issued:
  assumes i: "issued granted b" and d: "deliver_event flt ev admitted e b = (b', Inr ())"
  shows "case admitted of None \<Rightarrow> issued granted b'
    | Some (control, g, authority) \<Rightarrow> \<exists>k. receipt_key flt (signed flt b e) = Some k \<and> issued (granted @ [(k, control, g)]) b'"
proof -
  let ?e = "signed flt b e"
  obtain b1 where a: "admit_receipt flt (be_gate ev) admitted ?e b = (b1, Inr ())"
      and b': "b' = foldl (call_sub ev ?e) (retain_event ?e b1) (bs_subs (retain_event ?e b1))"
    using d by (auto simp: deliver_event_def op_then_def Let_def split: prod.splits sum.splits)
  have same: "issued l b' = issued l b1" for l
    unfolding b' using same_mesh_issued [OF calls_mesh] same_mesh_issued [OF retain_mesh] by simp
  show ?thesis
  proof (cases admitted)
    case None
    with a i same show ?thesis by (simp add: admit_receipt_def)
  next
    case (Some p)
    obtain control g authority where p: "p = (control, g, authority)"
      by (cases p)
    with a Some admit_issued [OF i] same show ?thesis by simp
  qed
qed

lemma issued_more: "issued granted b \<Longrightarrow> issued (granted @ ls) b"
  by (auto simp: issued_def)

lemma step_issued:
  assumes i: "issued granted b"
  shows "issued (granted @ admitted_by flt b x) (bus_step flt b x)"
proof (cases x)
  case (BusPublish ev e)
  let ?e = "if bs_required b then advisory e else e"
  obtain c r where c: "publish flt ev e b = (c, r)" by fastforce
  from publish_deliver [of flt ev e b] show ?thesis
  proof
    assume p: "publish flt ev e b = deliver_event flt ev None ?e b"
    show ?thesis
      using BusPublish c p i deliver_issued [OF i, of flt ev None ?e c] deliver_Inl [of flt ev None ?e b] by (cases r) auto
  qed (use BusPublish i in simp)
next
  case (BusMesh ev h sealed e)
  let ?a = "Some (hd_control h, hd_generation h, hd_authority h)"
  obtain c r where c: "mesh_publish flt ev h sealed e b = (c, r)" by fastforce
  from mesh_deliver [of flt ev h sealed e b] show ?thesis
  proof
    assume p: "mesh_publish flt ev h sealed e b = deliver_event flt ev ?a (carried h sealed e) b"
    show ?thesis
      using BusMesh c p i deliver_issued [OF i, of flt ev ?a "carried h sealed e" c] deliver_Inl [of flt ev ?a "carried h sealed e" b]
      by (cases r) auto
  qed (use BusMesh i in auto)
qed (use i generations_issued same_mesh_issued [OF mesh_fields(1)] same_mesh_issued [OF mesh_fields(2)]
    same_mesh_issued [OF mesh_fields(3)] same_mesh_issued [OF mesh_fields(4)] in simp_all)

lemma run_issued: "issued granted b \<Longrightarrow> issued (granted @ mesh_log flt b xs) (foldl (bus_step flt) b xs)"
proof (induction xs arbitrary: granted b)
  case (Cons x xs)
  from Cons.IH [OF step_issued [OF Cons.prems]] show ?case by simp
qed simp

lemma new_issued: "issued [] (new_bus n m)"
  by (simp add: issued_def receipts_ok_def new_bus_def)

interpretation bus: machine "bus_step flt" receipts_ok for flt
proof
  fix b x
  assume "receipts_ok b"
  then have "issued (bs_receipts b) b"
    by (simp add: issued_def)
  from step_issued [OF this] show "receipts_ok (bus_step flt b x)"
    by (simp add: issued_def)
qed

text \<open>The general ring is a buffer that keeps the newest events.\<close>

interpretation ring: bounded_fifo "\<lambda>b. 0 < bs_size b \<and> length (bs_ring b) \<le> bs_size b" bs_ring bs_size "\<lambda>_. n" "\<lambda>_ _. True"
  "\<lambda>b e. retain_event e b" for n
proof
  fix q :: bus and x :: event
  assume q: "0 < bs_size q \<and> length (bs_ring q) \<le> bs_size q"
  have r: "bs_ring (retain_event x q) = deque_append (bs_size q) (bs_ring q) x" "bs_size (retain_event x q) = bs_size q"
    by (simp_all add: retain_event_def Let_def)
  show "0 < bs_size (retain_event x q) \<and> length (bs_ring (retain_event x q)) \<le> bs_size (retain_event x q)"
    using q by (auto simp: r deque_append_def Let_def)
  show "bs_ring (retain_event x q) = (if length (bs_ring q) < bs_size q then bs_ring q else tl (bs_ring q)) @ [x]"
    using q by (auto simp: r deque_append_def Let_def drop_Suc Suc_diff_le)
qed (simp_all add: retain_event_def Let_def)

section \<open>Properties\<close>

lemma step_sizes: "bs_size (bus_step flt b x) = bs_size b \<and> bs_lane_size (bus_step flt b x) = bs_lane_size b"
proof -
  have d: "bs_size (fst (deliver_event flt ev a e b)) = bs_size b \<and> bs_lane_size (fst (deliver_event flt ev a e b)) = bs_lane_size b" for ev a e
  proof (cases "snd (deliver_event flt ev a e b)")
    case (Inl x)
    then show ?thesis by (simp add: deliver_Inl)
  next
    case (Inr u)
    then obtain b1 where a: "admit_receipt flt (be_gate ev) a (signed flt b e) b = (b1, Inr ())"
        and b': "fst (deliver_event flt ev a e b) = foldl (call_sub ev (signed flt b e)) (retain_event (signed flt b e) b1) (bs_subs (retain_event (signed flt b e) b1))"
      by (auto simp: deliver_event_def op_then_def Let_def split: prod.splits sum.splits)
    have "same_rings b b1"
      using admit_rings [of b flt "be_gate ev" a "signed flt b e"] a by simp
    with b' calls_rings [of "retain_event (signed flt b e) b1" ev "signed flt b e"] show ?thesis
      by (simp add: same_rings_def retain_event_def Let_def)
  qed
  show ?thesis
  proof (cases x)
    case (BusPublish ev e)
    with publish_deliver [of flt ev e b] d show ?thesis by auto
  next
    case (BusMesh ev h sealed e)
    with mesh_deliver [of flt ev h sealed e b] d show ?thesis by auto
  qed (use mesh_rings [of b] in \<open>simp_all add: same_rings_def\<close>)
qed

lemma run_sizes: "bs_size (foldl (bus_step flt) b xs) = bs_size b \<and> bs_lane_size (foldl (bus_step flt) b xs) = bs_lane_size b"
  by (induction xs arbitrary: b) (simp_all add: step_sizes)

text \<open>What a poll is given after an overflow, without the numbers of the events.\<close>

lemma newest_append_split: "newest n (xs @ ys) = newest (n - length ys) xs @ newest n ys"
  by (cases "n \<le> length ys") (simp_all add: newest_def)

lemma filter_in_drop:
  assumes "distinct xs"
  shows "filter (\<lambda>x. x \<in> set (drop m (filter P xs))) xs = drop m (filter P xs)"
proof -
  let ?F = "filter P xs"
  have d: "set (take m ?F) \<inter> set (drop m ?F) = {}"
    using assms by (intro set_take_disj_set_drop_if_distinct) simp_all
  have "filter (\<lambda>x. x \<in> set (drop m ?F)) xs = filter (\<lambda>x. x \<in> set (drop m ?F)) ?F"
    by (auto intro!: filter_cong dest: in_set_dropD)
  also have "\<dots> = filter (\<lambda>x. x \<in> set (drop m ?F)) (take m ?F @ drop m ?F)"
    by simp
  also have "\<dots> = drop m ?F"
    using d unfolding filter_append by (auto simp: filter_empty_conv filter_id_conv disjoint_iff simp del: append_take_drop_id)
  finally show ?thesis .
qed

lemma fst_serious: "fst ` set (newest k (serious h)) = fst ` set (newest k (filter (\<lambda>(g, e). High \<le> ev_severity e) (enumerate 1 h)))"
proof -
  have "map fst (map (\<lambda>(k, g, e). (g, Suc k, e)) (enumerate k X)) = map fst X" for k and X :: "(nat \<times> event) list"
    by (induction X arbitrary: k) auto
  then have "map fst (serious h) = map fst (filter (\<lambda>(g, e). High \<le> ev_severity e) (enumerate 1 h))"
    unfolding serious_def .
  then show ?thesis
    by (metis drop_map length_map newest_def set_map)
qed

lemma known_since:
  assumes "bs_size c = n" and "bs_lane_size c = l"
  shows "map snd (filter (\<lambda>(g, e). int (length h) < int g \<and> known (h @ late) c g) (enumerate 1 (h @ late)))
    = newest (l - length (filter (\<lambda>e. High \<le> ev_severity e) (newest n late))) (filter (\<lambda>e. High \<le> ev_severity e) (take (length late - n) late))
      @ newest n late"
proof -
  let ?S = "\<lambda>e. High \<le> ev_severity e" and ?T = "\<lambda>(g :: nat, e). High \<le> ev_severity e"
  define old new where "old = take (length late - n) late" and "new = newest n late"
  have late: "late = old @ new"
    by (simp add: old_def new_def newest_def)
  define E0 E1 E2 where "E0 = enumerate 1 h" and "E1 = enumerate (Suc (length h)) old" and "E2 = enumerate (Suc (length h + length old)) new"
  have E: "enumerate 1 (h @ late) = E0 @ E1 @ E2"
    by (simp add: E0_def E1_def E2_def late enumerate_append_eq)
  have n: "length (h @ late) - n = length h + length old \<or> old = []"
    by (auto simp: old_def)
  have b0: "g \<le> length h" if "(g, e) \<in> set E0" for g e
    using that by (auto simp: E0_def in_set_enumerate_eq)
  have b1: "length h < g \<and> g \<le> length h + length old" if "(g, e) \<in> set E1" for g e
    using that by (auto simp: E1_def in_set_enumerate_eq)
  have b2: "length h + length old < g" if "(g, e) \<in> set E2" for g e
    using that by (auto simp: E2_def in_set_enumerate_eq)
  define k where "k = l - length (filter ?T E2)"
  have lane: "newest l (filter ?T (E0 @ E1 @ E2)) = newest (k - length (filter ?T E1)) (filter ?T E0) @ newest k (filter ?T E1) @ newest l (filter ?T E2)"
    by (simp add: newest_append_split k_def add.commute)
  have sub: "set (newest i (filter ?T F)) \<subseteq> set F" for i and F :: "(nat \<times> event) list"
    by (auto simp: newest_def dest: in_set_dropD)
  have key: "g \<in> fst ` set (newest l (filter ?T (E0 @ E1 @ E2))) \<longleftrightarrow> (g, e) \<in> set (newest k (filter ?T E1))" if e: "(g, e) \<in> set E1" for g e
  proof -
    have "g \<notin> fst ` set E0" "g \<notin> fst ` set E2"
      using b0 b1 [OF e] b2 by (auto simp: image_iff) (fastforce dest: b0 b2)+
    then have "g \<notin> fst ` set (newest i (filter ?T E0))" "g \<notin> fst ` set (newest i (filter ?T E2))" for i
      using image_mono [OF sub, of fst] by blast+
    moreover have "g \<in> fst ` set (newest k (filter ?T E1)) \<longleftrightarrow> (g, e) \<in> set (newest k (filter ?T E1))"
    proof
      assume "g \<in> fst ` set (newest k (filter ?T E1))"
      then obtain f where f: "(g, f) \<in> set (newest k (filter ?T E1))" by auto
      moreover have "f = e"
        using subsetD [OF sub f] e by (auto simp: E1_def in_set_enumerate_eq)
      ultimately show "(g, e) \<in> set (newest k (filter ?T E1))" by simp
    qed force
    ultimately show ?thesis
      unfolding lane set_append image_Un by simp
  qed
  have f0: "filter (\<lambda>(g, e). int (length h) < int g \<and> known (h @ late) c g) E0 = []"
    by (auto simp: filter_empty_conv dest!: b0)
  have f2: "filter (\<lambda>(g, e). int (length h) < int g \<and> known (h @ late) c g) E2 = E2"
  proof -
    have "length (h @ late) - n \<le> length h + length old"
      by (auto simp: old_def)
    then have "int (length h) < int g \<and> known (h @ late) c g" if "(g, e) \<in> set E2" for g e
      using b2 [OF that] by (simp add: known_def assms)
    then show ?thesis
      by (auto simp: filter_id_conv)
  qed
  have "known (h @ late) c g \<longleftrightarrow> (g, e) \<in> set (newest k (filter ?T E1))" if "(g, e) \<in> set E1" for g e
  proof -
    have "\<not> length (h @ late) - bs_size c < g"
      using n b1 [OF that] that by (auto simp: assms(1) E1_def)
    with key [OF that] show ?thesis
      unfolding known_def fst_serious assms(2) E by simp
  qed
  then have "filter (\<lambda>(g, e). int (length h) < int g \<and> known (h @ late) c g) E1 = filter (\<lambda>x. x \<in> set (newest k (filter ?T E1))) E1"
    using b1 by (intro filter_cong) auto
  also have "\<dots> = newest k (filter ?T E1)"
    unfolding newest_def by (intro filter_in_drop) (simp add: E1_def)
  finally have f1: "filter (\<lambda>(g, e). int (length h) < int g \<and> known (h @ late) c g) E1 = newest k (filter ?T E1)" .
  have s: "map snd (filter ?T (enumerate i xs)) = filter ?S xs" for i xs
    by (induction xs arbitrary: i) auto
  then have "length (filter ?T E2) = length (filter ?S new)"
    unfolding E2_def by (metis length_map)
  then have k: "k = l - length (filter ?S new)"
    by (simp add: k_def)
  have "map snd (newest k (filter ?T E1)) = newest k (filter ?S old)"
    unfolding newest_def drop_map [symmetric] E1_def s by (metis length_map s)
  then show ?thesis
    unfolding E filter_append f0 f1 f2 k by (simp add: E2_def old_def [symmetric] new_def [symmetric])
qed

text \<open>C6: A consumer that polls from the revision it saw last gets every event delivered since or is told of an
overflow, whatever the run did in between.  The overflow is reported exactly when more events were delivered than
the ring holds; the answer then still has, newest first, the events the ring holds, and of the older ones the serious
ones the lane has room for.  Without an overflow it is all the events delivered since.\<close>

theorem polls_see_everything:
  assumes "b = foldl (bus_step flt) (new_bus n m) xs" and "late = bus_log flt b ys"
  shows "recent_since (Some (int (bs_revision b))) (foldl (bus_step flt) b ys)
    = (bs_revision b + length late,
       if length late \<le> n then rev late
       else rev (newest (bs_lane_size b - length (filter (\<lambda>e. High \<le> ev_severity e) (newest n late)))
                   (filter (\<lambda>e. High \<le> ev_severity e) (take (length late - n) late)) @ newest n late),
       n < length late)"
proof -
  define h where "h = bus_log flt (new_bus n m) xs"
  let ?c = "foldl (bus_step flt) b ys" and ?h = "h @ late"
  have l: "follows_log h b"
    using run_log [OF new_log, of flt n m xs] by (simp add: assms(1) h_def)
  then have r: "bs_revision b = length h"
    by (simp add: follows_log_def)
  have "follows_log ?h ?c"
    unfolding assms(2) by (rule run_log [OF l])
  moreover have s: "bs_size ?c = n" "bs_lane_size ?c = bs_lane_size b"
    using run_sizes [of flt b ys] run_sizes [of flt "new_bus n m" xs] assms(1) by (simp_all add: new_bus_def)
  ultimately have "records_since (Some (int (length h))) ?c = (length ?h,
      rev (filter (\<lambda>(g, e). int (length h) < int g \<and> known ?h ?c g) (enumerate 1 ?h)), n < length late)"
    using records_log [of ?h ?c "int (length h)"] by simp
  with known_since [OF s, of h late] show ?thesis
    by (simp add: recent_since_def r rev_map [symmetric])
qed

theorem polls_see_everything_witness:
  "recent_since (Some 1) (foldl (bus_step (\<lambda>_. [])) (foldl (bus_step (\<lambda>_. [])) (new_bus 1 None)
     [BusPublish \<lparr>be_gate = False, be_call = (\<lambda>_ _. (False, 0))\<rparr> \<lparr>ev_module = ''m'', ev_message = ''a'', ev_severity = Info, ev_ts = 0, ev_details = [],
        ev_hmac = [], ev_mesh_sig = [], ev_mesh_peer = []\<rparr>])
     [BusPublish \<lparr>be_gate = False, be_call = (\<lambda>_ _. (False, 0))\<rparr> \<lparr>ev_module = ''m'', ev_message = ''b'', ev_severity = High, ev_ts = 1, ev_details = [],
        ev_hmac = [], ev_mesh_sig = [], ev_mesh_peer = []\<rparr>, BusFreeze,
      BusPublish \<lparr>be_gate = False, be_call = (\<lambda>_ _. (True, 1))\<rparr> \<lparr>ev_module = ''m'', ev_message = ''c'', ev_severity = Low, ev_ts = 2, ev_details = [],
        ev_hmac = [], ev_mesh_sig = [], ev_mesh_peer = []\<rparr>])
   = (3, [\<lparr>ev_module = ''m'', ev_message = ''c'', ev_severity = Low, ev_ts = 2, ev_details = [], ev_hmac = [], ev_mesh_sig = [], ev_mesh_peer = []\<rparr>,
      \<lparr>ev_module = ''m'', ev_message = ''b'', ev_severity = High, ev_ts = 1, ev_details = [], ev_hmac = [], ev_mesh_sig = [], ev_mesh_peer = []\<rparr>], True)"
proof -
  let ?v = "\<lparr>be_gate = False, be_call = (\<lambda>_ _. (False, 0))\<rparr>" and ?w = "\<lparr>be_gate = False, be_call = (\<lambda>_ _. (True, 1))\<rparr>"
  let ?e = "\<lambda>t s i. \<lparr>ev_module = ''m'', ev_message = t, ev_severity = s, ev_ts = i, ev_details = [], ev_hmac = [], ev_mesh_sig = [], ev_mesh_peer = []\<rparr>"
  let ?a = "?e ''a'' Info 0" and ?b = "?e ''b'' High 1" and ?c = "?e ''c'' Low 2"
  let ?ys = "[BusPublish ?v ?b, BusFreeze, BusPublish ?w ?c]"
  define b where "b = foldl (bus_step (\<lambda>_. [])) (new_bus 1 None) [BusPublish ?v ?a]"
  have b: "bs_key b = None" "bs_required b = False" "bs_revision b = 1" "bs_lane_size b = 64" "bs_subs b = []"
    by (simp_all add: b_def publish_def deliver_event_def op_then_def admit_receipt_def retain_event_def new_bus_def Let_def signed_def less_eq_severity_def)
  then have "[?b, ?c] = bus_log (\<lambda>_. []) b ?ys"
    by (simp add: publish_def freeze_mesh_def retain_event_def deliver_event_def op_then_def admit_receipt_def signed_def Let_def)
  from polls_see_everything [OF b_def this] show ?thesis
    unfolding b(3,4) b_def [symmetric] by (simp add: newest_def less_eq_severity_def)
qed

text \<open>C7: Noise hides no serious event.  A HIGH or CRITICAL event that was delivered after a consumer's cursor is
among the records the next poll returns, however many lesser events overran the ring in between, unless as many
serious events as the lane holds came after it.\<close>

theorem serious_events_kept:
  assumes "b = foldl (bus_step flt) (new_bus n m) xs" and "delivered_by flt b x = [e]" and "High \<le> ev_severity e"
    and "length (filter (\<lambda>e. High \<le> ev_severity e) (bus_log flt (bus_step flt b x) ys)) < bs_lane_size b"
    and "0 \<le> p" and "p \<le> int (bs_revision b)"
  shows "(Suc (bs_revision b), e) \<in> set (fst (snd (records_since (Some p) (foldl (bus_step flt) (bus_step flt b x) ys))))"
proof -
  define h where "h = bus_log flt (new_bus n m) xs"
  define hs where "hs = bus_log flt (bus_step flt b x) ys"
  let ?c = "foldl (bus_step flt) (bus_step flt b x) ys" and ?h = "(h @ [e]) @ hs"
  have l: "follows_log h b"
    using run_log [OF new_log, of flt n m xs] by (simp add: assms(1) h_def)
  then have r: "bs_revision b = length h"
    by (simp add: follows_log_def)
  have lc: "follows_log ?h ?c"
    using run_log [OF step_log [OF l, of flt x], of flt ys] assms(2) by (simp add: hs_def)
  have size: "bs_lane_size ?c = bs_lane_size b"
    using run_sizes [of flt "bus_step flt b x" ys] step_sizes [of flt b x] by simp
  define rest where "rest = map (\<lambda>(k, g, e). (g, Suc k, e)) (enumerate (length (serious (h @ [e])))
     (filter (\<lambda>(g, e). High \<le> ev_severity e) (enumerate (Suc (length (h @ [e]))) hs)))"
  have "length (filter (\<lambda>(g, e). High \<le> ev_severity e) (enumerate k hs)) = length (filter (\<lambda>e. High \<le> ev_severity e) hs)" for k
    by (induction hs arbitrary: k) auto
  then have "length rest < bs_lane_size ?c"
    using assms(4) by (simp add: rest_def size hs_def)
  moreover have "serious ?h = serious h @ [(Suc (length h), Suc (length (serious h)), e)] @ rest"
    using assms(3) unfolding serious_append [of "h @ [e]" hs] rest_def [symmetric] by (simp add: serious_snoc)
  ultimately have "(Suc (length h), Suc (length (serious h)), e) \<in> set (newest (bs_lane_size ?c) (serious ?h))"
    by (auto simp: newest_def)
  then have "known ?h ?c (Suc (length h))"
    by (force simp: known_def)
  then have "(Suc (length h), e) \<in> set (filter (\<lambda>(g, e). p < int g \<and> known ?h ?c g) (enumerate 1 ?h))"
    using assms(6) r by (auto simp: in_set_enumerate_eq nth_append)
  then show ?thesis
    using records_log [OF lc assms(5)] assms(6) r by simp
qed

theorem serious_events_kept_witness:
  "let ev = \<lparr>be_gate = False, be_call = (\<lambda>_ _. (False, 0))\<rparr>;
       alarm = \<lparr>ev_module = ''m'', ev_message = ''a'', ev_severity = High, ev_ts = 0, ev_details = [], ev_hmac = [], ev_mesh_sig = [], ev_mesh_peer = []\<rparr>;
       noise = BusPublish ev (alarm\<lparr>ev_severity := Info\<rparr>)
   in (1, alarm) \<in> set (fst (snd (records_since (Some 0)
        (foldl (bus_step (\<lambda>_. [])) (bus_step (\<lambda>_. []) (new_bus 1 (Some 4)) (BusPublish ev alarm)) [noise, noise, noise]))))"
proof -
  let ?v = "\<lparr>be_gate = False, be_call = (\<lambda>_ _. (False, 0))\<rparr>"
  let ?a = "\<lparr>ev_module = ''m'', ev_message = ''a'', ev_severity = High, ev_ts = 0, ev_details = [], ev_hmac = [], ev_mesh_sig = [], ev_mesh_peer = []\<rparr>"
  let ?n = "BusPublish ?v (?a\<lparr>ev_severity := Info\<rparr>)"
  let ?b = "new_bus 1 (Some 4)"
  have 1: "?b = foldl (bus_step (\<lambda>_. [])) (new_bus 1 (Some 4)) []"
    by simp
  have 2: "delivered_by (\<lambda>_. []) ?b (BusPublish ?v ?a) = [?a]"
    by (simp add: publish_def deliver_event_def op_then_def admit_receipt_def new_bus_def signed_def Let_def)
  have k: "bs_key (bus_step (\<lambda>_. []) ?b x) = None" if "x = ?n \<or> x = BusPublish ?v ?a" for x
    using that by (auto simp: publish_def deliver_event_def op_then_def admit_receipt_def retain_event_def new_bus_def signed_def Let_def)
  have 4: "length (filter (\<lambda>e. High \<le> ev_severity e) (bus_log (\<lambda>_. []) (bus_step (\<lambda>_. []) ?b (BusPublish ?v ?a)) [?n, ?n, ?n])) < bs_lane_size ?b"
    by (simp add: publish_def deliver_event_def op_then_def admit_receipt_def retain_event_def new_bus_def signed_def Let_def less_eq_severity_def)
  from serious_events_kept [OF 1 2 _ 4, of 0] show ?thesis
    by (simp add: less_eq_severity_def new_bus_def Let_def)
qed

text \<open>C8: On a bus that requires the mesh, an event verifies only if a producer handle was admitted with it, on the
control lane or in the present generation of an active mesh whose gate is open, and it is no advisory: freezing,
replacing or closing the mesh revokes everything admitted before.\<close>

theorem verified_means_admitted:
  assumes "b = foldl (bus_step flt) (new_bus n m) xs" and "bs_required b" and "verify_event flt gate b e = Inr True"
  shows "\<exists>k control g. receipt_key flt e = Some k \<and> (k, control, g) \<in> set (mesh_log flt (new_bus n m) xs)
    \<and> (control \<or> bs_active b \<and> gate \<and> g = bs_generation b) \<and> \<not> remote_observe_only e"
proof -
  have i: "issued (mesh_log flt (new_bus n m) xs) b"
    using run_issued [OF new_issued, of flt n m xs] assms(1) by simp
  obtain k control g where k: "receipt_key flt e = Some k" "dict_get (bs_receipts b) k = Some (control, g)"
      "\<not> remote_observe_only e" "live_receipt gate b (control, g)"
    using assms(2,3) by (auto simp: verify_event_def split: option.splits if_splits)
  have "(k, control, g) \<in> set (mesh_log flt (new_bus n m) xs)"
    using i dict_get_in [OF k(2)] by (auto simp: issued_def)
  with k show ?thesis
    by (auto simp: live_receipt_def)
qed

lemma sample_payload:
  "event_payload (\<lambda>_. ''0.0'') \<lparr>ev_module = ''m'', ev_message = ''a'', ev_severity = Info, ev_ts = 0, ev_details = [], ev_hmac = [], ev_mesh_sig = s, ev_mesh_peer = p\<rparr> \<noteq> None"
proof -
  let ?d = "event_document \<lparr>ev_module = ''m'', ev_message = ''a'', ev_severity = Info, ev_ts = 0, ev_details = [], ev_hmac = [], ev_mesh_sig = s, ev_mesh_peer = p\<rparr>"
  have z: "length (show_int 0) = 1"
    by (simp add: show_int_def) (subst show_nat.simps, simp)
  have f: "json_finite ?d"
    by (simp add: event_document_def)
  have k: "length (json_string False t) \<le> 2 + 6 * length t" for t
    by (rule length_json_string_le)
  have "length (json_text False (\<lambda>_. ''0.0'') ?d) \<le> 1000"
    using k [of "''details''"] k [of "''message''"] k [of "''module''"] k [of "''severity''"] k [of "''ts''"] k [of "''m''"] k [of "''a''"]
    by (simp add: event_document_def z)
  then have "length (utf8 (json_text False (\<lambda>_. ''0.0'') (json_sorted ?d))) \<le> 2000"
    using length_utf8_le [of "json_text False (\<lambda>_. ''0.0'') (json_sorted ?d)"] by (simp only: length_json_sorted)
  with f show ?thesis
    by (simp add: event_payload_def canonical_def del: json_sorted.simps)
qed

theorem verified_means_admitted_witness:
  "let ev = \<lparr>be_gate = True, be_call = (\<lambda>_ _. (False, 0))\<rparr>;
       e = \<lparr>ev_module = ''m'', ev_message = ''a'', ev_severity = Info, ev_ts = 0, ev_details = [], ev_hmac = [], ev_mesh_sig = ''s'', ev_mesh_peer = ''p''\<rparr>;
       h = \<lparr>hd_name = ''m'', hd_control = False, hd_generation = 1, hd_authority = 1, hd_peer = ''p''\<rparr>
   in \<exists>k control g. receipt_key (\<lambda>_. ''0.0'') e = Some k
      \<and> (k, control, g) \<in> set (mesh_log (\<lambda>_. ''0.0'') (new_bus 5 None) [BusActivate, BusMesh ev h (Some ''s'') e])
      \<and> (control \<or> g = 1)"
proof -
  let ?f = "\<lambda>_. ''0.0''"
  let ?v = "\<lparr>be_gate = True, be_call = (\<lambda>_ _. (False, 0))\<rparr>"
  let ?e = "\<lparr>ev_module = ''m'', ev_message = ''a'', ev_severity = Info, ev_ts = 0, ev_details = [], ev_hmac = [], ev_mesh_sig = ''s'', ev_mesh_peer = ''p''\<rparr>"
  let ?h = "\<lparr>hd_name = ''m'', hd_control = False, hd_generation = 1, hd_authority = 1, hd_peer = ''p''\<rparr>"
  define b where "b = foldl (bus_step ?f) (new_bus 5 None) [BusActivate, BusMesh ?v ?h (Some ''s'') ?e]"
  define c where "c = activate_mesh (new_bus 5 None)"
  have c: "bs_key c = None" "bs_mesh c = Some 1" "bs_active c" "bs_generation c = 1" "bs_required c" "bs_receipts c = []" "bs_subs c = []"
    by (simp_all add: c_def activate_mesh_def require_mesh_def new_bus_def control_receipts_def Let_def)
  obtain bs where p: "event_payload ?f ?e = Some bs"
    using sample_payload by blast
  then obtain k where k: "receipt_key ?f ?e = Some k"
    by (simp add: receipt_key_def)
  have ca: "carried ?h (Some ''s'') ?e = ?e"
    by (simp add: carried_def)
  have m: "mesh_publish ?f ?v ?h (Some ''s'') ?e c = deliver_event ?f ?v (Some (False, 1, 1)) ?e c"
    using p by (simp add: mesh_publish_def)
  have "deliver_event ?f ?v (Some (False, 1, 1)) ?e c = (retain_event ?e (c\<lparr>bs_receipts := [(k, False, 1)]\<rparr>), Inr ())"
    using c k by (simp add: deliver_event_def op_then_def admit_receipt_def signed_def Let_def max_mesh_receipts_def retain_event_def)
  then have b': "b = retain_event ?e (c\<lparr>bs_receipts := [(k, False, 1)]\<rparr>)"
    using m by (simp add: b_def c_def)
  then have f: "bs_required b" "bs_receipts b = [(k, False, 1)]" "bs_active b" "bs_generation b = 1" "bs_key b = None"
    using c by (simp_all add: retain_event_def Let_def)
  have "verify_event ?f True b ?e = Inr True"
    using f k by (simp add: verify_event_def live_receipt_def remote_observe_only_def verify_archived_def)
  from verified_means_admitted [OF b_def f(1) this] show ?thesis
    unfolding Let_def f(4) by blast
qed

end
