(* ===== verification/Update_Authority.thy ===== *)
theory Update_Authority
  imports Approval_Identity
begin

text \<open>
  Threshold-signed release authorization, \<^verbatim>\<open>src/angerona/core/update_authority.py\<close>: the statement and its
  validation, the verification against pinned keys, policy and rollback floor, the authenticated floor file,
  and the payload manifest with its check against an installed tree.

  A JSON text is the value it decodes to, dictionaries with their repetitions, or \<open>None\<close> when it does not
  decode, together with its length.  Ed25519 verification is an argument; a file system is what its
  queries answer.  A raised exception of any class is \<open>Inl ()\<close>: the verifier turns every one of them into
  an error entry.
\<close>

section \<open>Identifiers, versions, digests\<close>

definition release_id :: "string \<Rightarrow> bool" where
  "release_id s \<longleftrightarrow> (case s of [] \<Rightarrow> False
     | c # r \<Rightarrow> id_char c \<and> 2 \<le> length r \<and> length r \<le> 191 \<and> list_all (\<lambda>d. id_char d \<or> d \<in> set ''._:@/-'') r)"

definition revision_ok :: "string \<Rightarrow> bool" where
  "revision_ok s \<longleftrightarrow> 40 \<le> length s \<and> length s \<le> 64 \<and> hex_of_length (length s) s"

definition version_part :: "string \<Rightarrow> bool" where
  "version_part s \<longleftrightarrow> s \<noteq> [] \<and> list_all digit_char s"

text \<open>Python refuses to read an integer of more than 4300 digits.\<close>

definition version_of :: "string \<Rightarrow> nat list option" where
  "version_of s = (let parts = split_on (CHR ''.'') s in
     if (length parts = 3 \<or> length parts = 4) \<and> list_all version_part parts \<and> list_all (\<lambda>p. length p \<le> 4300) parts
     then Some (map read_digits parts) else None)"

section \<open>The statement\<close>

definition release_schema :: string where
  "release_schema = ''angerona.release-authorization/v2''"

record statement =
  st_version :: string
  st_sequence :: int
  st_platform :: string
  st_artifact :: string
  st_sbom :: string
  st_manifest :: string
  st_catalog :: string
  st_provenance :: string
  st_revision :: string
  st_builder :: string
  st_issued :: pyval
  st_expires :: pyval

definition statement_fields :: "string list" where
  "statement_fields = [''schema'', ''product'', ''version'', ''sequence'', ''platform'', ''artifact_sha256'', ''sbom_sha256'',
     ''payload_manifest_sha256'', ''payload_catalog_sha256'', ''provenance_sha256'', ''source_revision'', ''builder_id'',
     ''issued_at'', ''expires_at'']"

text \<open>A number that is no boolean, finite and not negative.\<close>

definition release_time :: "pyval \<Rightarrow> rat option" where
  "release_time v = (case num_of v of None \<Rightarrow> None | Some r \<Rightarrow> if r < 0 then None else Some r)"

definition text_of :: "pyval option \<Rightarrow> string option" where
  "text_of v = (case v of Some (PStr s) \<Rightarrow> Some s | _ \<Rightarrow> None)"

definition digest_of :: "pyval option \<Rightarrow> string option" where
  "digest_of v = (case v of Some (PStr s) \<Rightarrow> if hex_of_length 64 s then Some s else None | _ \<Rightarrow> None)"

text \<open>\<open>_exact\<close>: a dictionary with exactly the given keys.\<close>

definition exact_dict :: "string list \<Rightarrow> pyval \<Rightarrow> (string \<times> pyval) list option" where
  "exact_dict keys v = (case v of PDict d \<Rightarrow> if set (dict_keys d) = set keys then Some d else None | _ \<Rightarrow> None)"

text \<open>\<open>__post_init__\<close>: \<open>None\<close> stands for the exception.\<close>

definition read_statement :: "(string \<times> pyval) list \<Rightarrow> statement option" where
  "read_statement d =
     (if dict_get d ''schema'' \<noteq> Some (PStr release_schema) \<or> dict_get d ''product'' \<noteq> Some (PStr ''Angerona'') then None
      else case (text_of (dict_get d ''version''), dict_get d ''sequence'', text_of (dict_get d ''platform''), text_of (dict_get d ''builder_id'')) of
        (Some version, Some (PInt sequence), Some platform, Some builder) \<Rightarrow>
          if version_of version = None \<or> \<not> (1 \<le> sequence \<and> sequence \<le> 2 ^ 63 - 1) \<or> \<not> release_id platform \<or> \<not> release_id builder then None
          else (case (digest_of (dict_get d ''artifact_sha256''), digest_of (dict_get d ''sbom_sha256''),
              digest_of (dict_get d ''payload_manifest_sha256''), digest_of (dict_get d ''payload_catalog_sha256''),
              digest_of (dict_get d ''provenance_sha256''), text_of (dict_get d ''source_revision'')) of
            (Some artifact, Some sbom, Some manifest, Some catalog, Some provenance, Some revision) \<Rightarrow>
              if \<not> revision_ok revision then None
              else (case (dict_get d ''issued_at'', dict_get d ''expires_at'') of
                (Some issued, Some expires) \<Rightarrow>
                  (case (release_time issued, release_time expires) of
                    (Some i, Some e) \<Rightarrow> if e \<le> i then None else Some \<lparr>st_version = version, st_sequence = sequence, st_platform = platform,
                      st_artifact = artifact, st_sbom = sbom, st_manifest = manifest, st_catalog = catalog, st_provenance = provenance,
                      st_revision = revision, st_builder = builder, st_issued = issued, st_expires = expires\<rparr>
                  | _ \<Rightarrow> None)
              | _ \<Rightarrow> None)
          | _ \<Rightarrow> None)
      | _ \<Rightarrow> None)"

definition statement_document :: "statement \<Rightarrow> pyval" where
  "statement_document s = PDict [(''schema'', PStr release_schema), (''product'', PStr ''Angerona''), (''version'', PStr (st_version s)),
     (''sequence'', PInt (st_sequence s)), (''platform'', PStr (st_platform s)), (''artifact_sha256'', PStr (st_artifact s)),
     (''sbom_sha256'', PStr (st_sbom s)), (''payload_manifest_sha256'', PStr (st_manifest s)),
     (''payload_catalog_sha256'', PStr (st_catalog s)), (''provenance_sha256'', PStr (st_provenance s)),
     (''source_revision'', PStr (st_revision s)), (''builder_id'', PStr (st_builder s)), (''issued_at'', st_issued s),
     (''expires_at'', st_expires s)]"

definition statement_bytes :: "(rat \<Rightarrow> string) \<Rightarrow> statement \<Rightarrow> bytes" where
  "statement_bytes flt s = utf8 (json_text False flt (json_sorted (statement_document s)))"

definition statement_sha256 :: "(rat \<Rightarrow> string) \<Rightarrow> statement \<Rightarrow> string" where
  "statement_sha256 flt s = hex_text (sha256 (statement_bytes flt s))"

section \<open>Policy and result\<close>

definition max_signatures :: nat where
  "max_signatures = 16"

record update_policy =
  up_threshold :: int
  up_builders :: "string list"
  up_validity :: int
  up_skew :: int

definition update_policy_ok :: "update_policy \<Rightarrow> bool" where
  "update_policy_ok p \<longleftrightarrow> 1 \<le> up_threshold p \<and> up_threshold p \<le> int max_signatures \<and> up_builders p \<noteq> []
     \<and> list_all release_id (up_builders p) \<and> 60 \<le> up_validity p \<and> up_validity p \<le> 366 * 24 * 3600
     \<and> 0 \<le> up_skew p \<and> up_skew p \<le> 3600"

datatype release_error = Malformed | ThresholdNotMet | BuilderNotAuthorized | PlatformMismatch | ArtifactMismatch | SbomMismatch
  | ManifestMismatch | CatalogMismatch | ProvenanceMismatch | NotYetValid | Expired | WindowTooLong | Downgrade | SequenceBelowFloor
  | VersionBelowFloor | SequenceReused

record release_result =
  rr_errors :: "release_error list"
  rr_statement :: "statement option"
  rr_signers :: "string list"
  rr_digest :: string

definition rr_valid :: "release_result \<Rightarrow> bool" where
  "rr_valid r \<longleftrightarrow> rr_errors r = []"

text \<open>What the caller expects of the release.\<close>

record release_target =
  rt_platform :: string
  rt_artifact :: string
  rt_sbom :: string
  rt_manifest :: string
  rt_catalog :: string
  rt_provenance :: string
  rt_installed :: string
  rt_sequence :: int
  rt_version :: string
  rt_floor_digest :: string

definition target_ok :: "release_target \<Rightarrow> bool" where
  "target_ok t \<longleftrightarrow> release_id (rt_platform t)
     \<and> list_all (hex_of_length 64) [rt_artifact t, rt_sbom t, rt_manifest t, rt_catalog t, rt_provenance t]
     \<and> version_of (rt_installed t) \<noteq> None \<and> version_of (rt_version t) \<noteq> None \<and> 0 \<le> rt_sequence t
     \<and> (rt_floor_digest t = [] \<or> hex_of_length 64 (rt_floor_digest t))"

section \<open>Verification\<close>

text \<open>\<open>_strict_object\<close>: no dictionary of the document repeats a key.\<close>

primrec no_repeats :: "pyval \<Rightarrow> bool" where
  "no_repeats PNone = True"
| "no_repeats (PBool b) = True"
| "no_repeats (PInt i) = True"
| "no_repeats (PFloat f) = True"
| "no_repeats (PStr s) = True"
| "no_repeats (PList vs) = list_all (\<lambda>x. x) (map no_repeats vs)"
| "no_repeats (PDict kvs) = (distinct (map fst kvs) \<and> list_all snd (map (map_prod id no_repeats) kvs))"

type_synonym json_file = "nat \<times> pyval option"

definition strict_json :: "nat \<Rightarrow> json_file \<Rightarrow> pyval option" where
  "strict_json limit f = (case f of (len, doc) \<Rightarrow>
     if len = 0 \<or> limit < len then None else case doc of None \<Rightarrow> None | Some v \<Rightarrow> if no_repeats v then Some v else None)"

definition max_authorization_bytes :: nat where
  "max_authorization_bytes = 256 * 1024"

definition release_signature :: "pyval option \<Rightarrow> bytes option" where
  "release_signature v = (case v of
     Some (PStr s) \<Rightarrow> if length s = 86 \<and> list_all (\<lambda>c. b64_value c \<noteq> None) s
       then Some (map of_nat (b64_groups (map (\<lambda>c. the (b64_value c)) s))) else None
   | _ \<Rightarrow> None)"

type_synonym ed25519 = "bytes \<Rightarrow> bytes \<Rightarrow> bytes \<Rightarrow> bool"

text \<open>
  The signatures in order: the signers whose signature verifies under a pinned key that no earlier one has
  used.  The flag is false when an entry raises; what was collected before stays.
\<close>

definition pinned_key :: "(string, bytes) dict \<Rightarrow> string \<Rightarrow> bytes option" where
  "pinned_key trust i = (case dict_get trust i of None \<Rightarrow> None | Some k \<Rightarrow> if length k = 32 then Some k else None)"

definition signature_holds :: "ed25519 \<Rightarrow> bytes \<Rightarrow> bytes \<Rightarrow> (string \<times> pyval) list \<Rightarrow> bool" where
  "signature_holds ed body public d = (case release_signature (dict_get d ''signature'') of None \<Rightarrow> False | Some sg \<Rightarrow> ed public body sg)"

fun count_signers :: "ed25519 \<Rightarrow> (string, bytes) dict \<Rightarrow> bytes \<Rightarrow> pyval list \<Rightarrow> string list \<Rightarrow> string list \<Rightarrow> string list \<Rightarrow> string list \<times> bool" where
  "count_signers ed trust body [] seen keys acc = (acc, True)"
| "count_signers ed trust body (entry # es) seen keys acc =
     (case exact_dict [''signer_id'', ''signature''] entry of
        None \<Rightarrow> (acc, False)
      | Some d \<Rightarrow>
        (case text_of (dict_get d ''signer_id'') of
           None \<Rightarrow> (acc, False)
         | Some i \<Rightarrow>
             if \<not> release_id i \<or> py_casefold i \<in> set seen then (acc, False)
             else (case pinned_key trust i of
               None \<Rightarrow> count_signers ed trust body es (py_casefold i # seen) keys acc
             | Some public \<Rightarrow>
                 if \<not> signature_holds ed body public d \<or> hex_text (sha256 public) \<in> set keys
                 then count_signers ed trust body es (py_casefold i # seen) keys acc
                 else count_signers ed trust body es (py_casefold i # seen) (hex_text (sha256 public) # keys) (acc @ [i]))))"

definition refuse :: "bool \<Rightarrow> release_error \<Rightarrow> release_error list" where
  "refuse c e = (if c then [e] else [])"

definition time_of :: "pyval \<Rightarrow> rat" where
  "time_of v = (case num_of v of None \<Rightarrow> 0 | Some r \<Rightarrow> r)"

definition version_less :: "string \<Rightarrow> string \<Rightarrow> bool" where
  "version_less a b = (case (version_of a, version_of b) of (Some x, Some y) \<Rightarrow> x < y | _ \<Rightarrow> False)"

definition release_checks :: "update_policy \<Rightarrow> rat \<Rightarrow> release_target \<Rightarrow> statement \<Rightarrow> string \<Rightarrow> nat \<Rightarrow> release_error list" where
  "release_checks p now t s digest n =
     refuse (int n < up_threshold p) ThresholdNotMet
   @ refuse (st_builder s \<notin> set (up_builders p)) BuilderNotAuthorized
   @ refuse (st_platform s \<noteq> rt_platform t) PlatformMismatch
   @ refuse (st_artifact s \<noteq> rt_artifact t) ArtifactMismatch
   @ refuse (st_sbom s \<noteq> rt_sbom t) SbomMismatch
   @ refuse (st_manifest s \<noteq> rt_manifest t) ManifestMismatch
   @ refuse (st_catalog s \<noteq> rt_catalog t) CatalogMismatch
   @ refuse (st_provenance s \<noteq> rt_provenance t) ProvenanceMismatch
   @ refuse (now + of_int (up_skew p) < time_of (st_issued s)) NotYetValid
   @ refuse (time_of (st_expires s) \<le> now) Expired
   @ refuse (of_int (up_validity p) < time_of (st_expires s) - time_of (st_issued s)) WindowTooLong
   @ refuse (version_less (st_version s) (rt_installed t)) Downgrade
   @ refuse (st_sequence s < rt_sequence t) SequenceBelowFloor
   @ refuse (version_less (st_version s) (rt_version t)) VersionBelowFloor
   @ refuse (st_sequence s = rt_sequence t \<and> 0 < rt_sequence t \<and> (rt_floor_digest t = [] \<or> digest \<noteq> rt_floor_digest t)) SequenceReused"

definition malformed :: "statement option \<Rightarrow> string list \<Rightarrow> string \<Rightarrow> release_result" where
  "malformed s signers digest = \<lparr>rr_errors = [Malformed], rr_statement = s, rr_signers = signers, rr_digest = digest\<rparr>"

definition verify_release :: "(rat \<Rightarrow> string) \<Rightarrow> ed25519 \<Rightarrow> json_file \<Rightarrow> (string, bytes) dict \<Rightarrow> update_policy \<Rightarrow> rat \<Rightarrow> release_target
    \<Rightarrow> release_result" where
  "verify_release flt ed raw trust p now t =
     (if now < 0 \<or> \<not> target_ok t then malformed None [] []
      else case strict_json max_authorization_bytes raw of
        None \<Rightarrow> malformed None [] []
      | Some v \<Rightarrow> (case exact_dict [''statement'', ''signatures''] v of
          None \<Rightarrow> malformed None [] []
        | Some env \<Rightarrow> (case exact_dict statement_fields (the (dict_get env ''statement'')) of
            None \<Rightarrow> malformed None [] []
          | Some d \<Rightarrow> (case read_statement d of
              None \<Rightarrow> malformed None [] []
            | Some s \<Rightarrow> (let digest = statement_sha256 flt s in
                case dict_get env ''signatures'' of
                  Some (PList es) \<Rightarrow>
                    if es = [] \<or> max_signatures < length es then malformed (Some s) [] digest
                    else (case count_signers ed trust (statement_bytes flt s) es [] [] [] of (signers, ok) \<Rightarrow>
                      if \<not> ok then malformed (Some s) signers digest
                      else \<lparr>rr_errors = release_checks p now t s digest (length signers), rr_statement = Some s, rr_signers = signers,
                        rr_digest = digest\<rparr>)
                | _ \<Rightarrow> malformed (Some s) [] digest)))))"

section \<open>The rollback floor\<close>

record release_floor =
  fl_sequence :: int
  fl_version :: string
  fl_digest :: string

definition floor_schema :: string where
  "floor_schema = ''angerona.release-floor/v1''"

definition make_floor :: "pyval option \<Rightarrow> pyval option \<Rightarrow> pyval option \<Rightarrow> release_floor option" where
  "make_floor n v d = (case (n, text_of v, digest_of d) of
     (Some (PInt i), Some version, Some digest) \<Rightarrow>
       if i < 1 \<or> version_of version = None then None else Some \<lparr>fl_sequence = i, fl_version = version, fl_digest = digest\<rparr>
   | _ \<Rightarrow> None)"

definition floor_core_keys :: "string list" where
  "floor_core_keys = [''schema'', ''highest_sequence'', ''highest_version'', ''statement_sha256'']"

definition floor_mac :: "(rat \<Rightarrow> string) \<Rightarrow> bytes \<Rightarrow> pyval \<Rightarrow> string" where
  "floor_mac flt key core = hex_text (hmac_sha256 key (utf8 (json_text False flt (json_sorted core))))"

datatype floor_file = NoFloor | NotRegular | FloorText json_file

definition max_floor_bytes :: nat where
  "max_floor_bytes = 16 * 1024"

definition load_floor :: "(rat \<Rightarrow> string) \<Rightarrow> bytes \<Rightarrow> floor_file \<Rightarrow> unit + release_floor option" where
  "load_floor flt key f = (case f of
     NoFloor \<Rightarrow> Inr None
   | NotRegular \<Rightarrow> Inl ()
   | FloorText raw \<Rightarrow> (case strict_json max_floor_bytes raw of
       None \<Rightarrow> Inl ()
     | Some v \<Rightarrow> (case exact_dict (floor_core_keys @ [''mac'']) v of
         None \<Rightarrow> Inl ()
       | Some d \<Rightarrow>
           (let core = PDict (map (\<lambda>k. (k, the (dict_get d k))) floor_core_keys) in
            if dict_get d ''schema'' \<noteq> Some (PStr floor_schema) \<or> dict_get d ''mac'' \<noteq> Some (PStr (floor_mac flt key core)) then Inl ()
            else case make_floor (dict_get d ''highest_sequence'') (dict_get d ''highest_version'') (dict_get d ''statement_sha256'') of
              None \<Rightarrow> Inl ()
            | Some fl \<Rightarrow> Inr (Some fl)))))"

definition floor_core :: "release_floor \<Rightarrow> (string \<times> pyval) list" where
  "floor_core fl = [(''schema'', PStr floor_schema), (''highest_sequence'', PInt (fl_sequence fl)), (''highest_version'', PStr (fl_version fl)),
     (''statement_sha256'', PStr (fl_digest fl))]"

definition floor_document :: "(rat \<Rightarrow> string) \<Rightarrow> bytes \<Rightarrow> release_floor \<Rightarrow> pyval" where
  "floor_document flt key fl = PDict (floor_core fl @ [(''mac'', PStr (floor_mac flt key (PDict (floor_core fl))))])"

definition floor_text :: "(rat \<Rightarrow> string) \<Rightarrow> bytes \<Rightarrow> release_floor \<Rightarrow> floor_file" where
  "floor_text flt key fl = FloorText (length (utf8 (json_text False flt (json_sorted (floor_document flt key fl)))),
     Some (json_sorted (floor_document flt key fl)))"

text \<open>\<open>written\<close>: the new file replaces the old one; otherwise the call raises and the old file stays.\<close>

definition advance_floor :: "(rat \<Rightarrow> string) \<Rightarrow> bytes \<Rightarrow> release_result \<Rightarrow> bool \<Rightarrow> (floor_file, unit, release_floor) oper" where
  "advance_floor flt key r written f =
     (case rr_statement r of
        None \<Rightarrow> (f, Inl ())
      | Some s \<Rightarrow>
        if \<not> rr_valid r then (f, Inl ())
        else (case make_floor (Some (PInt (st_sequence s))) (Some (PStr (st_version s))) (Some (PStr (rr_digest r))) of
          None \<Rightarrow> (f, Inl ())
        | Some new \<Rightarrow> (case load_floor flt key f of
            Inl _ \<Rightarrow> (f, Inl ())
          | Inr (Some old) \<Rightarrow>
              if fl_sequence new < fl_sequence old \<or> version_less (fl_version new) (fl_version old) then (f, Inl ())
              else if fl_sequence new = fl_sequence old then (f, if new \<noteq> old then Inl () else Inr old)
              else if written then (floor_text flt key new, Inr new) else (f, Inl ())
          | Inr None \<Rightarrow> if written then (floor_text flt key new, Inr new) else (f, Inl ()))))"

text \<open>\<open>observe_once\<close> of the release guard: verify against the loaded floor, then advance it.\<close>

definition floor_target :: "release_target \<Rightarrow> release_floor option \<Rightarrow> release_target" where
  "floor_target t fl = (case fl of
     None \<Rightarrow> t\<lparr>rt_sequence := 0, rt_version := ''0.0.0'', rt_floor_digest := []\<rparr>
   | Some fl \<Rightarrow> t\<lparr>rt_sequence := fl_sequence fl, rt_version := fl_version fl, rt_floor_digest := fl_digest fl\<rparr>)"

definition observe_release :: "(rat \<Rightarrow> string) \<Rightarrow> ed25519 \<Rightarrow> bytes \<Rightarrow> json_file \<Rightarrow> (string, bytes) dict \<Rightarrow> update_policy \<Rightarrow> rat \<Rightarrow> release_target
    \<Rightarrow> bool \<Rightarrow> bool \<Rightarrow> (floor_file, unit, release_result) oper" where
  "observe_release flt ed key raw trust p now t payload_ok written f =
     (case load_floor flt key f of
        Inl _ \<Rightarrow> (f, Inl ())
      | Inr fl \<Rightarrow>
        (let r0 = verify_release flt ed raw trust p now (floor_target t fl);
             r = (if payload_ok then r0 else r0\<lparr>rr_errors := rr_errors r0 @ [Malformed]\<rparr>)
         in if rr_valid r then (case advance_floor flt key r written f of (f', Inl _) \<Rightarrow> (f', Inl ()) | (f', Inr _) \<Rightarrow> (f', Inr r))
            else (f, Inr r)))"

section \<open>The payload manifest\<close>

fun slash_join :: "string list \<Rightarrow> string" where
  "slash_join [] = ''.''"
| "slash_join [p] = p"
| "slash_join (p # q # ps) = p @ CHR ''/'' # slash_join (q # ps)"

text \<open>The parts of \<open>PurePosixPath\<close>: empty parts and single dots vanish.\<close>

definition posix_parts :: "string \<Rightarrow> string list" where
  "posix_parts s = filter (\<lambda>p. p \<noteq> [] \<and> p \<noteq> ''.'') (split_on (CHR ''/'') s)"

definition payload_path :: "pyval option \<Rightarrow> string option" where
  "payload_path v = (case v of
     Some (PStr s) \<Rightarrow>
       if s = [] \<or> 240 < length s \<or> CHR 0x5C \<in> set s \<or> CHR 0x00 \<in> set s \<or> CHR '':'' \<in> set s
         \<or> starts_with ''/'' s \<or> ''..'' \<in> set (posix_parts s) \<or> slash_join (posix_parts s) \<noteq> s
       then None else Some s
   | _ \<Rightarrow> None)"

record payload_entry =
  pe_path :: string
  pe_digest :: string
  pe_size :: int

fun read_entries :: "pyval list \<Rightarrow> string \<Rightarrow> string list \<Rightarrow> payload_entry list option" where
  "read_entries [] previous seen = Some []"
| "read_entries (entry # es) previous seen =
     (case exact_dict [''path'', ''sha256'', ''size''] entry of
        None \<Rightarrow> None
      | Some d \<Rightarrow>
        (case payload_path (dict_get d ''path'') of
           None \<Rightarrow> None
         | Some path \<Rightarrow>
             if py_casefold path \<in> set seen \<or> (previous \<noteq> [] \<and> path \<le> previous) then None
             else (case (digest_of (dict_get d ''sha256''), dict_get d ''size'') of
               (Some digest, Some (PInt n)) \<Rightarrow>
                 if n < 0 \<or> 2 ^ 63 - 1 < n then None
                 else map_option (\<lambda>ps. \<lparr>pe_path = path, pe_digest = digest, pe_size = n\<rparr> # ps) (read_entries es path (py_casefold path # seen))
             | _ \<Rightarrow> None)))"

definition max_manifest_bytes :: nat where
  "max_manifest_bytes = 2 * 1024 * 1024"

definition max_payload_files :: nat where
  "max_payload_files = 4096"

definition load_payload_manifest :: "json_file \<Rightarrow> payload_entry list option" where
  "load_payload_manifest raw = (case strict_json max_manifest_bytes raw of
     None \<Rightarrow> None
   | Some v \<Rightarrow> (case exact_dict [''schema'', ''files''] v of
       None \<Rightarrow> None
     | Some d \<Rightarrow>
         if dict_get d ''schema'' \<noteq> Some (PStr ''angerona.release-payload/v1'') then None
         else (case dict_get d ''files'' of
           Some (PList es) \<Rightarrow> if es = [] \<or> max_payload_files < length es then None else read_entries es [] []
         | _ \<Rightarrow> None)))"

text \<open>The installed tree, by the parts of a path below its root.\<close>

record payload_tree =
  pt_root :: bool
  pt_linked :: "string list \<Rightarrow> bool"
  pt_file :: "string list \<Rightarrow> bool"
  pt_size :: "string list \<Rightarrow> int"
  pt_inside :: "string list \<Rightarrow> bool"
  pt_digest :: "string list \<Rightarrow> string"

definition entry_present :: "payload_tree \<Rightarrow> payload_entry \<Rightarrow> bool" where
  "entry_present t e \<longleftrightarrow> (let parts = posix_parts (pe_path e) in
     list_all (\<lambda>k. \<not> pt_linked t (take k parts)) [1..<length parts]
   \<and> \<not> pt_linked t parts \<and> pt_file t parts \<and> pt_size t parts = pe_size e \<and> pt_inside t parts \<and> pt_digest t parts = pe_digest e)"

text \<open>True when no error is reported.\<close>

definition verify_payload :: "json_file \<Rightarrow> payload_tree \<Rightarrow> bool" where
  "verify_payload raw t \<longleftrightarrow> pt_root t
     \<and> (case load_payload_manifest raw of None \<Rightarrow> False | Some es \<Rightarrow> list_all (entry_present t) es)"

section \<open>What acceptance means\<close>

lemma refuse_Nil [simp]: "refuse c e = [] \<longleftrightarrow> \<not> c"
  by (simp add: refuse_def)

text \<open>The keys behind the counted signers.\<close>

definition key_digest :: "(string, bytes) dict \<Rightarrow> string \<Rightarrow> string" where
  "key_digest trust i = hex_text (sha256 (the (pinned_key trust i)))"

definition signed_by :: "ed25519 \<Rightarrow> (string, bytes) dict \<Rightarrow> bytes \<Rightarrow> pyval list \<Rightarrow> string \<Rightarrow> bool" where
  "signed_by ed trust body es i \<longleftrightarrow> (\<exists>public d. pinned_key trust i = Some public \<and> PDict d \<in> set es
     \<and> dict_get d ''signer_id'' = Some (PStr i) \<and> signature_holds ed body public d)"

lemma text_of_Some: "text_of v = Some s \<longleftrightarrow> v = Some (PStr s)"
  by (auto simp: text_of_def split: option.splits pyval.splits)

lemma exact_dict_Some: "exact_dict ks v = Some d \<longleftrightarrow> v = PDict d \<and> set (dict_keys d) = set ks"
  by (auto simp: exact_dict_def split: pyval.splits if_splits)

lemma count_sound:
  assumes "count_signers ed trust body es seen keys acc = (signers, ok)"
    and "set (map (key_digest trust) acc) = set keys" and "distinct (map (key_digest trust) acc)"
    and "\<And>i. i \<in> set acc \<Longrightarrow> signed_by ed trust body (before @ es) i"
  shows "distinct (map (key_digest trust) signers) \<and> (\<forall>i \<in> set signers. signed_by ed trust body (before @ es) i)"
  using assms
proof (induction es arbitrary: seen keys acc before)
  case (Cons entry es)
  have later: "signed_by ed trust body ((before @ [entry]) @ es) i" if "signed_by ed trust body (before @ entry # es) i" for i
    using that by simp
  consider (stop) "signers = acc"
    | (skip) seen' where "count_signers ed trust body es seen' keys acc = (signers, ok)"
    | (count) d i public seen' where "entry = PDict d" "dict_get d ''signer_id'' = Some (PStr i)" "pinned_key trust i = Some public"
        "signature_holds ed body public d" "hex_text (sha256 public) \<notin> set keys"
        "count_signers ed trust body es seen' (hex_text (sha256 public) # keys) (acc @ [i]) = (signers, ok)"
    using Cons.prems(1) by (auto simp: exact_dict_Some text_of_Some split: option.splits if_splits)
  then show ?case
  proof cases
    case stop
    with Cons.prems(3,4) show ?thesis by blast
  next
    case skip
    from Cons.IH [OF skip Cons.prems(2,3), of "before @ [entry]"] Cons.prems(4) show ?thesis
      by simp
  next
    case (count d i public seen')
    have k: "key_digest trust i = hex_text (sha256 public)"
      using count(3) by (simp add: key_digest_def)
    have "signed_by ed trust body (before @ entry # es) i"
      unfolding signed_by_def using count(1-4) by (intro exI [of _ public] exI [of _ d]) simp
    then have "signed_by ed trust body ((before @ [entry]) @ es) j" if "j \<in> set (acc @ [i])" for j
      using that Cons.prems(4) by auto
    moreover have "set (map (key_digest trust) (acc @ [i])) = set (hex_text (sha256 public) # keys)"
      using Cons.prems(2) k by auto
    moreover have "distinct (map (key_digest trust) (acc @ [i]))"
      using Cons.prems(2,3) k count(5) by auto
    ultimately have "distinct (map (key_digest trust) signers) \<and> (\<forall>j \<in> set signers. signed_by ed trust body ((before @ [entry]) @ es) j)"
      by (intro Cons.IH [OF count(6)])
    then show ?thesis by simp
  qed
qed simp

text \<open>The statement and the signatures a document carries.\<close>

definition carries :: "json_file \<Rightarrow> statement \<Rightarrow> pyval list \<Rightarrow> bool" where
  "carries raw s es \<longleftrightarrow> (\<exists>env d. snd raw = Some (PDict env) \<and> dict_get env ''statement'' = Some (PDict d) \<and> read_statement d = Some s
     \<and> dict_get env ''signatures'' = Some (PList es))"

lemma strict_json_Some: "strict_json n raw = Some v \<Longrightarrow> snd raw = Some v \<and> no_repeats v"
  by (auto simp: strict_json_def split: prod.splits if_splits option.splits)

lemma verify_release_valid:
  assumes "rr_valid (verify_release flt ed raw trust p now t)"
  shows "\<exists>s es. carries raw s es \<and> rr_statement (verify_release flt ed raw trust p now t) = Some s
    \<and> rr_digest (verify_release flt ed raw trust p now t) = statement_sha256 flt s
    \<and> release_checks p now t s (statement_sha256 flt s) (length (rr_signers (verify_release flt ed raw trust p now t))) = []
    \<and> count_signers ed trust (statement_bytes flt s) es [] [] [] = (rr_signers (verify_release flt ed raw trust p now t), True)
    \<and> target_ok t"
proof -
  have m: "\<not> rr_valid (malformed x y z)" for x y z
    by (simp add: rr_valid_def malformed_def)
  obtain v env d s es where o: "\<not> (now < 0 \<or> \<not> target_ok t)" "strict_json max_authorization_bytes raw = Some v"
      "exact_dict [''statement'', ''signatures''] v = Some env" "exact_dict statement_fields (the (dict_get env ''statement'')) = Some d"
      "read_statement d = Some s" "dict_get env ''signatures'' = Some (PList es)" "\<not> (es = [] \<or> max_signatures < length es)"
    using assms m by (auto simp: verify_release_def Let_def split: if_splits option.splits pyval.splits)
  obtain signers ok where c: "count_signers ed trust (statement_bytes flt s) es [] [] [] = (signers, ok)"
    by fastforce
  with assms o m have "ok"
    by (simp add: verify_release_def Let_def split: if_splits)
  with o c have r: "verify_release flt ed raw trust p now t = \<lparr>rr_errors = release_checks p now t s (statement_sha256 flt s) (length signers),
      rr_statement = Some s, rr_signers = signers, rr_digest = statement_sha256 flt s\<rparr>"
    by (simp add: verify_release_def Let_def)
  have "dict_get env ''statement'' \<noteq> None"
    using o(3) unfolding exact_dict_Some dict_get_keys by simp
  then obtain sv where sv: "dict_get env ''statement'' = Some sv"
    by blast
  then have "sv = PDict d"
    using o(4) unfolding exact_dict_Some by simp
  moreover have "snd raw = Some (PDict env)"
    using strict_json_Some [OF o(2)] o(3) unfolding exact_dict_Some by blast
  ultimately have "carries raw s es"
    unfolding carries_def using sv o(5,6) by blast
  moreover have "release_checks p now t s (statement_sha256 flt s) (length signers) = []"
    using assms unfolding r by (simp add: rr_valid_def)
  ultimately show ?thesis
    unfolding r using c o(1) \<open>ok\<close> by (intro exI [of _ s] exI [of _ es]) simp
qed

text \<open>C9: A release that verifies is authorized: a threshold of signers, whose pinned keys differ pairwise, have
signed its statement; the statement names the expected platform and the digests of artifact, SBOM, manifest,
catalog and provenance, an authorized builder and a current validity window; and it is neither older than what
is installed nor below the rollback floor, nor a second statement under the floor's sequence.\<close>

theorem verified_release_authorized:
  assumes "rr_valid (verify_release flt ed raw trust p now t)"
  shows "\<exists>s es. carries raw s es \<and> rr_statement (verify_release flt ed raw trust p now t) = Some s
    \<and> up_threshold p \<le> int (length (rr_signers (verify_release flt ed raw trust p now t)))
    \<and> distinct (map (key_digest trust) (rr_signers (verify_release flt ed raw trust p now t)))
    \<and> (\<forall>i \<in> set (rr_signers (verify_release flt ed raw trust p now t)). signed_by ed trust (statement_bytes flt s) es i)
    \<and> st_platform s = rt_platform t \<and> st_artifact s = rt_artifact t \<and> st_sbom s = rt_sbom t \<and> st_manifest s = rt_manifest t
    \<and> st_catalog s = rt_catalog t \<and> st_provenance s = rt_provenance t \<and> st_builder s \<in> set (up_builders p)
    \<and> time_of (st_issued s) \<le> now + of_int (up_skew p) \<and> now < time_of (st_expires s)
    \<and> \<not> version_less (st_version s) (rt_installed t) \<and> \<not> version_less (st_version s) (rt_version t)
    \<and> rt_sequence t \<le> st_sequence s
    \<and> (st_sequence s = rt_sequence t \<longrightarrow> statement_sha256 flt s = rt_floor_digest t)"
proof -
  obtain s es where v: "carries raw s es" "rr_statement (verify_release flt ed raw trust p now t) = Some s"
      "release_checks p now t s (statement_sha256 flt s) (length (rr_signers (verify_release flt ed raw trust p now t))) = []"
      "count_signers ed trust (statement_bytes flt s) es [] [] [] = (rr_signers (verify_release flt ed raw trust p now t), True)"
    using verify_release_valid [OF assms] by blast
  have "1 \<le> st_sequence s"
    using v(1) by (auto simp: carries_def read_statement_def split: if_splits option.splits pyval.splits)
  moreover have "distinct (map (key_digest trust) (rr_signers (verify_release flt ed raw trust p now t)))
      \<and> (\<forall>i \<in> set (rr_signers (verify_release flt ed raw trust p now t)). signed_by ed trust (statement_bytes flt s) ([] @ es) i)"
    by (rule count_sound [OF v(4)]) simp_all
  ultimately show ?thesis
    using v(1-3) by (intro exI [of _ s] exI [of _ es]) (auto simp: release_checks_def)
qed


section \<open>The floor never falls\<close>

lemma distinct_sorted_keys: "distinct (map fst d) \<Longrightarrow> distinct (map fst (sort_key fst d))"
  by (simp add: distinct_map)

lemma dict_get_sorted:
  assumes "distinct (map fst d)"
  shows "dict_get (sort_key fst d) k = dict_get d k"
proof (cases "dict_get d k")
  case None
  then have "dict_get (sort_key fst d) k = None"
    by (simp add: map_of_eq_None_iff)
  with None show ?thesis by simp
next
  case (Some v)
  have "distinct (map fst (sort_key fst d))"
    by (rule distinct_sorted_keys [OF assms])
  moreover have "(k, v) \<in> set (sort_key fst d)"
    using dict_get_in [OF Some] by simp
  ultimately show ?thesis
    using Some by (simp add: map_of_is_SomeI)
qed

definition floor_ok :: "release_floor \<Rightarrow> bool" where
  "floor_ok fl \<longleftrightarrow> 1 \<le> fl_sequence fl \<and> version_of (fl_version fl) \<noteq> None \<and> hex_of_length 64 (fl_digest fl)"

lemma make_floor_Some: "make_floor n v d = Some fl \<Longrightarrow> floor_ok fl \<and> n = Some (PInt (fl_sequence fl)) \<and> v = Some (PStr (fl_version fl)) \<and> d = Some (PStr (fl_digest fl))"
  by (auto simp: make_floor_def floor_ok_def text_of_def digest_of_def split: option.splits pyval.splits if_splits)

text \<open>A floor is read back as it was written, unless its text exceeds the byte budget of the file.\<close>

definition floor_bytes :: "(rat \<Rightarrow> string) \<Rightarrow> bytes \<Rightarrow> release_floor \<Rightarrow> nat" where
  "floor_bytes flt key fl = length (utf8 (json_text False flt (json_sorted (floor_document flt key fl))))"

lemma load_text_exact:
  "floor_ok fl \<Longrightarrow> load_floor flt key (floor_text flt key fl) = (if floor_bytes flt key fl \<le> max_floor_bytes then Inr (Some fl) else Inl ())"
proof -
  assume fl: "floor_ok fl"
  define d where "d = sort_key fst (floor_core fl @ [(''mac'', PStr (floor_mac flt key (PDict (floor_core fl))))])"
  let ?raw = "floor_core fl @ [(''mac'', PStr (floor_mac flt key (PDict (floor_core fl))))]"
  have doc: "json_sorted (floor_document flt key fl) = PDict d"
    by (simp add: floor_document_def d_def floor_core_def)
  have dist: "distinct (map fst ?raw)"
    by (simp add: floor_core_def)
  have get: "dict_get d k = dict_get ?raw k" for k
    unfolding d_def by (rule dict_get_sorted [OF dist])
  have "set (dict_keys d) = set (map fst ?raw)"
    by (simp add: d_def)
  then have ex: "exact_dict (floor_core_keys @ [''mac'']) (PDict d) = Some d"
    by (auto simp: exact_dict_Some floor_core_def floor_core_keys_def)
  have core: "map (\<lambda>k. (k, the (dict_get d k))) floor_core_keys = floor_core fl"
    by (simp add: get floor_core_keys_def floor_core_def)
  have "make_floor (dict_get d ''highest_sequence'') (dict_get d ''highest_version'') (dict_get d ''statement_sha256'') = Some fl"
    using fl by (simp add: get floor_core_def make_floor_def text_of_def digest_of_def floor_ok_def)
  moreover have "dict_get d ''schema'' = Some (PStr floor_schema)" "dict_get d ''mac'' = Some (PStr (floor_mac flt key (PDict (floor_core fl))))"
    by (simp_all add: get floor_core_def)
  moreover have "no_repeats (PDict d)"
  proof -
    have "distinct (map fst d)"
      unfolding d_def by (rule distinct_sorted_keys [OF dist])
    moreover have "set d = set ?raw"
      by (simp add: d_def)
    ultimately show ?thesis
      by (simp add: list_all_iff floor_core_def)
  qed
  moreover have "length (utf8 (json_text False flt (PDict d))) \<noteq> 0"
    by (simp add: utf8_def utf8_char_def)
  ultimately show ?thesis
    unfolding floor_text_def floor_bytes_def doc load_floor_def floor_file.case strict_json_def prod.case option.case
    by (simp add: ex core)
qed

lemma load_text: "floor_ok fl \<Longrightarrow> load_floor flt key (floor_text flt key fl) = Inr (Some fl) \<or> load_floor flt key (floor_text flt key fl) = Inl ()"
  by (simp add: load_text_exact)

lemma load_ok: "load_floor flt key f = Inr (Some fl) \<Longrightarrow> floor_ok fl"
  by (auto simp: load_floor_def Let_def split: floor_file.splits option.splits if_splits dest: make_floor_Some)

definition floor_le :: "release_floor \<Rightarrow> release_floor \<Rightarrow> bool" where
  "floor_le old new \<longleftrightarrow> fl_sequence old \<le> fl_sequence new \<and> \<not> version_less (fl_version new) (fl_version old)
     \<and> (fl_sequence old = fl_sequence new \<longrightarrow> old = new)"

lemma floor_le_refl [simp]: "floor_le fl fl"
  by (simp add: floor_le_def version_less_def split: option.split)

lemma floor_le_trans: "floor_ok b \<Longrightarrow> floor_le a b \<Longrightarrow> floor_le b c \<Longrightarrow> floor_le a c"
  unfolding floor_le_def floor_ok_def version_less_def by (auto split: option.splits)

text \<open>The floor of the file is at least \<open>fl\<close>, or the file is refused for good.\<close>

definition floor_at_least :: "(rat \<Rightarrow> string) \<Rightarrow> bytes \<Rightarrow> release_floor \<Rightarrow> floor_file \<Rightarrow> bool" where
  "floor_at_least flt key fl f \<longleftrightarrow> load_floor flt key f = Inl () \<or> (\<exists>new. load_floor flt key f = Inr (Some new) \<and> floor_le fl new)"

lemma advance_cases:
  "fst (advance_floor flt key r written f) = f
   \<or> (\<exists>new. fst (advance_floor flt key r written f) = floor_text flt key new \<and> floor_ok new
       \<and> (\<forall>old. load_floor flt key f = Inr (Some old) \<longrightarrow> floor_le old new))"
proof (cases "fst (advance_floor flt key r written f) = f")
  case False
  then obtain s new where s: "rr_statement r = Some s" "rr_valid r" "written"
      "make_floor (Some (PInt (st_sequence s))) (Some (PStr (st_version s))) (Some (PStr (rr_digest r))) = Some new"
    by (auto simp: advance_floor_def split: option.splits if_splits sum.splits)
  have ok: "floor_ok new"
    using make_floor_Some [OF s(4)] by simp
  consider "load_floor flt key f = Inr None" | old where "load_floor flt key f = Inr (Some old)"
    using False s by (auto simp: advance_floor_def split: sum.splits option.splits)
  then show ?thesis
  proof cases
    case 1
    then show ?thesis
      using s ok by (auto simp: advance_floor_def)
  next
    case (2 old)
    then have "\<not> (fl_sequence new < fl_sequence old \<or> version_less (fl_version new) (fl_version old))" "fl_sequence new \<noteq> fl_sequence old"
      using s False by (auto simp: advance_floor_def split: if_splits)
    then have "fst (advance_floor flt key r written f) = floor_text flt key new" "floor_le old new"
      using s 2 by (simp_all add: advance_floor_def floor_le_def)
    with ok 2 show ?thesis by auto
  qed
qed simp

lemma advance_at_least:
  assumes "floor_at_least flt key fl f"
  shows "floor_at_least flt key fl (fst (advance_floor flt key r written f))"
proof (cases "load_floor flt key f")
  case (Inl u)
  then show ?thesis
    using assms by (auto simp: advance_floor_def split: option.split)
next
  case (Inr x)
  with assms obtain old where old: "load_floor flt key f = Inr (Some old)" "floor_le fl old"
    by (auto simp: floor_at_least_def)
  from advance_cases [of flt key r written f] show ?thesis
  proof (elim disjE exE conjE)
    fix new
    assume n: "fst (advance_floor flt key r written f) = floor_text flt key new" "floor_ok new"
      "\<forall>old. load_floor flt key f = Inr (Some old) \<longrightarrow> floor_le old new"
    then have "floor_le fl new"
      using old floor_le_trans [OF load_ok [OF old(1)]] by blast
    then show ?thesis
      using load_text [OF n(2), of flt key] by (auto simp: floor_at_least_def n(1))
  qed (use assms in simp)
qed

section \<open>Runs of the release guard\<close>

datatype guard_event = ObserveRelease json_file "(string, bytes) dict" update_policy rat release_target bool bool

fun guard_step :: "(rat \<Rightarrow> string) \<Rightarrow> ed25519 \<Rightarrow> bytes \<Rightarrow> floor_file \<Rightarrow> guard_event \<Rightarrow> floor_file" where
  "guard_step flt ed key f (ObserveRelease raw trust p now t payload_ok written) =
     fst (observe_release flt ed key raw trust p now t payload_ok written f)"

lemma observe_at_least: "floor_at_least flt key fl f \<Longrightarrow> floor_at_least flt key fl (guard_step flt ed key f e)"
proof (cases e)
  case (ObserveRelease raw trust p now t payload_ok written)
  assume f: "floor_at_least flt key fl f"
  have "fst (observe_release flt ed key raw trust p now t payload_ok written f) = f
      \<or> (\<exists>r. fst (observe_release flt ed key raw trust p now t payload_ok written f) = fst (advance_floor flt key r written f))"
    by (auto simp: observe_release_def Let_def split: sum.split prod.split) (metis fst_conv)+
  with f advance_at_least [OF f] ObserveRelease show ?thesis by auto
qed

interpretation guard: machine "guard_step flt ed key" "floor_at_least flt key fl" for flt ed key fl
  by unfold_locales (rule observe_at_least)

lemma floor_at_least_load: "load_floor flt key f = Inr (Some fl) \<Longrightarrow> floor_at_least flt key fl f"
  by (auto simp: floor_at_least_def)

lemma observe_accepts:
  assumes "observe_release flt ed key raw trust p now t payload_ok written f = (f', Inr r)" and "rr_valid r"
  shows "\<exists>cur new. load_floor flt key f = Inr cur \<and> r = verify_release flt ed raw trust p now (floor_target t cur) \<and> payload_ok
    \<and> advance_floor flt key r written f = (f', Inr new)"
proof -
  obtain cur where cur: "load_floor flt key f = Inr cur"
    using assms(1) by (auto simp: observe_release_def split: sum.splits)
  have payload: "payload_ok"
    using assms cur by (auto simp: observe_release_def rr_valid_def Let_def split: if_splits)
  with assms cur show ?thesis
    by (auto simp: observe_release_def Let_def split: if_splits prod.splits sum.splits)
qed

lemma advance_floor_is:
  assumes "advance_floor flt key r written f = (f', Inr new)" and "rr_statement r = Some s"
  shows "fl_sequence new = st_sequence s \<and> fl_version new = st_version s \<and> fl_digest new = rr_digest r \<and> floor_ok new
    \<and> floor_at_least flt key new f'"
proof -
  obtain m where m: "make_floor (Some (PInt (st_sequence s))) (Some (PStr (st_version s))) (Some (PStr (rr_digest r))) = Some m"
    using assms by (auto simp: advance_floor_def split: option.splits if_splits)
  have ok: "floor_ok m" "fl_sequence m = st_sequence s" "fl_version m = st_version s" "fl_digest m = rr_digest r"
    using make_floor_Some [OF m] by auto
  have "new = m \<and> (f' = floor_text flt key m \<or> f' = f \<and> load_floor flt key f = Inr (Some m))"
    using assms m by (auto simp: advance_floor_def split: if_splits sum.splits option.splits)
  with ok load_text [OF ok(1), of flt key] show ?thesis
    by (auto simp: floor_at_least_def)
qed

lemma accepted_checks:
  assumes "rr_valid (verify_release flt ed raw trust p now t)"
  shows "\<exists>s. rr_statement (verify_release flt ed raw trust p now t) = Some s
    \<and> rr_digest (verify_release flt ed raw trust p now t) = statement_sha256 flt s \<and> rt_sequence t \<le> st_sequence s
    \<and> \<not> version_less (st_version s) (rt_version t)
    \<and> (st_sequence s = rt_sequence t \<and> 0 < rt_sequence t \<longrightarrow> statement_sha256 flt s = rt_floor_digest t)"
proof -
  obtain s where s: "rr_statement (verify_release flt ed raw trust p now t) = Some s"
      "rr_digest (verify_release flt ed raw trust p now t) = statement_sha256 flt s"
      "release_checks p now t s (statement_sha256 flt s) (length (rr_signers (verify_release flt ed raw trust p now t))) = []"
    using verify_release_valid [OF assms] by blast
  have "rt_sequence t \<le> st_sequence s" "\<not> version_less (st_version s) (rt_version t)"
      "st_sequence s = rt_sequence t \<and> 0 < rt_sequence t \<longrightarrow> statement_sha256 flt s = rt_floor_digest t"
    using s(3) by (simp_all add: release_checks_def)
  with s(1,2) show ?thesis by blast
qed

text \<open>C10: The rollback floor never falls.  Whatever releases, trust stores, clocks and write failures a run of
the guard meets, a floor that was once loaded is never followed by one with a smaller sequence, an older
version or another statement under the same sequence, nor by no floor at all.\<close>

theorem floor_never_falls:
  assumes "load_floor flt key f = Inr (Some old)" and "load_floor flt key (foldl (guard_step flt ed key) f es) = Inr cur"
  shows "case cur of None \<Rightarrow> False | Some new \<Rightarrow> fl_sequence old \<le> fl_sequence new \<and> \<not> version_less (fl_version new) (fl_version old)
    \<and> (fl_sequence old = fl_sequence new \<longrightarrow> old = new)"
  using guard.inv_run [OF floor_at_least_load [OF assms(1)], of ed es] assms(2) by (auto simp: floor_at_least_def floor_le_def)

text \<open>C11: Releases are accepted in order.  Of two observations that accept, with any others between them, the later
one accepts a statement of no smaller sequence and no older version, and under the same sequence only the same
statement.\<close>

theorem accepted_releases_ordered:
  assumes "observe_release flt ed key raw1 trust1 p1 now1 t1 ok1 w1 f = (f1, Inr r1)" and "rr_valid r1" and "rr_statement r1 = Some s1"
    and "observe_release flt ed key raw2 trust2 p2 now2 t2 ok2 w2 (foldl (guard_step flt ed key) f1 es) = (f2, Inr r2)"
    and "rr_valid r2" and "rr_statement r2 = Some s2"
  shows "st_sequence s1 \<le> st_sequence s2 \<and> \<not> version_less (st_version s2) (st_version s1)
    \<and> (st_sequence s1 = st_sequence s2 \<longrightarrow> statement_sha256 flt s1 = statement_sha256 flt s2)"
proof -
  obtain cur1 fl where o1: "r1 = verify_release flt ed raw1 trust1 p1 now1 (floor_target t1 cur1)" "advance_floor flt key r1 w1 f = (f1, Inr fl)"
    using observe_accepts [OF assms(1,2)] by blast
  have d1: "rr_digest r1 = statement_sha256 flt s1"
    using accepted_checks [of flt ed raw1 trust1 p1 now1 "floor_target t1 cur1"] assms(2,3) o1(1) by auto
  have fl: "fl_sequence fl = st_sequence s1" "fl_version fl = st_version s1" "fl_digest fl = statement_sha256 flt s1" "floor_ok fl"
      "floor_at_least flt key fl f1"
    using advance_floor_is [OF o1(2) assms(3)] d1 by simp_all
  obtain cur where o2: "load_floor flt key (foldl (guard_step flt ed key) f1 es) = Inr cur"
      "r2 = verify_release flt ed raw2 trust2 p2 now2 (floor_target t2 cur)"
    using observe_accepts [OF assms(4,5)] by blast
  then obtain new where new: "cur = Some new" "floor_le fl new"
    using guard.inv_run [OF fl(5), of ed es] by (auto simp: floor_at_least_def)
  have ok: "floor_ok new"
    using load_ok o2(1) new(1) by blast
  have c: "fl_sequence new \<le> st_sequence s2" "\<not> version_less (st_version s2) (fl_version new)"
      "st_sequence s2 = fl_sequence new \<longrightarrow> statement_sha256 flt s2 = fl_digest new"
    using accepted_checks [of flt ed raw2 trust2 p2 now2 "floor_target t2 cur"] assms(5,6) o2(2) new(1) ok
    by (auto simp: floor_target_def floor_ok_def)
  have "\<not> version_less (st_version s2) (st_version s1)"
    using c(2) new(2) ok fl(2) by (auto simp: floor_le_def floor_ok_def version_less_def split: option.splits)
  then show ?thesis
    using c fl new(2) by (auto simp: floor_le_def)
qed

section \<open>Payloads\<close>

lemma entries_sound:
  assumes "read_entries es previous seen = Some ps"
  shows "(\<forall>e \<in> set ps. payload_path (Some (PStr (pe_path e))) = Some (pe_path e) \<and> hex_of_length 64 (pe_digest e) \<and> 0 \<le> pe_size e
      \<and> py_casefold (pe_path e) \<notin> set seen \<and> (previous \<noteq> [] \<longrightarrow> previous < pe_path e))
    \<and> sorted_wrt (<) (map pe_path ps) \<and> distinct (map (\<lambda>e. py_casefold (pe_path e)) ps)"
  using assms
proof (induction es arbitrary: previous seen ps)
  case (Cons entry es)
  obtain d path digest n qs where o: "payload_path (dict_get d ''path'') = Some path"
      "\<not> (py_casefold path \<in> set seen \<or> (previous \<noteq> [] \<and> path \<le> previous))" "digest_of (dict_get d ''sha256'') = Some digest" "0 \<le> n"
      "read_entries es path (py_casefold path # seen) = Some qs" "ps = \<lparr>pe_path = path, pe_digest = digest, pe_size = n\<rparr> # qs"
    using Cons.prems by (auto split: option.splits if_splits pyval.splits)
  have path: "payload_path (Some (PStr path)) = Some path" "path \<noteq> []"
    using o(1) by (auto simp: payload_path_def split: option.splits pyval.splits if_splits)
  have "hex_of_length 64 digest"
    using o(3) by (auto simp: digest_of_def split: option.splits pyval.splits if_splits)
  with Cons.IH [OF o(5)] path o(2,4) show ?case
    by (auto simp: o(6))
qed simp

text \<open>C12: A payload that verifies is installed as the manifest says: entries are strictly sorted and no two of them
differ only in case; every path is relative, canonical and free of parent references, and names a regular file
below the root, not reached through a link, with the recorded size and digest.\<close>

theorem payload_verified_sound:
  assumes "verify_payload raw t"
  shows "\<exists>es. load_payload_manifest raw = Some es \<and> sorted_wrt (<) (map pe_path es) \<and> distinct (map (\<lambda>e. py_casefold (pe_path e)) es)
    \<and> (\<forall>e \<in> set es. let parts = posix_parts (pe_path e) in
        ''..'' \<notin> set parts \<and> \<not> starts_with ''/'' (pe_path e) \<and> slash_join parts = pe_path e
      \<and> pt_file t parts \<and> pt_inside t parts \<and> pt_size t parts = pe_size e \<and> pt_digest t parts = pe_digest e
      \<and> (\<forall>k. 0 < k \<and> k \<le> length parts \<longrightarrow> \<not> pt_linked t (take k parts)))"
proof -
  obtain es where es: "load_payload_manifest raw = Some es" "list_all (entry_present t) es"
    using assms by (auto simp: verify_payload_def split: option.splits)
  obtain fs where "read_entries fs [] [] = Some es"
    using es(1) by (auto simp: load_payload_manifest_def split: option.splits pyval.splits if_splits)
  note r = entries_sound [OF this]
  have "let parts = posix_parts (pe_path e) in
        ''..'' \<notin> set parts \<and> \<not> starts_with ''/'' (pe_path e) \<and> slash_join parts = pe_path e
      \<and> pt_file t parts \<and> pt_inside t parts \<and> pt_size t parts = pe_size e \<and> pt_digest t parts = pe_digest e
      \<and> (\<forall>k. 0 < k \<and> k \<le> length parts \<longrightarrow> \<not> pt_linked t (take k parts))" if "e \<in> set es" for e
  proof -
    have p: "payload_path (Some (PStr (pe_path e))) = Some (pe_path e)"
      using r that by blast
    have "''..'' \<notin> set (posix_parts (pe_path e)) \<and> \<not> starts_with ''/'' (pe_path e) \<and> slash_join (posix_parts (pe_path e)) = pe_path e"
      using p by (auto simp: payload_path_def split: if_splits)
    moreover have "entry_present t e"
      using es(2) that by (auto simp: list_all_iff)
    moreover have "\<not> pt_linked t (take k (posix_parts (pe_path e)))" if "0 < k" "k \<le> length (posix_parts (pe_path e))" for k
      using \<open>entry_present t e\<close> that by (cases "k = length (posix_parts (pe_path e))") (auto simp: entry_present_def Let_def list_all_iff)
    ultimately show ?thesis
      by (simp add: entry_present_def Let_def)
  qed
  with es(1) r show ?thesis by blast
qed

section \<open>A sample release\<close>

definition sample_digest :: string where
  "sample_digest = replicate 64 (CHR ''a'')"

definition sample_items :: "(string \<times> pyval) list" where
  "sample_items = [(''schema'', PStr release_schema), (''product'', PStr ''Angerona''), (''version'', PStr ''1.2.3''), (''sequence'', PInt 7),
     (''platform'', PStr ''windows-x64''), (''artifact_sha256'', PStr sample_digest), (''sbom_sha256'', PStr sample_digest),
     (''payload_manifest_sha256'', PStr sample_digest), (''payload_catalog_sha256'', PStr sample_digest),
     (''provenance_sha256'', PStr sample_digest), (''source_revision'', PStr sample_digest), (''builder_id'', PStr ''builder''),
     (''issued_at'', PInt 100), (''expires_at'', PInt 200)]"

definition sample_statement :: statement where
  "sample_statement = \<lparr>st_version = ''1.2.3'', st_sequence = 7, st_platform = ''windows-x64'', st_artifact = sample_digest, st_sbom = sample_digest,
     st_manifest = sample_digest, st_catalog = sample_digest, st_provenance = sample_digest, st_revision = sample_digest, st_builder = ''builder'',
     st_issued = PInt 100, st_expires = PInt 200\<rparr>"

definition sample_raw :: json_file where
  "sample_raw = (2000, Some (PDict [(''statement'', PDict sample_items),
     (''signatures'', PList [PDict [(''signer_id'', PStr ''alice''), (''signature'', PStr (replicate 86 (CHR ''A'')))]])]))"

definition sample_policy :: update_policy where
  "sample_policy = \<lparr>up_threshold = 1, up_builders = [''builder''], up_validity = 3600, up_skew = 300\<rparr>"

definition sample_target :: release_target where
  "sample_target = \<lparr>rt_platform = ''windows-x64'', rt_artifact = sample_digest, rt_sbom = sample_digest, rt_manifest = sample_digest,
     rt_catalog = sample_digest, rt_provenance = sample_digest, rt_installed = ''1.0.0'', rt_sequence = 0, rt_version = ''0.0.0'', rt_floor_digest = []\<rparr>"

definition sample_trust :: "(string, bytes) dict" where
  "sample_trust = [(''alice'', replicate 32 1)]"

lemma sample_versions: "version_of ''1.2.3'' = Some [1, 2, 3]" "version_of ''1.0.0'' = Some [1, 0, 0]" "version_of ''0.0.0'' = Some [0, 0, 0]"
  by (simp_all add: version_of_def version_part_def digit_char_def read_digits_def Let_def)

lemma sample_hex: "hex_of_length 64 sample_digest"
  by (simp add: hex_of_length_def sample_digest_def list_all_iff)

lemma sample_release_ids: "release_id ''windows-x64''" "release_id ''builder''" "release_id ''alice''"
  by (simp_all add: release_id_def id_char_def)

lemma sample_read: "read_statement sample_items = Some sample_statement"
  using sample_hex by (simp add: read_statement_def sample_items_def sample_statement_def text_of_def digest_of_def sample_versions sample_release_ids
      revision_ok_def release_time_def num_of_def float_overflow_def) (simp add: sample_digest_def)

lemma sample_times: "time_of (PInt 100) = 100" "time_of (PInt 200) = 200"
  by (simp_all add: time_of_def num_of_def float_overflow_def)

lemma sample_count: "count_signers (\<lambda>_ _ _. True) sample_trust body
    [PDict [(''signer_id'', PStr ''alice''), (''signature'', PStr (replicate 86 (CHR ''A'')))]] [] [] [] = ([''alice''], True)"
  by (simp add: exact_dict_def text_of_def sample_release_ids pinned_key_def sample_trust_def signature_holds_def release_signature_def b64_value_def list_all_iff)

lemma sample_release_fields: "exact_dict statement_fields (PDict sample_items) = Some sample_items"
  by (simp add: exact_dict_def statement_fields_def sample_items_def)

lemma sample_strict: "strict_json max_authorization_bytes sample_raw = snd sample_raw"
  by (simp add: strict_json_def sample_raw_def max_authorization_bytes_def sample_items_def)


lemma sample_verify:
  assumes "fl = None \<or> fl = Some \<lparr>fl_sequence = 7, fl_version = ''1.2.3'', fl_digest = statement_sha256 flt sample_statement\<rparr>"
  shows "verify_release flt (\<lambda>_ _ _. True) sample_raw sample_trust sample_policy 150 (floor_target sample_target fl)
    = \<lparr>rr_errors = [], rr_statement = Some sample_statement, rr_signers = [''alice''], rr_digest = statement_sha256 flt sample_statement\<rparr>"
proof -
  have hex: "hex_of_length 64 (statement_sha256 flt sample_statement)"
    unfolding statement_sha256_def using hex_of_text [of "sha256 (statement_bytes flt sample_statement)"] by simp
  then have n: "statement_sha256 flt sample_statement \<noteq> []"
    by (auto simp: hex_of_length_def)
  have t: "target_ok (floor_target sample_target fl)"
    using assms hex by (auto simp: target_ok_def floor_target_def sample_target_def sample_versions sample_release_ids sample_hex)
  obtain v where v: "strict_json max_authorization_bytes sample_raw = Some v"
    and e: "exact_dict [''statement'', ''signatures''] v = Some [(''statement'', PDict sample_items),
     (''signatures'', PList [PDict [(''signer_id'', PStr ''alice''), (''signature'', PStr (replicate 86 (CHR ''A'')))]])]"
    unfolding sample_strict by (simp add: exact_dict_def sample_raw_def)
  have c: "release_checks sample_policy 150 (floor_target sample_target fl) sample_statement (statement_sha256 flt sample_statement) 1 = []"
    using assms n by (auto simp: release_checks_def floor_target_def sample_target_def sample_statement_def sample_policy_def sample_times
        version_less_def sample_versions)
  show ?thesis
    using t v e c sample_count [of "statement_bytes flt sample_statement"]
    by (simp add: verify_release_def sample_release_fields sample_read Let_def max_signatures_def)
qed

theorem verified_release_authorized_witness:
  "\<exists>s es. carries sample_raw s es \<and> 1 \<le> st_sequence s \<and> st_platform s = ''windows-x64''"
proof -
  have "rr_valid (verify_release (\<lambda>_. []) (\<lambda>_ _ _. True) sample_raw sample_trust sample_policy 150 (floor_target sample_target None))"
    using sample_verify [of None] by (simp add: rr_valid_def)
  from verified_release_authorized [OF this] obtain s es where
    "carries sample_raw s es" "st_platform s = rt_platform (floor_target sample_target None)"
    "rr_statement (verify_release (\<lambda>_. []) (\<lambda>_ _ _. True) sample_raw sample_trust sample_policy 150 (floor_target sample_target None)) = Some s"
    by blast
  then show ?thesis
    using sample_verify [of None "\<lambda>_. []"] by (auto simp: floor_target_def sample_target_def sample_statement_def)
qed

definition sample_floor :: release_floor where
  "sample_floor = \<lparr>fl_sequence = 7, fl_version = ''1.2.3'', fl_digest = statement_sha256 (\<lambda>_. []) sample_statement\<rparr>"

lemma sample_floor_ok: "floor_ok sample_floor"
  unfolding sample_floor_def floor_ok_def statement_sha256_def
  using hex_of_text [of "sha256 (statement_bytes (\<lambda>_. []) sample_statement)"] by (simp add: sample_versions)

lemma sample_loads: "load_floor (\<lambda>_. []) [] (floor_text (\<lambda>_. []) [] sample_floor) = Inr (Some sample_floor)"
proof -
  let ?d = "floor_document (\<lambda>_. []) [] sample_floor"
  have k: "length (json_string False t) \<le> 2 + 6 * length t" for t
    by (rule length_json_string_le)
  have "length (hex_text (sha256 x)) = 64" "length (hex_text (hmac_sha256 y x)) = 64" for x y
    using hex_of_text [of "sha256 x"] hex_of_text [of "hmac_sha256 y x"] by (simp_all add: hex_of_length_def)
  then have l: "length (json_string False (hex_text (sha256 x))) \<le> 386" "length (json_string False (floor_mac flt key c)) \<le> 386" for x flt key c
    using k [of "hex_text (sha256 x)"] k [of "floor_mac flt key c"] by (simp_all add: floor_mac_def)
  have i: "length (show_int 7) = 1"
    by (simp add: show_int_def) (subst show_nat.simps, simp)
  have "length (json_text False (\<lambda>_. []) ?d) \<le> 2000"
    using k [of "''schema''"] k [of "''highest_sequence''"] k [of "''highest_version''"] k [of "''statement_sha256''"] k [of "''mac''"]
      k [of floor_schema] k [of "''1.2.3''"] l(1) [of "statement_bytes (\<lambda>_. []) sample_statement"] l(2) [of "\<lambda>_. []" "[]" "PDict (floor_core sample_floor)"]
    by (simp add: floor_document_def floor_core_def sample_floor_def statement_sha256_def i floor_schema_def)
  then have "length (utf8 (json_text False (\<lambda>_. []) (json_sorted ?d))) \<le> 4000"
    using length_utf8_le [of "json_text False (\<lambda>_. []) (json_sorted ?d)"] by (simp only: length_json_sorted)
  then show ?thesis
    by (simp add: load_text_exact sample_floor_ok floor_bytes_def max_floor_bytes_def)
qed

lemma sample_observed:
  "observe_release (\<lambda>_. []) (\<lambda>_ _ _. True) [] sample_raw sample_trust sample_policy 150 sample_target True True NoFloor
   = (floor_text (\<lambda>_. []) [] sample_floor, Inr (verify_release (\<lambda>_. []) (\<lambda>_ _ _. True) sample_raw sample_trust sample_policy 150 (floor_target sample_target None)))"
proof -
  have "make_floor (Some (PInt 7)) (Some (PStr ''1.2.3'')) (Some (PStr (statement_sha256 (\<lambda>_. []) sample_statement))) = Some sample_floor"
    using sample_floor_ok by (simp add: make_floor_def text_of_def digest_of_def sample_floor_def floor_ok_def)
  then show ?thesis
    using sample_verify [of None "\<lambda>_. []"]
    by (simp add: observe_release_def load_floor_def rr_valid_def advance_floor_def sample_statement_def Let_def)
qed

lemma sample_again:
  "observe_release (\<lambda>_. []) (\<lambda>_ _ _. True) [] sample_raw sample_trust sample_policy 150 sample_target True True (floor_text (\<lambda>_. []) [] sample_floor)
   = (floor_text (\<lambda>_. []) [] sample_floor, Inr (verify_release (\<lambda>_. []) (\<lambda>_ _ _. True) sample_raw sample_trust sample_policy 150 (floor_target sample_target (Some sample_floor))))"
proof -
  let ?r = "verify_release (\<lambda>_. []) (\<lambda>_ _ _. True) sample_raw sample_trust sample_policy 150 (floor_target sample_target (Some sample_floor))"
  have m: "make_floor (Some (PInt 7)) (Some (PStr ''1.2.3'')) (Some (PStr (statement_sha256 (\<lambda>_. []) sample_statement))) = Some sample_floor"
    using sample_floor_ok by (simp add: make_floor_def text_of_def digest_of_def sample_floor_def floor_ok_def)
  have r: "?r = \<lparr>rr_errors = [], rr_statement = Some sample_statement, rr_signers = [''alice''], rr_digest = statement_sha256 (\<lambda>_. []) sample_statement\<rparr>"
    by (rule sample_verify) (simp add: sample_floor_def)
  have v: "\<not> version_less (fl_version sample_floor) (fl_version sample_floor)"
    by (simp add: version_less_def split: option.split)
  have s: "st_sequence sample_statement = 7" "st_version sample_statement = ''1.2.3''"
    by (simp_all add: sample_statement_def)
  have "advance_floor (\<lambda>_. []) [] ?r True (floor_text (\<lambda>_. []) [] sample_floor) = (floor_text (\<lambda>_. []) [] sample_floor, Inr sample_floor)"
    unfolding r by (simp add: advance_floor_def rr_valid_def m s sample_loads v)
  moreover have "rr_valid ?r"
    by (simp add: r rr_valid_def)
  ultimately show ?thesis
    by (simp add: observe_release_def sample_loads Let_def)
qed

theorem floor_never_falls_witness:
  "fl_sequence sample_floor \<le> fl_sequence sample_floor \<and> load_floor (\<lambda>_. []) []
     (foldl (guard_step (\<lambda>_. []) (\<lambda>_ _ _. True) []) (floor_text (\<lambda>_. []) [] sample_floor)
       [ObserveRelease sample_raw sample_trust sample_policy 150 sample_target True True]) = Inr (Some sample_floor)"
proof -
  let ?es = "[ObserveRelease sample_raw sample_trust sample_policy 150 sample_target True True]"
  have l: "load_floor (\<lambda>_. []) [] (foldl (guard_step (\<lambda>_. []) (\<lambda>_ _ _. True) []) (floor_text (\<lambda>_. []) [] sample_floor) ?es) = Inr (Some sample_floor)"
    by (simp add: sample_again sample_loads)
  from floor_never_falls [OF sample_loads l] l show ?thesis by simp
qed

theorem accepted_releases_ordered_witness:
  "\<exists>s1 s2. rr_statement (verify_release (\<lambda>_. []) (\<lambda>_ _ _. True) sample_raw sample_trust sample_policy 150 (floor_target sample_target None)) = Some s1
    \<and> rr_statement (verify_release (\<lambda>_. []) (\<lambda>_ _ _. True) sample_raw sample_trust sample_policy 150 (floor_target sample_target (Some sample_floor))) = Some s2
    \<and> st_sequence s1 \<le> st_sequence s2"
proof -
  have f: "Some sample_floor = None \<or> Some sample_floor = Some \<lparr>fl_sequence = 7, fl_version = ''1.2.3'', fl_digest = statement_sha256 (\<lambda>_. []) sample_statement\<rparr>"
    by (simp add: sample_floor_def)
  have r: "rr_valid (verify_release (\<lambda>_. []) (\<lambda>_ _ _. True) sample_raw sample_trust sample_policy 150 (floor_target sample_target fl))
      \<and> rr_statement (verify_release (\<lambda>_. []) (\<lambda>_ _ _. True) sample_raw sample_trust sample_policy 150 (floor_target sample_target fl)) = Some sample_statement"
    if "fl = None \<or> fl = Some sample_floor" for fl
    using sample_verify [of None "\<lambda>_. []"] sample_verify [OF f] that by (auto simp: rr_valid_def)
  have again: "observe_release (\<lambda>_. []) (\<lambda>_ _ _. True) [] sample_raw sample_trust sample_policy 150 sample_target True True
      (foldl (guard_step (\<lambda>_. []) (\<lambda>_ _ _. True) []) (floor_text (\<lambda>_. []) [] sample_floor) [])
     = (floor_text (\<lambda>_. []) [] sample_floor, Inr (verify_release (\<lambda>_. []) (\<lambda>_ _ _. True) sample_raw sample_trust sample_policy 150 (floor_target sample_target (Some sample_floor))))"
    by (simp add: sample_again)
  have "st_sequence sample_statement \<le> st_sequence sample_statement"
    using accepted_releases_ordered [OF sample_observed _ _ again] r by blast
  then show ?thesis
    using r by blast
qed

definition sample_manifest :: json_file where
  "sample_manifest = (200, Some (PDict [(''schema'', PStr ''angerona.release-payload/v1''),
     (''files'', PList [PDict [(''path'', PStr ''bin/a.exe''), (''sha256'', PStr sample_digest), (''size'', PInt 5)]])]))"

definition sample_tree :: payload_tree where
  "sample_tree = \<lparr>pt_root = True, pt_linked = (\<lambda>_. False), pt_file = (\<lambda>p. p = [''bin'', ''a.exe'']), pt_size = (\<lambda>_. 5), pt_inside = (\<lambda>_. True),
     pt_digest = (\<lambda>_. sample_digest)\<rparr>"

lemma sample_entries: "load_payload_manifest sample_manifest = Some [\<lparr>pe_path = ''bin/a.exe'', pe_digest = sample_digest, pe_size = 5\<rparr>]"
  using sample_hex by (simp add: load_payload_manifest_def sample_manifest_def strict_json_def max_manifest_bytes_def exact_dict_def max_payload_files_def
      payload_path_def posix_parts_def starts_with_def digest_of_def)

theorem payload_verified_sound_witness:
  "\<exists>es. load_payload_manifest sample_manifest = Some es \<and> (\<forall>e \<in> set es. slash_join (posix_parts (pe_path e)) = pe_path e)"
proof -
  have "verify_payload sample_manifest sample_tree"
    by (simp add: verify_payload_def sample_entries entry_present_def sample_tree_def posix_parts_def)
  from payload_verified_sound [OF this] show ?thesis
    unfolding Let_def by blast
qed

end
