(* ===== verification/Py_Text.thy ===== *)
theory Py_Text
  imports Canonical_Json
begin

text \<open>
  \<open>repr\<close> and \<open>str\<close> of a value of unknown type, as \<^verbatim>\<open>core/sigma_engine.py\<close> applies them to the
  fields of an event and \<^verbatim>\<open>core/admin_audit.py\<close> to the fields of an export.  \<open>flt\<close> prints finite floats.
\<close>

section \<open>Representations\<close>

text \<open>\<open>repr\<close> of a string and of a value, and \<open>str\<close> of a value.\<close>

definition repr_char :: "char \<Rightarrow> char \<Rightarrow> string" where
  "repr_char quote c =
     (let n = (of_char c :: nat) in
      if c = quote \<or> n = 92 then [CHR 0x5C, c]
      else if n = 10 then [CHR 0x5C, CHR ''n'']
      else if n = 13 then [CHR 0x5C, CHR ''r'']
      else if n = 9 then [CHR 0x5C, CHR ''t'']
      else if n < 32 \<or> 127 \<le> n \<and> n \<le> 160 \<or> n = 173 then [CHR 0x5C, CHR ''x'', hex_digit (n div 16), hex_digit (n mod 16)]
      else [c])"

definition repr_string :: "string \<Rightarrow> string" where
  "repr_string s = (let quote = (if CHR 0x27 \<in> set s \<and> CHR 0x22 \<notin> set s then CHR 0x22 else CHR 0x27) in
     quote # concat (map (repr_char quote) s) @ [quote])"

fun comma_join :: "string list \<Rightarrow> string" where
  "comma_join [] = []"
| "comma_join [s] = s"
| "comma_join (s # t # ts) = s @ '', '' @ comma_join (t # ts)"

primrec py_repr :: "(rat \<Rightarrow> string) \<Rightarrow> pyval \<Rightarrow> string" where
  "py_repr flt PNone = ''None''"
| "py_repr flt (PBool b) = (if b then ''True'' else ''False'')"
| "py_repr flt (PInt i) = show_int i"
| "py_repr flt (PFloat f) = (case f of Fin r \<Rightarrow> flt r | PosInf \<Rightarrow> ''inf'' | NegInf \<Rightarrow> ''-inf'' | Nan \<Rightarrow> ''nan'')"
| "py_repr flt (PStr s) = repr_string s"
| "py_repr flt (PList vs) = CHR ''['' # comma_join (map (py_repr flt) vs) @ '']''"
| "py_repr flt (PDict kvs) = CHR ''{'' # comma_join (map (\<lambda>(k, t). repr_string k @ '': '' @ t) (map (map_prod id (py_repr flt)) kvs)) @ ''}''"

definition py_str :: "(rat \<Rightarrow> string) \<Rightarrow> pyval \<Rightarrow> string" where
  "py_str flt v = (case v of PStr s \<Rightarrow> s | _ \<Rightarrow> py_repr flt v)"

end
