(* ===== verification/Sigma_Engine.thy ===== *)
theory Sigma_Engine
  imports Event_Bus Py_Text
begin

text \<open>
  The constrained Sigma rule engine, \<^verbatim>\<open>src/angerona/core/sigma_engine.py\<close>: admission of rules, matching of
  events, the compiled plans of the package runtime, and rule sets with their receipts.

  A YAML text is its length in bytes, the documents the loader yields one by one, and whether it then fails;
  documents and details are \<open>pyval\<close>, whose keys are strings.  The regular expression engine is an argument:
  \<open>rx e\<close> is \<open>None\<close> when \<open>e\<close> does not compile, and otherwise says which strings it finds a match in.  \<open>flt\<close> prints
  finite floats.  Reasons are dropped, codes are kept.  \<open>str\<close> of an integer is total: those with more digits
  than Python converts are outside the model.
\<close>

section \<open>Strings\<close>

text \<open>\<open>str.partition\<close> for a separator that is not empty; \<open>None\<close> when it does not occur.\<close>

fun partition_at :: "string \<Rightarrow> string \<Rightarrow> (string \<times> string) option" where
  "partition_at sep [] = None"
| "partition_at sep (c # s) =
     (if starts_with sep (c # s) then Some ([], drop (length sep - 1) s)
      else map_option (\<lambda>(a, b). (c # a, b)) (partition_at sep s))"

text \<open>\<open>str.rsplit\<close> with one split.\<close>

definition rpartition_at :: "string \<Rightarrow> string \<Rightarrow> (string \<times> string) option" where
  "rpartition_at sep s = map_option (\<lambda>(a, b). (rev b, rev a)) (partition_at (rev sep) (rev s))"

lemma partition_shorter: "partition_at sep s = Some (a, b) \<Longrightarrow> length a < length s \<and> length b < length s"
  by (induction sep s arbitrary: a b rule: partition_at.induct) (auto split: if_splits)

text \<open>\<open>str.split\<close>.\<close>

function split_text :: "string \<Rightarrow> string \<Rightarrow> string list" where
  "split_text sep s = (case partition_at sep s of None \<Rightarrow> [s] | Some (a, b) \<Rightarrow> a # split_text sep b)"
  by pat_completeness auto
termination by (relation "measure (length \<circ> snd)") (auto dest: partition_shorter)

declare split_text.simps [simp del]

definition count_text :: "string \<Rightarrow> string \<Rightarrow> nat" where
  "count_text sep s = length (split_text sep s) - 1"

text \<open>The substring test.\<close>

fun text_in :: "string \<Rightarrow> string \<Rightarrow> bool" where
  "text_in p [] = (p = [])"
| "text_in p (c # s) = (starts_with p (c # s) \<or> text_in p s)"

text \<open>\<open>str.split()\<close> and \<open>' '.join\<close>.\<close>

lemma dropWhile_shorter: "dropWhile P s = c # r \<Longrightarrow> length (dropWhile Q r) < length s"
  by (metis dual_order.strict_trans1 length_Cons length_dropWhile_le lessI less_le_trans not_less)

function words :: "string \<Rightarrow> string list" where
  "words s = (case dropWhile py_space s of
     [] \<Rightarrow> []
   | c # r \<Rightarrow> (c # takeWhile (\<lambda>c. \<not> py_space c) r) # words (dropWhile (\<lambda>c. \<not> py_space c) r))"
  by pat_completeness auto

termination by (relation "measure length") (auto dest: dropWhile_shorter)

declare words.simps [simp del]

fun unwords :: "string list \<Rightarrow> string" where
  "unwords [] = []"
| "unwords [w] = w"
| "unwords (w # v # ws) = w @ CHR '' '' # unwords (v # ws)"

section \<open>Bounded documents\<close>

definition max_rule_text_bytes :: nat where
  "max_rule_text_bytes = 4 * 1024 * 1024"

definition max_rule_documents :: nat where
  "max_rule_documents = 2000"

definition max_rule_nodes :: int where
  "max_rule_nodes = 100000"

definition max_rule_depth :: nat where
  "max_rule_depth = 16"

definition max_rule_string :: nat where
  "max_rule_string = 4096"

text \<open>\<open>_bounded_yaml_value\<close> counts the budget down in place: the result carries what is left.\<close>

fun bounded_value :: "pyval \<Rightarrow> int \<Rightarrow> nat \<Rightarrow> bool \<times> int"
  and bounded_list :: "pyval list \<Rightarrow> int \<Rightarrow> nat \<Rightarrow> bool \<times> int"
  and bounded_items :: "(string \<times> pyval) list \<Rightarrow> int \<Rightarrow> nat \<Rightarrow> bool \<times> int" where
  "bounded_value v budget depth =
     (if max_rule_depth < depth then (False, budget)
      else if budget - 1 < 0 then (False, budget - 1)
      else case v of
        PInt i \<Rightarrow> (- (2 ^ 63) \<le> i \<and> i \<le> 2 ^ 63 - 1, budget - 1)
      | PFloat f \<Rightarrow> ((case f of Fin _ \<Rightarrow> True | _ \<Rightarrow> False), budget - 1)
      | PStr s \<Rightarrow> (length s \<le> max_rule_string, budget - 1)
      | PList vs \<Rightarrow> if length vs \<le> 4096 then bounded_list vs (budget - 1) (Suc depth) else (False, budget - 1)
      | PDict kvs \<Rightarrow> if length kvs \<le> 1024 then bounded_items kvs (budget - 1) (Suc depth) else (False, budget - 1)
      | _ \<Rightarrow> (True, budget - 1))"
| "bounded_list [] budget depth = (True, budget)"
| "bounded_list (v # vs) budget depth =
     (case bounded_value v budget depth of (ok, left) \<Rightarrow> if ok then bounded_list vs left depth else (False, left))"
| "bounded_items [] budget depth = (True, budget)"
| "bounded_items ((k, v) # kvs) budget depth =
     (if 0 < length k \<and> length k \<le> 256
      then (case bounded_value v budget depth of (ok, left) \<Rightarrow> if ok then bounded_items kvs left depth else (False, left))
      else (False, budget))"

declare bounded_value.simps [simp del]

section \<open>Admission\<close>

definition letter_char :: "char \<Rightarrow> bool" where
  "letter_char c \<longleftrightarrow> (let n = (of_char (lower_char c) :: nat) in 97 \<le> n \<and> n \<le> 122)"

definition selector_name :: "string \<Rightarrow> bool" where
  "selector_name s \<longleftrightarrow> (case s of [] \<Rightarrow> False
     | c # r \<Rightarrow> (letter_char c \<or> c = CHR ''_'') \<and> length r \<le> 127
         \<and> list_all (\<lambda>d. letter_char d \<or> digit_char d \<or> d = CHR ''_'' \<or> d = CHR ''-'') r)"

text \<open>The two searches that keep back-references and nested quantifiers out.\<close>

fun backreference :: "string \<Rightarrow> bool" where
  "backreference (a # b # s) \<longleftrightarrow> a = CHR 0x5C \<and> digit_char b \<and> b \<noteq> CHR ''0'' \<or> backreference (b # s)"
| "backreference _ \<longleftrightarrow> False"

definition quantifier :: "char \<Rightarrow> bool" where
  "quantifier c \<longleftrightarrow> c \<in> set ''+*{''"

fun nested_quantifier :: "string \<Rightarrow> bool" where
  "nested_quantifier [] \<longleftrightarrow> False"
| "nested_quantifier (c # s) \<longleftrightarrow>
     c = CHR ''('' \<and> list_ex quantifier (takeWhile (\<lambda>d. d \<noteq> CHR '')'') s)
       \<and> (case dropWhile (\<lambda>d. d \<noteq> CHR '')'') s of [] \<Rightarrow> False
          | _ # r \<Rightarrow> (case dropWhile py_space r of [] \<Rightarrow> False | d # _ \<Rightarrow> quantifier d))
   \<or> nested_quantifier s"

type_synonym regex = "string \<Rightarrow> (string \<Rightarrow> bool) option"

definition supported_modifiers :: "string list" where
  "supported_modifiers = [''contains'', ''startswith'', ''endswith'', ''re'']"

definition value_supported :: "regex \<Rightarrow> string \<Rightarrow> pyval \<Rightarrow> bool" where
  "value_supported rx modifier v = (case v of
     PStr s \<Rightarrow> length s \<le> max_rule_string \<and> s \<noteq> []
       \<and> \<not> (modifier = [] \<and> (CHR ''*'' \<in> set s \<or> CHR ''?'' \<in> set s))
       \<and> (modifier \<noteq> ''re'' \<or> length s \<le> 512 \<and> \<not> text_in ''(?'' s \<and> \<not> backreference s \<and> \<not> nested_quantifier s \<and> rx s \<noteq> None)
   | PInt _ \<Rightarrow> modifier \<noteq> ''re''
   | PBool _ \<Rightarrow> modifier \<noteq> ''re''
   | _ \<Rightarrow> False)"

text \<open>A key is a field, or a field and a modifier; a value that is no list stands for the list of itself.\<close>

definition key_field :: "string \<Rightarrow> string" where
  "key_field k = hd (split_on (CHR ''|'') k)"

definition key_modifier :: "string \<Rightarrow> string" where
  "key_modifier k = (let parts = split_on (CHR ''|'') k in if length parts = 2 then parts ! 1 else [])"

definition listed :: "pyval \<Rightarrow> pyval list" where
  "listed v = (case v of PList vs \<Rightarrow> vs | _ \<Rightarrow> [v])"

definition field_supported :: "regex \<Rightarrow> string \<times> pyval \<Rightarrow> bool" where
  "field_supported rx = (\<lambda>(k, expected). let modifier = py_casefold (key_modifier k) in
     key_field k \<noteq> [] \<and> length (key_field k) \<le> 256 \<and> length (split_on (CHR ''|'') k) \<le> 2
   \<and> (modifier = [] \<or> modifier \<in> set supported_modifiers)
   \<and> listed expected \<noteq> [] \<and> length (listed expected) \<le> 256 \<and> list_all (value_supported rx modifier) (listed expected))"

definition selection_supported :: "regex \<Rightarrow> pyval \<Rightarrow> bool" where
  "selection_supported rx sel \<longleftrightarrow> listed sel \<noteq> [] \<and> length (listed sel) \<le> 256
   \<and> list_all (\<lambda>m. case m of PDict d \<Rightarrow> d \<noteq> [] \<and> length d \<le> 256 \<and> list_all (field_supported rx) d | _ \<Rightarrow> False) (listed sel)"

text \<open>The pattern \<open>(all|1) of ([a-z_][a-z0-9_-]*)\*\<close>: whether it says \<open>all\<close>, and the prefix.\<close>

definition lower_name :: "string \<Rightarrow> bool" where
  "lower_name s \<longleftrightarrow> (case s of [] \<Rightarrow> False
     | c # r \<Rightarrow> (letter_char c \<and> lower_char c = c \<or> c = CHR ''_'')
         \<and> list_all (\<lambda>d. letter_char d \<and> lower_char d = d \<or> digit_char d \<or> d = CHR ''_'' \<or> d = CHR ''-'') r)"

definition prefix_after :: "string \<Rightarrow> string \<Rightarrow> string option" where
  "prefix_after keyword s =
     (if starts_with keyword s \<and> ends_with ''*'' s \<and> lower_name (butlast (drop (length keyword) s))
      then Some (butlast (drop (length keyword) s)) else None)"

definition of_prefix :: "string \<Rightarrow> (bool \<times> string) option" where
  "of_prefix s = (case prefix_after ''all of '' s of
     Some p \<Rightarrow> Some (True, p)
   | None \<Rightarrow> map_option (Pair False) (prefix_after ''1 of '' s))"

definition base_supported :: "string \<Rightarrow> string list \<Rightarrow> bool" where
  "base_supported c names =
     (if c \<in> {''all of them'', ''1 of them'', ''any of them''} then True
      else case of_prefix c of
        Some (_, p) \<Rightarrow> list_ex (starts_with p) names
      | None \<Rightarrow>
          if text_in '' and '' c \<and> text_in '' or '' c then False
          else list_all (\<lambda>p. p \<in> set names)
            (split_text (if text_in '' and '' c then '' and '' else if text_in '' or '' c then '' or '' else [CHR 0x00]) c))"

definition condition_supported :: "pyval option \<Rightarrow> string list \<Rightarrow> bool" where
  "condition_supported condition names = (case condition of
     Some (PStr s) \<Rightarrow>
       (let c = unwords (words (py_casefold (py_strip s))) in
        if py_strip s = [] then False
        else if 1024 < length c \<or> CHR ''('' \<in> set c \<or> CHR '')'' \<in> set c \<or> CHR ''|'' \<in> set c then False
        else if 1 < count_text '' and not '' c then False
        else case rpartition_at '' and not '' c of
          None \<Rightarrow> base_supported c names
        | Some (base, negated) \<Rightarrow> negated \<in> set names \<and> base_supported base names)
   | _ \<Rightarrow> False)"

datatype sigma_code = Admitted | DocumentNotObject | UnsupportedCorrelation | InvalidRule | UnsupportedLogsource
  | InvalidDetection | UnsupportedSelector | AmbiguousSelector | UnsupportedSelection | UnsupportedCondition
  | LimitExceeded | UnboundedYaml | EmptyInput | YamlParseError | UnsupportedRule

text \<open>The selections of a detection in order: the lower-case names, or what refuses them.\<close>

fun selectors_supported :: "regex \<Rightarrow> (string \<times> pyval) list \<Rightarrow> string list \<Rightarrow> sigma_code + string list" where
  "selectors_supported rx [] names = Inr names"
| "selectors_supported rx ((k, sel) # sels) names =
     (if \<not> selector_name k then Inl UnsupportedSelector
      else if py_casefold k \<in> set names then Inl AmbiguousSelector
      else if \<not> selection_supported rx sel then Inl UnsupportedSelection
      else selectors_supported rx sels (names @ [py_casefold k]))"

definition selections :: "(string \<times> pyval) list \<Rightarrow> (string \<times> pyval) list" where
  "selections det = filter (\<lambda>(k, _). k \<noteq> ''condition'') det"

definition rule_supported :: "regex \<Rightarrow> bool \<Rightarrow> pyval \<Rightarrow> sigma_code" where
  "rule_supported rx envelope rule = (case rule of
     PDict r \<Rightarrow>
       if dict_get r ''correlation'' \<noteq> None then UnsupportedCorrelation
       else if envelope \<and> \<not> (case dict_get r ''title'' of Some (PStr t) \<Rightarrow> py_strip t \<noteq> [] \<and> length t \<le> 512 | _ \<Rightarrow> False) then InvalidRule
       else if dict_get r ''logsource'' \<notin> {None, Some PNone, Some (PDict [])} then UnsupportedLogsource
       else (case dict_get r ''detection'' of
         Some (PDict det) \<Rightarrow>
           if selections det = [] then InvalidDetection
           else (case selectors_supported rx (selections det) [] of
             Inl code \<Rightarrow> code
           | Inr names \<Rightarrow> if condition_supported (dict_get det ''condition'') names then Admitted else UnsupportedCondition)
       | _ \<Rightarrow> InvalidDetection)
   | _ \<Rightarrow> DocumentNotObject)"

section \<open>Loading rules\<close>

record sigma_receipt =
  rc_accepted :: bool
  rc_code :: sigma_code
  rc_admitted :: nat
  rc_rejected :: nat

definition refused :: "sigma_code \<Rightarrow> nat \<Rightarrow> pyval list \<times> sigma_receipt" where
  "refused code n = ([], \<lparr>rc_accepted = False, rc_code = code, rc_admitted = 0, rc_rejected = n\<rparr>)"

record yaml_text =
  yt_bytes :: nat
  yt_documents :: "pyval list"
  yt_broken :: bool

fun load_documents :: "regex \<Rightarrow> pyval list \<Rightarrow> bool \<Rightarrow> int \<Rightarrow> pyval list \<Rightarrow> pyval list \<times> sigma_receipt" where
  "load_documents rx [] broken budget rules =
     (if broken then refused YamlParseError 1
      else if rules = [] then refused EmptyInput 0
      else (rules, \<lparr>rc_accepted = True, rc_code = Admitted, rc_admitted = length rules, rc_rejected = 0\<rparr>))"
| "load_documents rx (doc # docs) broken budget rules =
     (if max_rule_documents \<le> length rules then refused LimitExceeded (Suc (length rules))
      else case bounded_value doc budget 0 of (ok, left) \<Rightarrow>
        if \<not> ok then refused UnboundedYaml (Suc (length rules))
        else if rule_supported rx True doc \<noteq> Admitted then refused (rule_supported rx True doc) (Suc (length rules))
        else load_documents rx docs broken left (rules @ [doc]))"

definition load_rules :: "regex \<Rightarrow> yaml_text \<Rightarrow> pyval list \<times> sigma_receipt" where
  "load_rules rx t =
     (if max_rule_text_bytes < yt_bytes t then refused LimitExceeded 1
      else load_documents rx (yt_documents t) (yt_broken t) max_rule_nodes [])"

section \<open>Matching\<close>

fun severity_name :: "severity \<Rightarrow> string" where
  "severity_name Info = ''INFO''"
| "severity_name Low = ''LOW''"
| "severity_name Medium = ''MEDIUM''"
| "severity_name High = ''HIGH''"
| "severity_name Critical = ''CRITICAL''"

definition event_fields :: "event \<Rightarrow> (string, pyval) dict" where
  "event_fields e = foldl (\<lambda>d (k, v). dict_setdefault k v d)
     [(''module'', PStr (ev_module e)), (''message'', PStr (ev_message e)), (''severity'', PStr (severity_name (ev_severity e)))]
     (ev_details e)"

definition field_text :: "(rat \<Rightarrow> string) \<Rightarrow> pyval option \<Rightarrow> string" where
  "field_text flt v = (case v of None \<Rightarrow> [] | Some PNone \<Rightarrow> [] | Some x \<Rightarrow> py_str flt x)"

definition match_value :: "(rat \<Rightarrow> string) \<Rightarrow> regex \<Rightarrow> pyval option \<Rightarrow> string \<Rightarrow> pyval \<Rightarrow> bool" where
  "match_value flt rx actual modifier expected =
     (let fv = field_text flt actual; ev = field_text flt (Some expected) in
      if modifier = ''contains'' then text_in (py_casefold ev) (py_casefold fv)
      else if modifier = ''startswith'' then starts_with (py_casefold ev) (py_casefold fv)
      else if modifier = ''endswith'' then ends_with (py_casefold ev) (py_casefold fv)
      else if modifier = ''re'' then (case rx ev of None \<Rightarrow> False | Some finds \<Rightarrow> finds fv)
      else py_casefold fv = py_casefold ev)"

definition match_field :: "(rat \<Rightarrow> string) \<Rightarrow> regex \<Rightarrow> (string, pyval) dict \<Rightarrow> string \<times> pyval \<Rightarrow> bool" where
  "match_field flt rx fs = (\<lambda>(k, expected). length (split_on (CHR ''|'') k) \<le> 2
     \<and> list_ex (match_value flt rx (dict_get fs (key_field k)) (key_modifier k)) (listed expected))"

fun match_selection :: "(rat \<Rightarrow> string) \<Rightarrow> regex \<Rightarrow> (string, pyval) dict \<Rightarrow> pyval \<Rightarrow> bool" where
  "match_selection flt rx fs (PList ss) = list_ex (match_selection flt rx fs) ss"
| "match_selection flt rx fs (PDict d) = list_all (match_field flt rx fs) d"
| "match_selection flt rx fs _ = False"

text \<open>A part of a condition is shorter than the condition.\<close>

lemma split_shorter:
  assumes "partition_at sep s \<noteq> None" and "p \<in> set (split_text sep s)"
  shows "length p < length s"
  using assms
proof (induction sep s rule: split_text.induct)
  case (1 sep s)
  obtain a b where ab: "partition_at sep s = Some (a, b)"
    using "1.prems"(1) by auto
  have "length p \<le> length b" if "p \<in> set (split_text sep b)"
    using "1.IH" [OF ab refl] that by (cases "partition_at sep b") (auto simp: split_text.simps [of sep b] ab)
  with "1.prems"(2) partition_shorter [OF ab] show ?case
    by (auto simp: split_text.simps [of sep s] ab)
qed

lemma strip_le: "length (py_strip s) \<le> length s"
  by (metis (no_types, lifting) length_dropWhile_le length_rev order_trans py_strip_def)

lemma text_in_partition: "sep \<noteq> [] \<Longrightarrow> text_in sep s \<longleftrightarrow> partition_at sep s \<noteq> None"
  by (induction sep s rule: partition_at.induct) auto

lemma part_shorter:
  assumes "text_in sep s" and "sep \<noteq> []" and "p \<in> set (split_text sep s)"
  shows "length (py_strip p) < length s"
  using split_shorter [of sep s p] assms strip_le [of p] by (simp add: text_in_partition)

function eval_condition :: "string \<Rightarrow> (string, bool) dict \<Rightarrow> bool" where
  "eval_condition cond results =
     (if cond = [] then list_ex snd results
      else if cond = ''all of them''
        then (let eligible = filter (\<lambda>(n, _). \<not> starts_with ''_'' n) results in eligible \<noteq> [] \<and> list_all snd eligible)
      else if cond = ''1 of them'' \<or> cond = ''any of them'' then list_ex snd (filter (\<lambda>(n, _). \<not> starts_with ''_'' n) results)
      else case of_prefix cond of
        Some (every, p) \<Rightarrow>
          (let selected = filter (\<lambda>(n, _). starts_with p n) results in
           selected \<noteq> [] \<and> (if every then list_all snd selected else list_ex snd selected))
      | None \<Rightarrow>
          if text_in '' or '' cond then list_ex (\<lambda>p. eval_condition (py_strip p) results) (split_text '' or '' cond)
          else if text_in '' and '' cond then list_all (\<lambda>p. eval_condition (py_strip p) results) (split_text '' and '' cond)
          else dict_get_or results cond False)"
  by pat_completeness auto
termination by (relation "measure (length \<circ> fst)") (auto dest: part_shorter)

declare eval_condition.simps [simp del]

definition condition_text :: "(rat \<Rightarrow> string) \<Rightarrow> (string \<times> pyval) list \<Rightarrow> string" where
  "condition_text flt det = py_casefold (py_strip (case dict_get det ''condition'' of None \<Rightarrow> [] | Some v \<Rightarrow> py_str flt v))"

text \<open>The condition before the first \<open>and not\<close>, and the selector after it.\<close>

definition split_negation :: "string \<Rightarrow> string \<times> string option" where
  "split_negation cond = (case partition_at '' and not '' cond of
     None \<Rightarrow> (py_strip cond, None)
   | Some (base, negated) \<Rightarrow> (py_strip base, Some (py_strip negated)))"

definition selection_results :: "(rat \<Rightarrow> string) \<Rightarrow> regex \<Rightarrow> (string \<times> pyval) list \<Rightarrow> event \<Rightarrow> (string, bool) dict" where
  "selection_results flt rx det e = foldl (\<lambda>d (k, sel). dict_set (py_casefold k) (match_selection flt rx (event_fields e) sel) d) [] (selections det)"

definition sigma_match :: "(rat \<Rightarrow> string) \<Rightarrow> regex \<Rightarrow> pyval \<Rightarrow> event \<Rightarrow> bool" where
  "sigma_match flt rx rule e =
     (if rule_supported rx False rule \<noteq> Admitted then False
      else case rule of
        PDict r \<Rightarrow> (case dict_get r ''detection'' of
          Some (PDict det) \<Rightarrow>
            (let results = selection_results flt rx det e in
             case split_negation (condition_text flt det) of
               (base, None) \<Rightarrow> eval_condition base results
             | (base, Some negated) \<Rightarrow> eval_condition base results \<and> \<not> dict_get_or results negated False)
        | _ \<Rightarrow> False)
      | _ \<Rightarrow> False)"

section \<open>Compiled plans\<close>

record sigma_field =
  sf_field :: string
  sf_modifier :: string
  sf_expected :: "string list"

definition plan_field :: "(rat \<Rightarrow> string) \<Rightarrow> (string, pyval) dict \<Rightarrow> sigma_field \<Rightarrow> bool" where
  "plan_field flt fs f =
     (let actual = py_casefold (field_text flt (dict_get fs (sf_field f))) in
      if sf_modifier f = ''contains'' then list_ex (\<lambda>x. text_in x actual) (sf_expected f)
      else if sf_modifier f = ''startswith'' then list_ex (\<lambda>x. starts_with x actual) (sf_expected f)
      else if sf_modifier f = ''endswith'' then list_ex (\<lambda>x. ends_with x actual) (sf_expected f)
      else actual \<in> set (sf_expected f))"

datatype sigma_condition = SFalse | SAll "nat list" | SAny "nat list" | SAnd "sigma_condition list" | SOr "sigma_condition list"

fun plan_condition :: "bool list \<Rightarrow> sigma_condition \<Rightarrow> bool" where
  "plan_condition results SFalse = False"
| "plan_condition results (SAll is) = list_all (\<lambda>i. results ! i) is"
| "plan_condition results (SAny is) = list_ex (\<lambda>i. results ! i) is"
| "plan_condition results (SAnd cs) = list_all (plan_condition results) cs"
| "plan_condition results (SOr cs) = list_ex (plan_condition results) cs"

record sigma_plan =
  sp_selections :: "sigma_field list list list"
  sp_condition :: sigma_condition
  sp_negate :: "nat option"

definition plan_matches :: "(rat \<Rightarrow> string) \<Rightarrow> sigma_plan \<Rightarrow> event \<Rightarrow> bool" where
  "plan_matches flt plan e =
     (let results = map (list_ex (list_all (plan_field flt (event_fields e)))) (sp_selections plan) in
      plan_condition results (sp_condition plan)
    \<and> (case sp_negate plan of None \<Rightarrow> True | Some i \<Rightarrow> \<not> results ! i))"

text \<open>\<open>tuple.index\<close>, and the positions of the names with a property.\<close>

definition index_of :: "string list \<Rightarrow> string \<Rightarrow> nat option" where
  "index_of names n = (let i = length (takeWhile (\<lambda>m. m \<noteq> n) names) in if i < length names then Some i else None)"

definition positions :: "(string \<Rightarrow> bool) \<Rightarrow> string list \<Rightarrow> nat list" where
  "positions P names = map fst (filter (\<lambda>(i, n). P n) (enumerate 0 names))"

function runtime_condition :: "string \<Rightarrow> string list \<Rightarrow> sigma_condition" where
  "runtime_condition cond names =
     (if cond = [] then SAny [0..<length names]
      else if cond \<in> {''all of them'', ''1 of them'', ''any of them''}
        then (let selected = positions (\<lambda>n. \<not> starts_with ''_'' n) names in
          if selected = [] then SFalse else if cond = ''all of them'' then SAll selected else SAny selected)
      else case of_prefix cond of
        Some (every, p) \<Rightarrow>
          (let selected = positions (starts_with p) names in
           if selected = [] then SFalse else if every then SAll selected else SAny selected)
      | None \<Rightarrow>
          if text_in '' or '' cond then SOr (map (\<lambda>p. runtime_condition (py_strip p) names) (split_text '' or '' cond))
          else if text_in '' and '' cond then SAnd (map (\<lambda>p. runtime_condition (py_strip p) names) (split_text '' and '' cond))
          else case index_of names cond of None \<Rightarrow> SFalse | Some i \<Rightarrow> SAny [i])"
  by pat_completeness auto
termination by (relation "measure (length \<circ> fst)") (auto dest: part_shorter)

declare runtime_condition.simps [simp del]

definition inert_plan :: sigma_plan where
  "inert_plan = \<lparr>sp_selections = [], sp_condition = SFalse, sp_negate = None\<rparr>"

definition branches :: "pyval \<Rightarrow> (string \<times> pyval) list list" where
  "branches sel = map (\<lambda>m. case m of PDict d \<Rightarrow> d | _ \<Rightarrow> []) (listed sel)"

definition compile_field :: "(rat \<Rightarrow> string) \<Rightarrow> string \<times> pyval \<Rightarrow> sigma_field" where
  "compile_field flt = (\<lambda>(k, expected). \<lparr>sf_field = key_field k, sf_modifier = key_modifier k,
     sf_expected = map (\<lambda>v. py_casefold (field_text flt (Some v))) (listed expected)\<rparr>)"

definition uses_regex :: "(string \<times> pyval) list \<Rightarrow> bool" where
  "uses_regex det \<longleftrightarrow> list_ex (\<lambda>(_, sel). list_ex (list_ex (\<lambda>(k, _). py_casefold (key_modifier k) = ''re'')) (branches sel)) (selections det)"

text \<open>\<open>Inl ()\<close> is the \<open>ValueError\<close> of \<open>tuple.index\<close>.\<close>

definition compile_plan :: "(rat \<Rightarrow> string) \<Rightarrow> regex \<Rightarrow> (string \<times> pyval) list \<Rightarrow> unit + sigma_plan" where
  "compile_plan flt rx det =
     (if rule_supported rx False (PDict [(''detection'', PDict det)]) \<noteq> Admitted \<or> uses_regex det then Inr inert_plan
      else
       (let names = map (\<lambda>(k, _). py_casefold k) (selections det);
            compiled = map (\<lambda>(_, sel). map (map (compile_field flt)) (branches sel)) (selections det)
        in case split_negation (condition_text flt det) of
             (base, None) \<Rightarrow> Inr \<lparr>sp_selections = compiled, sp_condition = runtime_condition base names, sp_negate = None\<rparr>
           | (base, Some negated) \<Rightarrow> (case index_of names negated of
               None \<Rightarrow> Inl ()
             | Some i \<Rightarrow> Inr \<lparr>sp_selections = compiled, sp_condition = runtime_condition base names, sp_negate = Some i\<rparr>)))"

section \<open>Rule sets\<close>

record sigma_set =
  gs_rules :: "pyval list"
  gs_receipt :: sigma_receipt

definition new_set :: "regex \<Rightarrow> pyval list \<Rightarrow> sigma_set" where
  "new_set rx rules =
     (let accepted = filter (\<lambda>r. rule_supported rx True r = Admitted) rules; rejected = length rules - length accepted in
      \<lparr>gs_rules = accepted, gs_receipt = \<lparr>rc_accepted = (rejected = 0), rc_code = (if rejected = 0 then Admitted else UnsupportedRule),
        rc_admitted = length accepted, rc_rejected = rejected\<rparr>\<rparr>)"

definition add_yaml :: "regex \<Rightarrow> yaml_text \<Rightarrow> sigma_set \<Rightarrow> sigma_set \<times> nat" where
  "add_yaml rx t s = (case load_rules rx t of (rules, receipt) \<Rightarrow>
     if rc_accepted receipt then (s\<lparr>gs_receipt := receipt, gs_rules := gs_rules s @ rules\<rparr>, length rules)
     else (s\<lparr>gs_receipt := receipt\<rparr>, 0))"

definition rule_hit :: "pyval \<Rightarrow> (string, pyval) dict" where
  "rule_hit rule = (case rule of
     PDict r \<Rightarrow> [(''title'', dict_get_or r ''title'' (PStr ''?'')), (''level'', dict_get_or r ''level'' (PStr ''medium'')),
       (''id'', dict_get_or r ''id'' PNone), (''tags'', dict_get_or r ''tags'' (PList []))]
   | _ \<Rightarrow> [])"

definition evaluate_rules :: "(rat \<Rightarrow> string) \<Rightarrow> regex \<Rightarrow> sigma_set \<Rightarrow> event \<Rightarrow> (string, pyval) dict list" where
  "evaluate_rules flt rx s e = map rule_hit (filter (\<lambda>r. sigma_match flt rx r e) (gs_rules s))"

section \<open>Compiled plans agree with the matcher\<close>

lemma selectors_Inr:
  assumes "selectors_supported rx sels names = Inr out" and "distinct names"
  shows "out = names @ map (\<lambda>(k, _). py_casefold k) sels \<and> distinct out
    \<and> (\<forall>(k, sel) \<in> set sels. selector_name k \<and> selection_supported rx sel)"
  using assms
proof (induction rx sels names rule: selectors_supported.induct)
  case (2 rx k sel sels names)
  then have "selector_name k" "py_casefold k \<notin> set names" "selection_supported rx sel"
      "selectors_supported rx sels (names @ [py_casefold k]) = Inr out"
    by (simp_all split: if_splits)
  moreover from this 2 have "distinct (names @ [py_casefold k])"
    by simp
  ultimately have out: "out = (names @ [py_casefold k]) @ map (\<lambda>(k, _). py_casefold k) sels" "distinct out"
      "\<forall>(k, sel) \<in> set sels. selector_name k \<and> selection_supported rx sel"
    using 2 by blast+
  show ?case
  proof (intro conjI)
    show "out = names @ map (\<lambda>(k, _). py_casefold k) ((k, sel) # sels)"
      by (simp add: out(1))
  qed (use out \<open>selector_name k\<close> \<open>selection_supported rx sel\<close> in auto)
qed simp

lemma dict_set_fresh: "k \<notin> set (dict_keys d) \<Longrightarrow> dict_set k v d = d @ [(k, v)]"
  by (induction d) auto

lemma fold_dict_set:
  "distinct (dict_keys d @ map f sels) \<Longrightarrow> foldl (\<lambda>d x. dict_set (f x) (g x) d) d sels = d @ map (\<lambda>x. (f x, g x)) sels"
proof (induction sels arbitrary: d)
  case (Cons x sels)
  have "dict_set (f x) (g x) d = d @ [(f x, g x)]"
    using Cons.prems by (intro dict_set_fresh) auto
  with Cons show ?case
    by simp
qed simp

lemma value_cases:
  assumes "py_casefold (key_modifier k) \<noteq> ''re''"
  shows "list_ex (match_value flt rx actual (key_modifier k)) vs
    \<longleftrightarrow> (let m = key_modifier k; xs = map (\<lambda>v. py_casefold (field_text flt (Some v))) vs; a = py_casefold (field_text flt actual) in
      if m = ''contains'' then list_ex (\<lambda>x. text_in x a) xs
      else if m = ''startswith'' then list_ex (\<lambda>x. starts_with x a) xs
      else if m = ''endswith'' then list_ex (\<lambda>x. ends_with x a) xs
      else a \<in> set xs)"
proof -
  have "key_modifier k \<noteq> ''re''"
    using assms by (auto simp: py_casefold_def lower_char_def)
  then show ?thesis
    by (auto simp: match_value_def Let_def list_ex_iff)
qed

lemma field_compiled:
  assumes "field_supported rx p" and "py_casefold (key_modifier (fst p)) \<noteq> ''re''"
  shows "match_field flt rx fs p \<longleftrightarrow> plan_field flt fs (compile_field flt p)"
proof (cases p)
  case (Pair k expected)
  with assms(1) have "length (split_on (CHR ''|'') k) \<le> 2"
    by (simp add: field_supported_def Let_def)
  moreover have "py_casefold (key_modifier k) \<noteq> ''re''"
    using assms(2) Pair by simp
  ultimately show ?thesis
    unfolding Pair match_field_def plan_field_def compile_field_def by (simp add: value_cases Let_def)
qed

lemma selection_compiled:
  assumes "selection_supported rx sel" and "\<not> list_ex (list_ex (\<lambda>(k, _). py_casefold (key_modifier k) = ''re'')) (branches sel)"
  shows "match_selection flt rx fs sel \<longleftrightarrow> list_ex (list_all (plan_field flt fs)) (map (map (compile_field flt)) (branches sel))"
proof -
  have m: "\<exists>d. m = PDict d \<and> d \<in> set (branches sel) \<and> list_all (field_supported rx) d" if "m \<in> set (listed sel)" for m
  proof -
    have "case m of PDict d \<Rightarrow> d \<noteq> [] \<and> length d \<le> 256 \<and> list_all (field_supported rx) d | _ \<Rightarrow> False"
      using assms(1) that unfolding selection_supported_def list_all_iff by blast
    then obtain d where d: "m = PDict d" "list_all (field_supported rx) d"
      by (cases m) simp_all
    with that have "d \<in> set (branches sel)"
      unfolding branches_def by (auto intro: rev_image_eqI)
    with d show ?thesis
      by blast
  qed
  have f: "match_field flt rx fs p \<longleftrightarrow> plan_field flt fs (compile_field flt p)" if "d \<in> set (branches sel)" "list_all (field_supported rx) d" "p \<in> set d" for d p
    using field_compiled [of rx p flt fs] assms(2) that by (force simp: list_ex_iff list_all_iff)
  have "match_selection flt rx fs m \<longleftrightarrow> list_all (plan_field flt fs) (map (compile_field flt) (case m of PDict d \<Rightarrow> d | _ \<Rightarrow> []))" if "m \<in> set (listed sel)" for m
    using m [OF that] f by (fastforce simp: list_all_iff)
  then have "list_ex (match_selection flt rx fs) (listed sel) \<longleftrightarrow> list_ex (list_all (plan_field flt fs)) (map (map (compile_field flt)) (branches sel))"
    by (simp add: branches_def list_ex_iff)
  moreover have "match_selection flt rx fs sel \<longleftrightarrow> list_ex (match_selection flt rx fs) (listed sel)"
    by (cases sel) (simp_all add: listed_def)
  ultimately show ?thesis
    by simp
qed

lemma positions_indices: "positions P names = filter (\<lambda>i. P (names ! i)) [0..<length names]"
proof -
  have "map fst (filter (\<lambda>(i, n). P n) (enumerate k names)) = filter (\<lambda>i. P (names ! (i - k))) [k..<k + length names]" for k
  proof (induction names arbitrary: k)
    case (Cons n names)
    have "[k..<k + length (n # names)] = k # [Suc k..<Suc k + length names]"
      by (simp add: upt_rec)
    moreover have "filter (\<lambda>i. P (names ! (i - Suc k))) [Suc k..<Suc k + length names]
        = filter (\<lambda>i. P ((n # names) ! (i - k))) [Suc k..<Suc k + length names]"
    proof (intro filter_cong)
      fix i assume "i \<in> set [Suc k..<Suc k + length names]"
      then have "Suc k \<le> i"
        by auto
      then have "i - k = Suc (i - Suc k)"
        by arith
      then show "P (names ! (i - Suc k)) = P ((n # names) ! (i - k))"
        by simp
    qed simp
    ultimately show ?case
      using Cons.IH [of "Suc k"] by simp
  qed simp
  from this [of 0] show ?thesis
    by (simp add: positions_def)
qed

lemma zip_indices:
  assumes "length rs = length names"
  shows "filter (\<lambda>(n, _). P n) (zip names rs) = map (\<lambda>i. (names ! i, rs ! i)) (positions P names)"
proof -
  have "zip names rs = map (\<lambda>i. (names ! i, rs ! i)) [0..<length names]"
    using assms by (intro nth_equalityI) simp_all
  then show ?thesis
    by (simp add: positions_indices filter_map comp_def)
qed

lemma index_of_Some: "index_of names n = Some i \<Longrightarrow> i < length names \<and> names ! i = n"
  by (auto simp: index_of_def Let_def split: if_splits dest: nth_length_takeWhile)

lemma absent: "n \<in> set names \<Longrightarrow> length (takeWhile (\<lambda>m. m \<noteq> n) names) < length names"
  by (induction names) auto

lemma index_of_None: "index_of names n = None \<Longrightarrow> n \<notin> set names"
  using absent [of n names] by (auto simp: index_of_def Let_def split: if_splits)

lemma index_result:
  assumes "length rs = length names" and "distinct names"
  shows "dict_get_or (zip names rs) n False = (case index_of names n of None \<Rightarrow> False | Some i \<Rightarrow> rs ! i)"
proof (cases "index_of names n")
  case None
  then have "dict_get (zip names rs) n = None"
    using index_of_None assms(1) by (auto simp: map_of_eq_None_iff dest: set_zip_leftD)
  with None show ?thesis
    by (simp add: dict_get_or_def)
next
  case (Some i)
  with index_of_Some have i: "i < length names" "names ! i = n"
    by auto
  then have "(n, rs ! i) \<in> set (zip names rs)"
    using assms(1) by (auto simp: set_zip)
  with assms have "dict_get (zip names rs) n = Some (rs ! i)"
    by simp
  with Some show ?thesis
    by (simp add: dict_get_or_def)
qed

lemma condition_compiled:
  assumes "length rs = length names" and "distinct names"
  shows "plan_condition rs (runtime_condition cond names) = eval_condition cond (zip names rs)"
proof (induction cond "zip names rs" rule: eval_condition.induct)
  case (1 cond)
  have all: "list_ex snd (zip names rs) = list_ex (\<lambda>i. rs ! i) [0..<length names]"
  proof -
    have "list_ex snd (zip names rs) = (\<exists>x \<in> set (map snd (zip names rs)). x)"
      by (simp add: list_ex_iff)
    also have "map snd (zip names rs) = map (\<lambda>i. rs ! i) [0..<length names]"
      using assms(1) by (simp add: map_nth flip: assms(1))
    finally show ?thesis
      by (simp add: list_ex_iff)
  qed
  note E = eval_condition.simps [of cond "zip names rs"] and R = runtime_condition.simps [of cond names]
  define plain where "plain \<longleftrightarrow> cond = [] \<or> cond \<in> {''all of them'', ''1 of them'', ''any of them''}"
  consider (plain) plain | (many) every p where "of_prefix cond = Some (every, p)" "\<not> plain" | (parts) "of_prefix cond = None" "\<not> plain"
    by (cases "of_prefix cond") auto
  then show ?case
  proof cases
    case plain
    then show ?thesis
      unfolding plain_def E R
      by (elim disjE insertE emptyE) (simp_all add: all [unfolded list_ex_iff set_upt] zip_indices [OF assms(1)] Let_def list_all_iff list_ex_iff)
  next
    case many
    then show ?thesis
      unfolding plain_def by (simp add: E R zip_indices [OF assms(1)] Let_def list_all_iff list_ex_iff)
  next
    case parts
    have o: "plan_condition rs (runtime_condition (py_strip p) names) = eval_condition (py_strip p) (zip names rs)"
      if "text_in '' or '' cond" "p \<in> set (split_text '' or '' cond)" for p
      using "1.hyps"(1) parts [unfolded plain_def] that by simp
    have a: "plan_condition rs (runtime_condition (py_strip p) names) = eval_condition (py_strip p) (zip names rs)"
      if "\<not> text_in '' or '' cond" "text_in '' and '' cond" "p \<in> set (split_text '' and '' cond)" for p
      using "1.hyps"(2) parts [unfolded plain_def] that by simp
    consider "text_in '' or '' cond" | "\<not> text_in '' or '' cond" "text_in '' and '' cond"
      | "\<not> text_in '' or '' cond" "\<not> text_in '' and '' cond"
      by blast
    then show ?thesis
    proof cases
      case 1
      with parts [unfolded plain_def] o show ?thesis
        by (simp add: E R list_ex_iff)
    next
      case 2
      with parts [unfolded plain_def] a show ?thesis
        by (simp add: E R list_all_iff)
    next
      case 3
      with parts [unfolded plain_def] show ?thesis
        by (simp add: E R index_result [OF assms] split: option.splits)
    qed
  qed
qed


definition compile_results :: "(rat \<Rightarrow> string) \<Rightarrow> regex \<Rightarrow> (string \<times> pyval) list \<Rightarrow> event \<Rightarrow> bool list" where
  "compile_results flt rx det e = map (\<lambda>(_, sel). match_selection flt rx (event_fields e) sel) (selections det)"

lemma never_admitted: "selectors_supported rx sels names \<noteq> Inl Admitted"
  by (induction rx sels names rule: selectors_supported.induct) auto

lemma admitted_detection:
  assumes "rule_supported rx False (PDict [(''detection'', PDict det)]) = Admitted"
  shows "distinct (map (\<lambda>(k, _). py_casefold k) (selections det))" "\<forall>(k, sel) \<in> set (selections det). selector_name k \<and> selection_supported rx sel"
proof -
  obtain names where "selectors_supported rx (selections det) [] = Inr names"
    using assms never_admitted by (auto simp: rule_supported_def split: if_splits sum.splits)
  from selectors_Inr [OF this] show "distinct (map (\<lambda>(k, _). py_casefold k) (selections det))"
      "\<forall>(k, sel) \<in> set (selections det). selector_name k \<and> selection_supported rx sel"
    by auto
qed

lemma selection_results_zip:
  assumes "distinct (map (\<lambda>(k, _). py_casefold k) (selections det))"
  shows "selection_results flt rx det e = zip (map (\<lambda>(k, _). py_casefold k) (selections det)) (compile_results flt rx det e)"
  using fold_dict_set [of "[]" "\<lambda>(k, _). py_casefold k" "selections det" "\<lambda>(_, sel). match_selection flt rx (event_fields e) sel"] assms
  by (simp add: selection_results_def compile_results_def zip_map_map zip_same_conv_map split_def comp_def)

lemma plan_inert: "\<not> plan_matches flt inert_plan e"
  by (simp add: plan_matches_def inert_plan_def)

section \<open>Sets of admitted rules\<close>

lemma loaded:
  assumes "load_documents rx docs broken budget rules = (out, receipt)"
  shows "if rc_accepted receipt
    then out = rules @ docs \<and> \<not> broken \<and> out \<noteq> [] \<and> (docs = [] \<or> length out \<le> max_rule_documents) \<and> rc_admitted receipt = length out
      \<and> rc_rejected receipt = 0 \<and> rc_code receipt = Admitted \<and> (\<forall>r \<in> set docs. rule_supported rx True r = Admitted)
    else out = [] \<and> rc_admitted receipt = 0 \<and> rc_code receipt \<noteq> Admitted"
  using assms
proof (induction rx docs broken budget rules rule: load_documents.induct)
  case (1 rx broken budget rules)
  then show ?case
    by (auto simp: refused_def split: if_splits)
next
  case (2 rx doc docs broken budget rules)
  obtain ok left where b: "bounded_value doc budget 0 = (ok, left)"
    by fastforce
  show ?case
  proof (cases "max_rule_documents \<le> length rules \<or> \<not> ok \<or> rule_supported rx True doc \<noteq> Admitted")
    case True
    then consider "max_rule_documents \<le> length rules" | "\<not> max_rule_documents \<le> length rules" "\<not> ok"
      | "\<not> max_rule_documents \<le> length rules" ok "rule_supported rx True doc \<noteq> Admitted"
      by blast
    then show ?thesis
      using 2(2) b by cases (auto simp: refused_def)
  next
    case False
    with 2(2) b have "load_documents rx docs broken left (rules @ [doc]) = (out, receipt)"
      by simp
    with 2(1) [OF _ b [symmetric]] False have "if rc_accepted receipt
      then out = (rules @ [doc]) @ docs \<and> \<not> broken \<and> out \<noteq> [] \<and> (docs = [] \<or> length out \<le> max_rule_documents) \<and> rc_admitted receipt = length out
        \<and> rc_rejected receipt = 0 \<and> rc_code receipt = Admitted \<and> (\<forall>r \<in> set docs. rule_supported rx True r = Admitted)
      else out = [] \<and> rc_admitted receipt = 0 \<and> rc_code receipt \<noteq> Admitted"
      by simp
    with False show ?thesis
      by (auto split: if_splits)
  qed
qed

text \<open>C16: A batch is taken whole or not at all.  When the receipt of an import says accepted, the set grows by every
document of the text in order, each of them supported, at least one and at most 2000; otherwise the rules
stay as they were and nothing is counted as added.\<close>

theorem batch_all_or_nothing:
  "case add_yaml rx t s of (s', n) \<Rightarrow>
    if rc_accepted (gs_receipt s')
    then gs_rules s' = gs_rules s @ yt_documents t \<and> n = length (yt_documents t) \<and> 0 < n \<and> n \<le> max_rule_documents
      \<and> \<not> yt_broken t \<and> yt_bytes t \<le> max_rule_text_bytes \<and> list_all (\<lambda>r. rule_supported rx True r = Admitted) (yt_documents t)
    else gs_rules s' = gs_rules s \<and> n = 0 \<and> rc_code (gs_receipt s') \<noteq> Admitted"
proof -
  obtain rules receipt where l: "load_rules rx t = (rules, receipt)"
    by fastforce
  show ?thesis
  proof (cases "max_rule_text_bytes < yt_bytes t")
    case True
    then show ?thesis
      by (simp add: add_yaml_def load_rules_def refused_def)
  next
    case False
    with l have "load_documents rx (yt_documents t) (yt_broken t) max_rule_nodes [] = (rules, receipt)"
      by (simp add: load_rules_def)
    from loaded [OF this] False l show ?thesis
      by (cases "rc_accepted receipt") (auto simp: add_yaml_def Suc_le_eq list_all_iff)
  qed
qed

text \<open>Every rule of a set is an admitted one.\<close>

definition set_ok :: "regex \<Rightarrow> sigma_set \<Rightarrow> bool" where
  "set_ok rx s \<longleftrightarrow> list_all (\<lambda>r. rule_supported rx True r = Admitted) (gs_rules s)"

definition sigma_step :: "regex \<Rightarrow> sigma_set \<Rightarrow> yaml_text \<Rightarrow> sigma_set" where
  "sigma_step rx s t = fst (add_yaml rx t s)"

lemma sigma_step_ok: "set_ok rx s \<Longrightarrow> set_ok rx (sigma_step rx s t)"
  using loaded [of rx "yt_documents t" "yt_broken t" max_rule_nodes "[]"]
  by (cases "load_rules rx t") (auto simp: sigma_step_def add_yaml_def set_ok_def load_rules_def refused_def list_all_iff split: if_splits)

interpretation rules: machine "sigma_step rx" "set_ok rx" for rx
  by unfold_locales (rule sigma_step_ok)

lemma new_set_ok: "set_ok rx (new_set rx rs)"
  by (simp add: set_ok_def new_set_def Let_def list_all_iff)

lemma admitted_without_envelope:
  assumes "rule_supported rx True r = Admitted"
  shows "rule_supported rx False r = Admitted"
proof (cases r)
  case (PDict d)
  with assms show ?thesis
    by (simp add: rule_supported_def split: if_splits)
qed (use assms in \<open>simp_all add: rule_supported_def\<close>)

text \<open>What matching an admitted rule evaluates.\<close>

definition rule_holds :: "(rat \<Rightarrow> string) \<Rightarrow> regex \<Rightarrow> (string \<times> pyval) list \<Rightarrow> event \<Rightarrow> bool" where
  "rule_holds flt rx det e \<longleftrightarrow> (let results = selection_results flt rx det e; cut = split_negation (condition_text flt det) in
     eval_condition (fst cut) results \<and> (case snd cut of None \<Rightarrow> True | Some n \<Rightarrow> \<not> dict_get_or results n False))"

lemma match_admitted:
  assumes "rule_supported rx False (PDict r) = Admitted" and "dict_get r ''detection'' = Some (PDict det)"
  shows "sigma_match flt rx (PDict r) e = rule_holds flt rx det e"
  using assms by (auto simp: sigma_match_def rule_holds_def Let_def split: prod.splits option.splits)

lemma admitted_detected: "rule_supported rx b r = Admitted \<Longrightarrow> \<exists>d det. r = PDict d \<and> dict_get d ''detection'' = Some (PDict det)"
  by (cases r) (auto simp: rule_supported_def split: pyval.splits if_splits option.splits)

definition rule_detects :: "(rat \<Rightarrow> string) \<Rightarrow> regex \<Rightarrow> event \<Rightarrow> pyval \<Rightarrow> bool" where
  "rule_detects flt rx e rule = (case rule of
     PDict r \<Rightarrow> (case dict_get r ''detection'' of Some (PDict det) \<Rightarrow> rule_holds flt rx det e | _ \<Rightarrow> False)
   | _ \<Rightarrow> False)"

text \<open>C15: A rule set reports exactly what its rules detect.  Whatever texts are imported into a new set, every rule in
it is admitted; so the defensive admission inside each match refuses none of them, and an event is reported for
the rules whose detection holds, in the order of the set.\<close>

theorem sets_report_exactly:
  "list_all (\<lambda>r. rule_supported rx True r = Admitted) (gs_rules (foldl (sigma_step rx) (new_set rx rs) ts))
    \<and> evaluate_rules flt rx (foldl (sigma_step rx) (new_set rx rs) ts) e
      = map rule_hit (filter (rule_detects flt rx e) (gs_rules (foldl (sigma_step rx) (new_set rx rs) ts)))"
proof -
  define s where "s = foldl (sigma_step rx) (new_set rx rs) ts"
  have ok: "set_ok rx s"
    using rules.inv_run [OF new_set_ok] by (simp add: s_def)
  have "sigma_match flt rx r e = rule_detects flt rx e r" if "r \<in> set (gs_rules s)" for r
  proof -
    have a: "rule_supported rx False r = Admitted"
      using ok that by (simp add: set_ok_def list_all_iff admitted_without_envelope)
    then obtain d det where "r = PDict d" "dict_get d ''detection'' = Some (PDict det)"
      using admitted_detected by blast
    with match_admitted a show ?thesis
      by (simp add: rule_detects_def)
  qed
  with ok show ?thesis
    by (simp add: set_ok_def evaluate_rules_def flip: s_def cong: filter_cong)
qed

end
