(* ===== verification/Sigma_Conditions.thy ===== *)
theory Sigma_Conditions
  imports Sigma_Engine
begin

text \<open>
  The reference semantics of the condition language of \<^verbatim>\<open>src/angerona/core/sigma_engine.py\<close>: conditions as
  data, the text they are written as, and the proof that the matcher, which works on the text, agrees
  with their meaning.  The proof reads the text word by word.
\<close>

section \<open>What conditions mean\<close>

text \<open>Words of a condition: no space, no bracket, no bar, no capital.\<close>

definition word_char :: "char \<Rightarrow> bool" where
  "word_char c \<longleftrightarrow> \<not> py_space c \<and> lower_char c = c \<and> c \<notin> {CHR ''('', CHR '')'', CHR ''|'', CHR 0x00}"

definition is_word :: "string \<Rightarrow> bool" where
  "is_word w \<longleftrightarrow> w \<noteq> [] \<and> list_all word_char w"

lemma space_char [simp]: "py_space (CHR '' '')"
  by (simp add: py_space_def)

lemma word_no_space: "is_word w \<Longrightarrow> c \<in> set w \<Longrightarrow> \<not> py_space c"
  by (auto simp: is_word_def word_char_def list_all_iff)

lemma unwords_Cons: "ws \<noteq> [] \<Longrightarrow> unwords (w # ws) = w @ CHR '' '' # unwords ws"
  by (cases ws) simp_all

lemma unwords_append: "us \<noteq> [] \<Longrightarrow> vs \<noteq> [] \<Longrightarrow> unwords (us @ vs) = unwords us @ CHR '' '' # unwords vs"
  by (induction us rule: unwords.induct) (simp_all add: unwords_Cons)

lemma words_space: "py_space c \<Longrightarrow> words (c # s) = words s"
  by (subst (1 2) words.simps) simp

lemma words_word:
  assumes "w \<noteq> []" and "\<And>c. c \<in> set w \<Longrightarrow> \<not> py_space c" and "s = [] \<or> py_space (hd s)"
  shows "words (w @ s) = w # words s"
proof -
  obtain c r where w: "w = c # r"
    using assms(1) by (cases w) auto
  have "takeWhile (\<lambda>c. \<not> py_space c) (r @ s) = r" "dropWhile (\<lambda>c. \<not> py_space c) (r @ s) = s"
    using assms(2,3) by (cases s; simp add: w)+
  with assms(2) show ?thesis
    by (subst words.simps) (simp add: w)
qed

lemma words_unwords: "list_all is_word ws \<Longrightarrow> words (unwords ws) = ws"
proof (induction ws rule: unwords.induct)
  case 1
  then show ?case by (simp add: words.simps)
next
  case (2 w)
  then show ?case
    using words_word [of w "[]"] word_no_space by (auto simp: is_word_def words.simps)
next
  case (3 w v ws)
  then have "words (w @ CHR '' '' # unwords (v # ws)) = w # words (CHR '' '' # unwords (v # ws))"
    by (intro words_word) (auto simp: word_no_space is_word_def)
  with 3 show ?case
    by (simp add: words_space)
qed

lemma words_append_space:
  assumes "py_space d"
  shows "words (x @ d # y) = words x @ words y"
proof (induction x rule: words.induct)
  case (1 x)
  show ?case
  proof (cases "dropWhile py_space x")
    case Nil
    then have "\<forall>c \<in> set x. py_space c"
      by simp
    then have "dropWhile py_space (x @ d # y) = dropWhile py_space y"
      using assms by (simp add: dropWhile_append)
    then have "words (x @ d # y) = words y"
      by (subst (1 2) words.simps) simp
    moreover have "words x = []"
      by (subst words.simps) (simp add: Nil)
    ultimately show ?thesis by simp
  next
    case (Cons c r)
    then have d: "dropWhile py_space (x @ d # y) = c # r @ d # y"
      by (metis append_Cons dropWhile_append1 dropWhile_eq_Nil_conv list.distinct(1))
    have t: "takeWhile (\<lambda>c. \<not> py_space c) (r @ d # y) = takeWhile (\<lambda>c. \<not> py_space c) r"
      "dropWhile (\<lambda>c. \<not> py_space c) (r @ d # y) = dropWhile (\<lambda>c. \<not> py_space c) r @ d # y"
      using assms by (induction r) auto
    have "words (x @ d # y) = (c # takeWhile (\<lambda>c. \<not> py_space c) r) # words (dropWhile (\<lambda>c. \<not> py_space c) r @ d # y)"
      by (subst words.simps) (simp add: d t)
    also have "words (dropWhile (\<lambda>c. \<not> py_space c) r @ d # y) = words (dropWhile (\<lambda>c. \<not> py_space c) r) @ words y"
      by (rule 1 [OF Cons])
    finally have "words (x @ d # y) = (c # takeWhile (\<lambda>c. \<not> py_space c) r) # words (dropWhile (\<lambda>c. \<not> py_space c) r) @ words y" .
    moreover have "words x = (c # takeWhile (\<lambda>c. \<not> py_space c) r) # words (dropWhile (\<lambda>c. \<not> py_space c) r)"
      by (subst words.simps) (simp add: Cons)
    ultimately show ?thesis
      by simp
  qed
qed

text \<open>A separator made of the words \<open>ks\<close>.\<close>

definition separator :: "string list \<Rightarrow> string" where
  "separator ks = CHR '' '' # unwords ks @ '' ''"

lemma starts_with_append: "starts_with p s \<longleftrightarrow> (\<exists>r. s = p @ r)"
  by (auto simp: starts_with_def) (metis append_take_drop_id)

lemma starts_with_words:
  assumes "list_all is_word ws" and "list_all is_word ks" and "starts_with (unwords ks @ '' '') (unwords ws)"
  shows "take (length ks) ws = ks"
proof -
  obtain r where "unwords ws = unwords ks @ CHR '' '' # r"
    using assms(3) by (auto simp: starts_with_append)
  then have "ws = ks @ words r"
    using words_unwords [OF assms(1)] words_unwords [OF assms(2)] words_append_space [OF space_char] by metis
  then show ?thesis
    by simp
qed

lemma partition_word:
  "(\<And>c. c \<in> set w \<Longrightarrow> \<not> py_space c) \<Longrightarrow>
    partition_at (CHR '' '' # t) (w @ s) = map_option (\<lambda>(a, b). (w @ a, b)) (partition_at (CHR '' '' # t) s)"
proof (induction w)
  case Nil
  show ?case by (cases "partition_at (CHR '' '' # t) s") simp_all
next
  case (Cons c w)
  then have "c \<noteq> CHR '' ''"
    by fastforce
  then have "\<not> starts_with (CHR '' '' # t) ((c # w) @ s)"
    by (simp add: starts_with_def)
  with Cons show ?case
    by (simp add: option.map_comp comp_def split_def)
qed

lemma partition_words:
  assumes "list_all is_word (us @ ks @ vs)" and "us \<noteq> []" and "ks \<noteq> []" and "vs \<noteq> []"
    and "distinct ks" and "last ks \<notin> set us"
  shows "partition_at (separator ks) (unwords (us @ ks @ vs)) = Some (unwords us, unwords vs)"
  using assms(1,2,6)
proof (induction us)
  case (Cons w us)
  let ?rest = "us @ ks @ vs"
  have ne: "?rest \<noteq> []"
    using assms(3) by simp
  have u: "unwords ((w # us) @ ks @ vs) = w @ CHR '' '' # unwords ?rest"
    using unwords_Cons [OF ne, of w] by simp
  have w: "\<not> py_space c" if "c \<in> set w" for c
    using that word_no_space Cons.prems(1) by auto
  have p: "partition_at (separator ks) (unwords ((w # us) @ ks @ vs))
      = map_option (\<lambda>(a, b). (w @ a, b)) (partition_at (separator ks) (CHR '' '' # unwords ?rest))"
    unfolding separator_def u by (rule partition_word) (rule w)
  show ?case
  proof (cases us)
    case Nil
    have "unwords ?rest = (unwords ks @ '' '') @ unwords vs"
      using Nil unwords_append [OF assms(3,4)] by simp
    then have "partition_at (separator ks) (CHR '' '' # unwords ?rest) = Some ([], unwords vs)"
      by (simp add: separator_def starts_with_def)
    with p Nil show ?thesis by simp
  next
    case (Cons u us')
    have "take (length ks) ?rest \<noteq> ks"
    proof
      assume eq: "take (length ks) ?rest = ks"
      have "last ks = ?rest ! (length ks - 1)"
        using arg_cong [OF eq, of last] assms(3) by (metis diff_less eq last_conv_nth length_greater_0_conv nth_take zero_less_one)
      moreover have "last ks = ks ! (length ks - 1)"
        using assms(3) by (simp add: last_conv_nth)
      moreover have "last ks \<notin> set us"
        using Cons.prems by simp
      ultimately have l: "length us \<le> length ks - 1"
        by (metis not_le nth_append nth_mem)
      then have "ks ! (length ks - 1 - length us) = ks ! (length ks - 1)"
        using \<open>last ks = ?rest ! (length ks - 1)\<close> \<open>last ks = ks ! (length ks - 1)\<close> assms(3)
        by (simp add: nth_append split: if_splits)
      moreover have "length ks - 1 - length us < length ks" "length ks - 1 < length ks"
        using assms(3) by (simp_all add: less_imp_diff_less)
      ultimately have "length ks - 1 - length us = length ks - 1"
        using nth_eq_iff_index_eq [OF assms(5)] by blast
      then have "length us = 0"
        using l by arith
      with Cons show False by simp
    qed
    then have "\<not> starts_with (unwords ks @ '' '') (unwords ?rest)"
      using starts_with_words [of ?rest ks] Cons.prems(1) by auto
    then have "partition_at (separator ks) (CHR '' '' # unwords ?rest)
        = map_option (\<lambda>(a, b). (CHR '' '' # a, b)) (partition_at (separator ks) (unwords ?rest))"
      by (simp add: separator_def starts_with_def)
    also have "partition_at (separator ks) (unwords ?rest) = Some (unwords us, unwords vs)"
      using Cons.IH Cons.prems Cons by simp
    finally show ?thesis
      using p Cons by simp
  qed
qed simp

lemma partition_none:
  assumes "list_all is_word ws" and "list_all is_word ks" and "k \<in> set ks" and "k \<notin> set ws"
  shows "partition_at (separator ks) (unwords ws) = None"
proof (rule ccontr)
  assume "partition_at (separator ks) (unwords ws) \<noteq> None"
  moreover have "\<exists>a b. s = a @ sep @ b" if "partition_at sep s \<noteq> None" "sep \<noteq> []" for sep s
    using that
  proof (induction s)
    case (Cons c s)
    then show ?case
      by (auto simp: starts_with_append split: if_splits) (metis append_Cons append_Nil)+
  qed simp
  ultimately obtain a b where "unwords ws = a @ CHR '' '' # unwords ks @ CHR '' '' # b"
    by (fastforce simp: separator_def)
  then have "ws = words a @ ks @ words b"
    using words_unwords [OF assms(1)] words_unwords [OF assms(2)] words_append_space [OF space_char] by metis
  with assms(3,4) show False
    by auto
qed

text \<open>The conditions the subset promises, their text and their meaning.\<close>

datatype base_condition = AllThem | OneThem | Prefixed bool string | Conj "string list" | Disj "string list"

fun weave :: "string \<Rightarrow> string list \<Rightarrow> string list" where
  "weave k [] = []"
| "weave k [n] = [n]"
| "weave k (n # m # ns) = n # k # weave k (m # ns)"

fun base_words :: "base_condition \<Rightarrow> string list" where
  "base_words AllThem = [''all'', ''of'', ''them'']"
| "base_words OneThem = [''1'', ''of'', ''them'']"
| "base_words (Prefixed every p) = [if every then ''all'' else ''1'', ''of'', p @ ''*'']"
| "base_words (Conj ns) = weave ''and'' ns"
| "base_words (Disj ns) = weave ''or'' ns"

definition condition_string :: "base_condition \<Rightarrow> string option \<Rightarrow> string" where
  "condition_string base negated = unwords (base_words base @ (case negated of None \<Rightarrow> [] | Some n \<Rightarrow> [''and'', ''not'', n]))"

definition free_names :: "string list \<Rightarrow> string set" where
  "free_names names = set names - {''and'', ''or'', ''not''}"

fun base_ok :: "string list \<Rightarrow> base_condition \<Rightarrow> bool" where
  "base_ok names (Prefixed every p) = (lower_name p \<and> list_ex (starts_with p) names)"
| "base_ok names (Conj ns) = (ns \<noteq> [] \<and> set ns \<subseteq> free_names names)"
| "base_ok names (Disj ns) = (ns \<noteq> [] \<and> set ns \<subseteq> free_names names)"
| "base_ok names _ = True"

fun base_holds :: "(string \<Rightarrow> bool) \<Rightarrow> string list \<Rightarrow> base_condition \<Rightarrow> bool" where
  "base_holds h names AllThem = (filter (\<lambda>n. \<not> starts_with ''_'' n) names \<noteq> [] \<and> list_all h (filter (\<lambda>n. \<not> starts_with ''_'' n) names))"
| "base_holds h names OneThem = list_ex h (filter (\<lambda>n. \<not> starts_with ''_'' n) names)"
| "base_holds h names (Prefixed every p) = (if every then list_all h (filter (starts_with p) names) else list_ex h (filter (starts_with p) names))"
| "base_holds h names (Conj ns) = list_all h ns"
| "base_holds h names (Disj ns) = list_ex h ns"

text \<open>Selectors of an admitted detection are words.\<close>

lemma lower_char_idem: "lower_char (lower_char c) = lower_char c"
  by (simp add: lower_char_def Let_def)

lemma char_ge: "(of_char c :: nat) = n \<Longrightarrow> c = char_of n"
  by (metis char_of_char)

lemma selector_char:
  assumes "letter_char c \<or> digit_char c \<or> c = CHR ''_'' \<or> c = CHR ''-''"
  shows "word_char (lower_char c)"
proof -
  have "word_char d" if "97 \<le> (of_char d :: nat) \<and> of_char d \<le> (122::nat) \<or> digit_char d \<or> d = CHR ''_'' \<or> d = CHR ''-''" for d
    using that by (auto simp: word_char_def py_space_def lower_char_def digit_char_def Let_def)
  moreover have "digit_char c \<Longrightarrow> lower_char c = c" "lower_char (CHR ''_'') = CHR ''_''" "lower_char (CHR ''-'') = CHR ''-''"
    by (auto simp: digit_char_def lower_char_def Let_def)
  ultimately show ?thesis
    using assms by (metis letter_char_def)
qed

lemma selector_word: "selector_name k \<Longrightarrow> is_word (py_casefold k)"
  by (auto simp: selector_name_def is_word_def py_casefold_def list_all_iff split: list.splits intro!: selector_char)

lemma lower_selector_char:
  assumes "letter_char c \<and> lower_char c = c \<or> digit_char c \<or> c = CHR ''_'' \<or> c = CHR ''-''"
  shows "word_char c"
proof -
  have "lower_char c = c"
    using assms by (auto simp: digit_char_def lower_char_def Let_def)
  with selector_char [of c] assms show ?thesis
    by auto
qed

lemma lower_name_word:
  assumes "lower_name p"
  shows "is_word (p @ ''*'')"
proof -
  have "list_all word_char p"
    using assms by (auto simp: lower_name_def list_all_iff split: list.splits intro: lower_selector_char)
  moreover have "word_char (CHR ''*'')"
    by (simp add: word_char_def py_space_def lower_char_def)
  ultimately show ?thesis
    by (simp add: is_word_def)
qed

lemma weave_not_Nil [simp]: "weave k ns = [] \<longleftrightarrow> ns = []"
  by (induction k ns rule: weave.induct) auto

lemma set_weave: "set (weave k ns) \<subseteq> insert k (set ns)"
  by (induction k ns rule: weave.induct) auto

text \<open>The text of a condition, read back word by word.\<close>

lemma strip_unwords:
  assumes "list_all is_word ws"
  shows "py_strip (unwords ws) = unwords ws"
proof (cases "ws = []")
  case True
  then show ?thesis by (simp add: py_strip_def)
next
  case False
  have ends: "unwords ws \<noteq> [] \<and> \<not> py_space (hd (unwords ws)) \<and> \<not> py_space (last (unwords ws))"
    using assms False
  proof (induction ws rule: unwords.induct)
    case (2 w)
    then show ?case
      using word_no_space by (auto simp: is_word_def)
  next
    case (3 w v ws)
    have "w \<noteq> []" "\<not> py_space (hd w)"
      using 3(2) word_no_space by (auto simp: is_word_def)
    with 3 show ?case
      by simp
  qed simp
  have "dropWhile py_space s = s" if "s \<noteq> []" "\<not> py_space (hd s)" for s
    using that by (cases s) simp_all
  with ends show ?thesis
    unfolding py_strip_def by (simp add: hd_rev)
qed

lemma lower_word: "is_word w \<Longrightarrow> map lower_char w = w"
  by (simp add: is_word_def list_all_iff word_char_def map_idI)

lemma lower_unwords: "list_all is_word ws \<Longrightarrow> py_casefold (unwords ws) = unwords ws"
  unfolding py_casefold_def by (induction ws rule: unwords.induct) (simp_all add: lower_word, simp add: lower_char_def)

lemma chars_unwords: "list_all is_word ws \<Longrightarrow> c \<in> {CHR ''('', CHR '')'', CHR ''|''} \<Longrightarrow> c \<notin> set (unwords ws)"
  by (induction ws rule: unwords.induct) (auto simp: is_word_def list_all_iff word_char_def)

lemma rev_unwords: "rev (unwords ws) = unwords (rev (map rev ws))"
proof (induction ws rule: unwords.induct)
  case (3 w v ws)
  have "unwords (rev (map rev (v # ws)) @ [rev w]) = unwords (rev (map rev (v # ws))) @ CHR '' '' # unwords [rev w]"
    by (intro unwords_append) simp_all
  with 3 show ?case
    by simp
qed simp_all

lemma rev_word: "list_all is_word (rev (map rev ws)) = list_all is_word ws"
  by (auto simp: is_word_def list_all_iff)

lemma literal_words: "is_word ''and''" "is_word ''or''" "is_word ''not''" "is_word ''all''" "is_word ''1''" "is_word ''of''" "is_word ''them''" "is_word ''any''"
  by (simp_all add: is_word_def word_char_def py_space_def lower_char_def)

lemma separators: "separator [''and''] = '' and ''" "separator [''or''] = '' or ''" "separator [''and'', ''not''] = '' and not ''"
  by (simp_all add: separator_def)

lemma no_separator:
  assumes "list_all is_word ws" and "is_word k" and "k \<notin> set ws"
  shows "partition_at (separator [k]) (unwords ws) = None" "\<not> text_in (separator [k]) (unwords ws)"
    "split_text (separator [k]) (unwords ws) = [unwords ws]"
proof -
  show p: "partition_at (separator [k]) (unwords ws) = None"
    using assms by (intro partition_none [where k = k]) simp_all
  then show "\<not> text_in (separator [k]) (unwords ws)"
    by (simp add: text_in_partition separator_def)
  show "split_text (separator [k]) (unwords ws) = [unwords ws]"
    by (simp add: split_text.simps p)
qed

lemma weave_words: "list_all is_word ns \<Longrightarrow> is_word k \<Longrightarrow> list_all is_word (weave k ns)"
  using set_weave [of k ns] by (auto simp: list_all_iff)

lemma split_weave:
  assumes "ns \<noteq> []" and "list_all is_word ns" and "is_word k" and "k \<notin> set ns"
  shows "split_text (separator [k]) (unwords (weave k ns)) = ns"
    and "text_in (separator [k]) (unwords (weave k ns)) \<longleftrightarrow> 1 < length ns"
proof -
  have p: "partition_at (separator [k]) (unwords (weave k (n # m # ms))) = Some (n, unwords (weave k (m # ms)))"
    if "list_all is_word (n # m # ms)" "k \<noteq> n" for n m ms
    using partition_words [of "[n]" "[k]" "weave k (m # ms)"] that assms(3) by (simp add: weave_words)
  show "split_text (separator [k]) (unwords (weave k ns)) = ns"
    using assms
  proof (induction k ns rule: weave.induct)
    case (2 k n)
    then show ?case
      using no_separator(3) [of "[n]" k] by simp
  next
    case (3 k n m ns)
    then have "partition_at (separator [k]) (unwords (weave k (n # m # ns))) = Some (n, unwords (weave k (m # ns)))"
      using partition_words [of "[n]" "[k]" "weave k (m # ns)"] by (simp add: weave_words)
    with 3 show ?case
      by (subst split_text.simps) simp
  qed simp
  show "text_in (separator [k]) (unwords (weave k ns)) \<longleftrightarrow> 1 < length ns"
  proof -
    consider (1) "ns = []" | (2) n where "ns = [n]" | (3) n m ms where "ns = n # m # ms"
      by (metis list.exhaust)
    then show ?thesis
    proof cases
    case 1
    with assms(1) show ?thesis by simp
  next
    case (2 n)
    with no_separator(2) [of "[n]" k] assms show ?thesis by simp
  next
    case (3 n m ms)
    have "partition_at (separator [k]) (unwords (weave k ns)) \<noteq> None"
      using p [of n m ms] assms by (simp add: 3)
    with 3 show ?thesis
      by (simp add: text_in_partition separator_def)
    qed
  qed
qed

lemma no_prefix:
  assumes "list_all is_word ws" and "length ws < 2 \<or> ws ! 1 \<noteq> ''of''"
  shows "of_prefix (unwords ws) = None"
proof -
  have "\<not> starts_with (unwords [k, ''of''] @ '' '') (unwords ws)" if "is_word k" for k
  proof
    assume "starts_with (unwords [k, ''of''] @ '' '') (unwords ws)"
    then have "take (length [k, ''of'']) ws = [k, ''of'']"
      by (rule starts_with_words [OF assms(1), rotated]) (simp add: that literal_words)
    then have "2 \<le> length ws \<and> ws ! 1 = ''of''"
      by (cases ws; cases "tl ws") auto
    with assms(2) show False
      by auto
  qed
  from this [of "''all''"] this [of "''1''"] literal_words show ?thesis
    by (simp add: of_prefix_def prefix_after_def)
qed

lemma them_words: "''all of them'' = unwords [''all'', ''of'', ''them'']" "''1 of them'' = unwords [''1'', ''of'', ''them'']"
    "''any of them'' = unwords [''any'', ''of'', ''them'']"
  by simp_all

lemma not_them:
  assumes "list_all is_word ws" and "length ws < 2 \<or> ws ! 1 \<noteq> ''of''"
  shows "unwords ws \<notin> {''all of them'', ''1 of them'', ''any of them''}"
proof -
  have "unwords ws \<noteq> unwords [k, ''of'', ''them'']" if "is_word k" for k
  proof
    assume "unwords ws = unwords [k, ''of'', ''them'']"
    then have "ws = [k, ''of'', ''them'']"
      using words_unwords [OF assms(1)] words_unwords [of "[k, ''of'', ''them'']"] that literal_words by simp
    with assms(2) show False
      by simp
  qed
  from this [of "''all''"] this [of "''1''"] this [of "''any''"] literal_words show ?thesis
    by simp
qed

lemma weave_second:
  assumes "list_all is_word ns" and "k \<noteq> ''of''"
  shows "length (weave k ns) < 2 \<or> weave k ns ! 1 \<noteq> ''of''"
  using assms by (induction k ns rule: weave.induct) auto

lemma eval_name:
  assumes "is_word n" and "n \<notin> {''and'', ''or'', ''not''}"
  shows "eval_condition (py_strip n) rs = dict_get_or rs n False"
proof -
  have "py_strip n = n"
    using strip_unwords [of "[n]"] assms(1) by simp
  moreover have "n \<noteq> []" "n \<notin> {''all of them'', ''1 of them'', ''any of them''}" "of_prefix n = None"
      "\<not> text_in '' or '' n" "\<not> text_in '' and '' n"
    using assms not_them [of "[n]"] no_prefix [of "[n]"] no_separator(2) [of "[n]" "''or''"] no_separator(2) [of "[n]" "''and''"] literal_words
    by (auto simp: is_word_def separators)
  ultimately show ?thesis
    by (subst eval_condition.simps) simp
qed

lemma unwords_not_Nil: "ws \<noteq> [] \<Longrightarrow> list_all is_word ws \<Longrightarrow> unwords ws \<noteq> []"
  by (cases ws rule: unwords.cases) (auto simp: is_word_def)

lemma prefixed_text:
  assumes "lower_name p"
  shows "of_prefix (unwords (base_words (Prefixed every p))) = Some (every, p)"
  using assms by (simp add: of_prefix_def prefix_after_def starts_with_def ends_with_def)

lemma eval_base:
  assumes "base_ok names base" and "list_all is_word names"
  shows "eval_condition (unwords (base_words base)) (map (\<lambda>n. (n, h n)) names) = base_holds h names base"
proof -
  let ?rs = "map (\<lambda>n. (n, h n)) names"
  have f: "filter (\<lambda>(n, _). P n) ?rs = map (\<lambda>n. (n, h n)) (filter P names)" for P
    by (simp add: filter_map comp_def)
  have v: "eval_condition (py_strip n) ?rs = h n" if "n \<in> free_names names" for n
    using that assms(2) by (subst eval_name) (auto simp: free_names_def list_all_iff dict_get_or_def map_of_map_restrict)
  show ?thesis
  proof (cases base)
    case AllThem
    then show ?thesis
      by (subst eval_condition.simps) (simp add: f Let_def list_all_iff)
  next
    case OneThem
    then show ?thesis
      by (subst eval_condition.simps) (simp add: f Let_def list_ex_iff)
  next
    case (Prefixed every p)
    with assms(1) have p: "lower_name p" "filter (starts_with p) names \<noteq> []"
      by (auto simp: list_ex_iff filter_empty_conv)
    have "p @ ''*'' \<noteq> ''them''"
    proof
      assume "p @ ''*'' = ''them''"
      then have "last (p @ ''*'') = last ''them''"
        by simp
      then show False
        by simp
    qed
    then have "unwords (base_words base) \<notin> {''all of them'', ''1 of them'', ''any of them''}"
      by (auto simp: Prefixed)
    with p prefixed_text [OF p(1), of every] Prefixed show ?thesis
      by (subst eval_condition.simps) (auto simp: f Let_def list_all_iff list_ex_iff)
  next
    case (Conj ns)
    with assms have n: "ns \<noteq> []" "set ns \<subseteq> free_names names" "list_all is_word ns"
      by (auto simp: free_names_def list_all_iff)
    then have k: "''and'' \<notin> set ns" "''or'' \<notin> set (weave ''and'' ns)" "list_all is_word (weave ''and'' ns)"
      using set_weave [of "''and''" ns] literal_words by (auto simp: free_names_def weave_words)
    have w: "unwords (weave ''and'' ns) \<noteq> []" "unwords (weave ''and'' ns) \<notin> {''all of them'', ''1 of them'', ''any of them''}"
        "of_prefix (unwords (weave ''and'' ns)) = None" "\<not> text_in '' or '' (unwords (weave ''and'' ns))"
      using unwords_not_Nil [OF _ k(3)] n(1) not_them [OF k(3) weave_second [OF n(3)]] no_prefix [OF k(3) weave_second [OF n(3)]]
        no_separator(2) [OF k(3) literal_words(2) k(2)] by (simp_all add: separators)
    show ?thesis
    proof (cases "1 < length ns")
      case True
      with w split_weave [OF n(1,3) literal_words(1) k(1)] show ?thesis
        using v n(2) by (subst eval_condition.simps) (auto simp: Conj separators list_all_iff)
    next
      case False
      with n(1) obtain m where "ns = [m]"
        by (cases ns) auto
      with v [of m] n strip_unwords [of "[m]"] show ?thesis
        by (simp add: Conj)
    qed
  next
    case (Disj ns)
    with assms have n: "ns \<noteq> []" "set ns \<subseteq> free_names names" "list_all is_word ns"
      by (auto simp: free_names_def list_all_iff)
    then have k: "''or'' \<notin> set ns" "list_all is_word (weave ''or'' ns)"
      using literal_words by (auto simp: free_names_def weave_words)
    have w: "unwords (weave ''or'' ns) \<noteq> []" "unwords (weave ''or'' ns) \<notin> {''all of them'', ''1 of them'', ''any of them''}"
        "of_prefix (unwords (weave ''or'' ns)) = None"
      using unwords_not_Nil [OF _ k(2)] n(1) not_them [OF k(2) weave_second [OF n(3)]] no_prefix [OF k(2) weave_second [OF n(3)]]
      by simp_all
    show ?thesis
    proof (cases "1 < length ns")
      case True
      with w split_weave [OF n(1,3) literal_words(2) k(1)] show ?thesis
        using v n(2) by (subst eval_condition.simps) (auto simp: Disj separators list_ex_iff)
    next
      case False
      with n(1) obtain m where "ns = [m]"
        by (cases ns) auto
      with v [of m] n strip_unwords [of "[m]"] show ?thesis
        by (simp add: Disj)
    qed
  qed
qed

lemma base_are_words:
  assumes "base_ok names base" and "list_all is_word names"
  shows "list_all is_word (base_words base)" "base_words base \<noteq> []" "''not'' \<notin> set (base_words base)"
proof -
  have ns: "list_all is_word ns" "''not'' \<notin> set ns" if "set ns \<subseteq> free_names names" for ns
    using that assms(2) by (auto simp: free_names_def list_all_iff)
  have p: "p @ ''*'' \<noteq> ''not''" for p
    using arg_cong [of "p @ ''*''" "''not''" last] by auto
  show "list_all is_word (base_words base)"
    using assms(1) ns literal_words lower_name_word by (cases base) (simp_all add: weave_words)
  show "base_words base \<noteq> []"
    using assms(1) by (cases base) simp_all
  show "''not'' \<notin> set (base_words base)"
  proof (cases base)
    case (Conj ms)
    with assms(1) ns(2) [of ms] set_weave [of "''and''" ms] show ?thesis by auto
  next
    case (Disj ms)
    with assms(1) ns(2) [of ms] set_weave [of "''or''" ms] show ?thesis by auto
  qed (auto simp: p [symmetric] p)
qed

lemma whole:
  assumes "is_word n"
  shows "split_text [CHR 0x00] n = [n]"
proof -
  have "partition_at [c] s = None" if "c \<notin> set s" for c s
    using that by (induction s) (auto simp: starts_with_def)
  moreover have "CHR 0x00 \<notin> set n"
    using assms by (auto simp: is_word_def list_all_iff word_char_def)
  ultimately show ?thesis
    by (subst split_text.simps) simp
qed

lemma woven_admitted:
  assumes "ns \<noteq> []" and "set ns \<subseteq> free_names names" and "list_all is_word names" and "(k, sep) \<in> {(''and'', '' and ''), (''or'', '' or '')}"
  shows "base_supported (unwords (weave k ns)) names"
proof -
  have n: "list_all is_word ns" "is_word k" "k \<notin> set ns" "list_all is_word (weave k ns)" "sep = separator [k]" "k \<noteq> ''of''"
    using assms literal_words by (auto simp: free_names_def list_all_iff separators intro: weave_words [unfolded list_all_iff, rule_format])
  define s where "s = unwords (weave k ns)"
  have o: "of_prefix s = None" "text_in sep s \<longleftrightarrow> 1 < length ns" "split_text sep s = ns"
    using no_prefix [OF n(4) weave_second [OF n(1,6)]] split_weave [OF assms(1) n(1,2,3)] by (simp_all add: s_def n(5))
  have other: "\<not> text_in '' or '' s" if "k = ''and''"
    using that no_separator(2) [OF n(4) literal_words(2)] set_weave [of k ns] assms(2) by (auto simp: separators s_def free_names_def)
  have other': "\<not> text_in '' and '' s" if "k = ''or''"
    using that no_separator(2) [OF n(4) literal_words(1)] set_weave [of k ns] assms(2) by (auto simp: separators s_def free_names_def)
  have "split_text [CHR 0x00] s = ns" if "\<not> 1 < length ns"
  proof -
    obtain m where "ns = [m]"
      using assms(1) \<open>\<not> 1 < length ns\<close> by (cases ns) auto
    with whole [of m] n(1) show ?thesis
      by (simp add: s_def)
  qed
  with o other other' assms(2,4) show ?thesis
    unfolding s_def [symmetric] base_supported_def by (auto simp: free_names_def list_all_iff)
qed

lemma base_admitted:
  assumes "base_ok names base" and "list_all is_word names"
  shows "base_supported (unwords (base_words base)) names"
proof (cases base)
  case (Prefixed every p)
  with assms(1) prefixed_text [of p every] show ?thesis
    by (simp add: base_supported_def del: base_words.simps)
qed (use assms woven_admitted in \<open>auto simp: base_supported_def\<close>)

text \<open>Both ways of cutting a condition at its negation.\<close>

lemma condition_cuts:
  assumes "base_ok names base" and "list_all is_word names" and "\<And>n. negated = Some n \<Longrightarrow> n \<in> free_names names"
  defines "c \<equiv> condition_string base negated"
  shows "list_all is_word (base_words base @ (case negated of None \<Rightarrow> [] | Some n \<Rightarrow> [''and'', ''not'', n]))"
    and "split_negation c = (unwords (base_words base), negated)"
    and "rpartition_at '' and not '' c = map_option (Pair (unwords (base_words base))) negated"
    and "count_text '' and not '' c \<le> 1"
proof -
  note b = base_are_words [OF assms(1,2)]
  have n: "is_word n" "n \<notin> {''and'', ''or'', ''not''}" if "negated = Some n" for n
    using assms(3) [OF that] assms(2) by (auto simp: free_names_def list_all_iff)
  show w: "list_all is_word (base_words base @ (case negated of None \<Rightarrow> [] | Some n \<Rightarrow> [''and'', ''not'', n]))"
    using b(1) n(1) literal_words by (auto split: option.splits)
  have none: "partition_at '' and not '' s = None" if "s = unwords ws" "list_all is_word ws" "''not'' \<notin> set ws" for s ws
    using partition_none [of ws "[''and'', ''not'']" "''not''"] that literal_words by (simp add: separators)
  have cut: "partition_at '' and not '' c = map_option (Pair (unwords (base_words base))) negated"
  proof (cases negated)
    case None
    with none b show ?thesis
      by (simp add: c_def condition_string_def)
  next
    case (Some m)
    then have "list_all is_word (base_words base @ [''and'', ''not''] @ [m])"
      using w by simp
    from partition_words [OF this b(2)] b(3) Some show ?thesis
      by (simp add: c_def condition_string_def separators)
  qed
  show "split_negation c = (unwords (base_words base), negated)"
  proof (cases negated)
    case None
    with cut b(1) show ?thesis
      by (simp add: split_negation_def c_def condition_string_def strip_unwords)
  next
    case (Some m)
    with cut b(1) n(1) [OF Some] strip_unwords [of "[m]"] show ?thesis
      by (simp add: split_negation_def strip_unwords)
  qed
  show "count_text '' and not '' c \<le> 1"
  proof (cases negated)
    case (Some m)
    have "partition_at '' and not '' m = None"
      using none [of m "[m]"] n [OF Some] by fastforce
    with Some cut show ?thesis
      by (simp add: count_text_def split_text.simps [of _ c] split_text.simps [of _ m])
  qed (use cut in \<open>simp add: count_text_def split_text.simps [of _ c]\<close>)
  show "rpartition_at '' and not '' c = map_option (Pair (unwords (base_words base))) negated"
  proof (cases negated)
    case None
    have "rev '' and not '' = separator [''ton'', ''dna'']"
      by (simp add: separator_def)
    moreover have "list_all is_word (rev (map rev (base_words base)))" "list_all is_word [''ton'', ''dna'']"
      using b(1) rev_word by (simp_all add: is_word_def word_char_def py_space_def lower_char_def)
    moreover have "''ton'' \<notin> set (rev (map rev (base_words base)))"
    proof
      assume "''ton'' \<in> set (rev (map rev (base_words base)))"
      then obtain w where "w \<in> set (base_words base)" "''ton'' = rev w"
        by auto
      then show False
        using b(3) by (simp add: rev_swap [symmetric])
    qed
    ultimately show ?thesis
      using partition_none [of "rev (map rev (base_words base))" "[''ton'', ''dna'']" "''ton''"] None
      by (simp add: rpartition_at_def c_def condition_string_def rev_unwords)
  next
    case (Some m)
    have r: "rev c = unwords ([rev m] @ [''ton'', ''dna''] @ rev (map rev (base_words base)))"
      by (simp add: c_def condition_string_def rev_unwords Some)
    have s: "rev '' and not '' = separator [''ton'', ''dna'']"
      by (simp add: separator_def)
    have "list_all is_word (rev (map rev (base_words base @ [''and'', ''not'', m])))"
      unfolding rev_word using w Some by simp
    then have l: "list_all is_word ([rev m] @ [''ton'', ''dna''] @ rev (map rev (base_words base)))"
      by simp
    have "rev m \<noteq> ''dna''"
      using n(2) [OF Some] by (auto dest: arg_cong [of _ _ rev])
    with partition_words [OF l] b(2) show ?thesis
      unfolding rpartition_at_def r s by (simp add: Some flip: rev_unwords)
  qed
qed


text \<open>Which selections of a detection an event satisfies, by lower-case name.\<close>

definition selected :: "(rat \<Rightarrow> string) \<Rightarrow> regex \<Rightarrow> (string \<times> pyval) list \<Rightarrow> event \<Rightarrow> string \<Rightarrow> bool" where
  "selected flt rx det e n \<longleftrightarrow> (\<exists>(k, sel) \<in> set (selections det). py_casefold k = n \<and> match_selection flt rx (event_fields e) sel)"

lemma results_selected:
  assumes "distinct (map (\<lambda>(k, _). py_casefold k) (selections det))"
  shows "selection_results flt rx det e = map (\<lambda>n. (n, selected flt rx det e n)) (map (\<lambda>(k, _). py_casefold k) (selections det))"
proof -
  have "match_selection flt rx (event_fields e) sel = selected flt rx det e (py_casefold k)" if "(k, sel) \<in> set (selections det)" for k sel
  proof -
    have inj: "inj_on (\<lambda>(k, _). py_casefold k) (set (selections det))"
      using assms by (simp add: distinct_map)
    have "sel' = sel" if "(k', sel') \<in> set (selections det)" "py_casefold k' = py_casefold k" for k' sel'
      using inj_onD [OF inj, of "(k', sel')" "(k, sel)"] that(2) \<open>(k, sel) \<in> set (selections det)\<close> that(1) by simp
    with \<open>(k, sel) \<in> set (selections det)\<close> show ?thesis
      unfolding selected_def by blast
  qed
  then show ?thesis
    unfolding selection_results_zip [OF assms] by (auto simp: compile_results_def zip_map_map zip_same_conv_map)
qed

text \<open>The assumptions under which a condition is the text of \<open>base\<close> and \<open>negated\<close> over the selections of a detection.\<close>

definition writes_condition :: "regex \<Rightarrow> (string \<times> pyval) list \<Rightarrow> string list \<Rightarrow> base_condition \<Rightarrow> string option \<Rightarrow> bool" where
  "writes_condition rx det names base negated \<longleftrightarrow>
     selectors_supported rx (selections det) [] = Inr names \<and> selections det \<noteq> []
   \<and> dict_get det ''condition'' = Some (PStr (condition_string base negated)) \<and> length (condition_string base negated) \<le> 1024
   \<and> base_ok names base \<and> (case negated of None \<Rightarrow> True | Some n \<Rightarrow> n \<in> free_names names)"

lemma written_names:
  assumes "writes_condition rx det names base negated"
  shows "names = map (\<lambda>(k, _). py_casefold k) (selections det)" "distinct names" "list_all is_word names"
    "base_ok names base" "\<And>n. negated = Some n \<Longrightarrow> n \<in> free_names names"
  using assms selectors_Inr [of rx "selections det" "[]" names]
  by (auto simp: writes_condition_def list_all_iff intro: selector_word)

lemma written_cut:
  assumes "writes_condition rx det names base negated"
  shows "rule_supported rx False (PDict [(''detection'', PDict det)]) = Admitted"
    and "split_negation (condition_text flt det) = (unwords (base_words base), negated)"
proof -
  define c where "c = condition_string base negated"
  note nm = written_names [OF assms]
  note cuts = condition_cuts [where negated = negated, OF nm(4,3,5), folded c_def]
  have c: "c = unwords (base_words base @ (case negated of None \<Rightarrow> [] | Some n \<Rightarrow> [''and'', ''not'', n]))"
    by (simp add: c_def condition_string_def)
  have same: "py_strip c = c" "py_casefold c = c" "unwords (words c) = c" "c \<noteq> []"
    using strip_unwords [OF cuts(1)] lower_unwords [OF cuts(1)] words_unwords [OF cuts(1)] unwords_not_Nil [OF _ cuts(1)]
      base_are_words(2) [OF nm(4,3)] by (simp_all add: c [symmetric])
  have det: "dict_get det ''condition'' = Some (PStr c)" "length c \<le> 1024" "selectors_supported rx (selections det) [] = Inr names" "selections det \<noteq> []"
    using assms by (simp_all add: writes_condition_def c_def)
  have "c = unwords (base_words base)" if "negated = None"
    using that by (simp add: c)
  moreover have "CHR ''('' \<notin> set c" "CHR '')'' \<notin> set c" "CHR ''|'' \<notin> set c"
    using chars_unwords [OF cuts(1)] by (simp_all add: c [symmetric])
  ultimately have "condition_supported (dict_get det ''condition'') names"
    using det(1,2) nm(5) same cuts(3,4) base_admitted [OF nm(4,3)]
    by (auto simp: condition_supported_def free_names_def Let_def split: option.splits)
  then show "rule_supported rx False (PDict [(''detection'', PDict det)]) = Admitted"
    using det(3,4) by (simp add: rule_supported_def)
  show "split_negation (condition_text flt det) = (unwords (base_words base), negated)"
    using cuts(2) by (simp add: condition_text_def det(1) py_str_def same)
qed

lemma written_match:
  assumes "writes_condition rx det names base negated"
  shows "sigma_match flt rx (PDict [(''detection'', PDict det)]) e
    \<longleftrightarrow> base_holds (selected flt rx det e) names base \<and> (case negated of None \<Rightarrow> True | Some n \<Rightarrow> \<not> selected flt rx det e n)"
proof -
  note nm = written_names [OF assms]
  have r: "selection_results flt rx det e = map (\<lambda>n. (n, selected flt rx det e n)) names"
    unfolding nm(1) using nm(1,2) by (intro results_selected) simp
  have "dict_get_or (selection_results flt rx det e) n False = selected flt rx det e n" if "negated = Some n" for n
    using nm(5) [OF that] by (simp add: r dict_get_or_def map_of_map_restrict free_names_def)
  then show ?thesis
    using written_cut [OF assms] eval_base [OF nm(4,3), of "selected flt rx det e"]
    by (simp add: sigma_match_def Let_def r split: option.splits)
qed

lemma written_compiles:
  assumes "writes_condition rx det names base negated"
  shows "\<exists>plan. compile_plan flt rx det = Inr plan"
proof -
  note nm = written_names [OF assms]
  have "index_of names n \<noteq> None" if "negated = Some n" for n
    using nm(5) [OF that] index_of_None [of names n] by (auto simp: free_names_def)
  then show ?thesis
    using written_cut [OF assms] by (auto simp: compile_plan_def Let_def nm(1) split: option.splits)
qed

text \<open>C13: Conditions mean what the subset promises.  A detection with supported selections and the text of a
condition over them, optionally with a trailing \<open>and not\<close>, is admitted, and it matches an event exactly when the
selections the event satisfies make the condition true and the negated one is not among them; compiling it
does not raise.  Selectors called \<open>and\<close>, \<open>or\<close> or \<open>not\<close> are excluded.\<close>

theorem conditions_mean:
  assumes "selectors_supported rx (selections det) [] = Inr names" and "selections det \<noteq> []"
    and "dict_get det ''condition'' = Some (PStr (condition_string base negated))" and "length (condition_string base negated) \<le> 1024"
    and "base_ok names base" and "case negated of None \<Rightarrow> True | Some n \<Rightarrow> n \<in> free_names names"
  shows "rule_supported rx False (PDict [(''detection'', PDict det)]) = Admitted
    \<and> (sigma_match flt rx (PDict [(''detection'', PDict det)]) e
      \<longleftrightarrow> base_holds (selected flt rx det e) names base \<and> (case negated of None \<Rightarrow> True | Some n \<Rightarrow> \<not> selected flt rx det e n))
    \<and> (\<exists>plan. compile_plan flt rx det = Inr plan)"
proof -
  have "writes_condition rx det names base negated"
    using assms by (simp add: writes_condition_def)
  then show ?thesis
    using written_cut(1) written_match written_compiles by blast
qed

section \<open>Plans and the matcher\<close>

text \<open>C14: Compiling a detection changes nothing: a plan matches an event exactly when the defensive matcher matches
it with the detection it was compiled from, and plans of detections with regular expressions are inert.\<close>

theorem plan_equals_match:
  assumes "compile_plan flt rx det = Inr plan"
  shows "plan_matches flt plan e \<longleftrightarrow> sigma_match flt rx (PDict [(''detection'', PDict det)]) e \<and> \<not> uses_regex det"
proof (cases "rule_supported rx False (PDict [(''detection'', PDict det)]) \<noteq> Admitted \<or> uses_regex det")
  case True
  with assms show ?thesis
    by (auto simp: compile_plan_def plan_inert sigma_match_def)
next
  case False
  define names where "names = map (\<lambda>(k, _). py_casefold k) (selections det)"
  define rs where "rs = compile_results flt rx det e"
  from False have ok: "rule_supported rx False (PDict [(''detection'', PDict det)]) = Admitted" "\<not> uses_regex det"
    by simp_all
  note ad = admitted_detection [OF ok(1)]
  have r: "selection_results flt rx det e = zip names rs" "length rs = length names" "distinct names"
    using selection_results_zip [OF ad(1)] ad(1) by (simp_all add: names_def rs_def compile_results_def)
  have "match_selection flt rx (event_fields e) sel = list_ex (list_all (plan_field flt (event_fields e))) (map (map (compile_field flt)) (branches sel))"
    if "(k, sel) \<in> set (selections det)" for k sel
  proof (rule selection_compiled)
    show "selection_supported rx sel"
      using ad(2) that by fastforce
    show "\<not> list_ex (list_ex (\<lambda>(k, _). py_casefold (key_modifier k) = ''re'')) (branches sel)"
      using ok(2) that unfolding uses_regex_def list_ex_iff [of _ "selections det"] by fastforce
  qed
  then have m: "map (list_ex (list_all (plan_field flt (event_fields e)))) (map (\<lambda>(_, sel). map (map (compile_field flt)) (branches sel)) (selections det)) = rs"
    by (auto simp: rs_def compile_results_def)
  obtain base neg where b: "split_negation (condition_text flt det) = (base, neg)"
    by fastforce
  have plan: "sp_condition plan = runtime_condition base names"
      "map (list_ex (list_all (plan_field flt (event_fields e)))) (sp_selections plan) = rs"
      "sp_negate plan = (case neg of None \<Rightarrow> None | Some n \<Rightarrow> index_of names n)" "neg = None \<longleftrightarrow> sp_negate plan = None"
    using assms ok b m by (auto simp: compile_plan_def names_def Let_def simp del: map_map split: option.splits)
  have "dict_get_or (zip names rs) n False = rs ! i" if "neg = Some n" "sp_negate plan = Some i" for n i
  proof -
    have "index_of names n = Some i"
      using plan(3) that by simp
    then show ?thesis
      by (simp add: index_result [OF r(2,3)])
  qed
  then show ?thesis
    using ok b plan r condition_compiled [OF r(2,3), of base]
    by (auto simp: plan_matches_def sigma_match_def Let_def split: option.splits)
qed

section \<open>Concrete rules\<close>

definition no_floats :: "rat \<Rightarrow> string" where
  "no_floats r = []"

definition no_regex :: regex where
  "no_regex e = None"

definition sample_detection :: "(string \<times> pyval) list" where
  "sample_detection = [(''sel'', PDict [(''image|endswith'', PStr ''a.exe''), (''pid'', PList [PInt 7, PStr ''8''])]),
     (''filter'', PList [PDict [(''user'', PStr ''root'')]]), (''condition'', PStr ''sel and not filter'')]"

definition sample_process :: event where
  "sample_process = \<lparr>ev_module = ''m'', ev_message = ''x'', ev_severity = Low, ev_ts = 0,
     ev_details = [(''image'', PStr ''b/a.exe''), (''pid'', PInt 8)], ev_hmac = [], ev_mesh_sig = [], ev_mesh_peer = []\<rparr>"

lemmas admission_eval = selections_def selector_name_def letter_char_def digit_char_def lower_char_def py_casefold_def selection_supported_def
  listed_def field_supported_def key_field_def key_modifier_def value_supported_def supported_modifiers_def max_rule_string_def

lemma show_8: "show_int 8 = ''8''"
proof -
  have "char_of (56::nat) = CHR ''8''"
    by (rule char_eq_of [symmetric]) simp
  then show ?thesis
    by (simp add: show_int_def show_nat.simps)
qed

lemmas match_eval = match_field_def match_value_def field_text_def py_str_def py_casefold_def lower_char_def key_field_def key_modifier_def
  listed_def event_fields_def dict_setdefault_def starts_with_def ends_with_def show_8

lemma sample_names: "selectors_supported no_regex (selections sample_detection) [] = Inr [''sel'', ''filter'']"
  by (simp add: sample_detection_def admission_eval)

lemma sample_condition:
  "selections sample_detection \<noteq> []"
  "dict_get sample_detection ''condition'' = Some (PStr (condition_string (Conj [''sel'']) (Some ''filter'')))"
  "length (condition_string (Conj [''sel'']) (Some ''filter'')) \<le> 1024"
  by (simp_all add: sample_detection_def selections_def condition_string_def)

lemma sample_selected:
  "selected no_floats no_regex sample_detection sample_process ''sel''"
  "\<not> selected no_floats no_regex sample_detection sample_process ''filter''"
  by (simp_all add: selected_def selections_def sample_detection_def sample_process_def match_eval)

lemma sample_written: "writes_condition no_regex sample_detection [''sel'', ''filter''] (Conj [''sel'']) (Some ''filter'')"
  unfolding writes_condition_def using sample_names sample_condition by (simp add: free_names_def)

theorem conditions_mean_witness:
  "rule_supported no_regex False (PDict [(''detection'', PDict sample_detection)]) = Admitted
    \<and> sigma_match no_floats no_regex (PDict [(''detection'', PDict sample_detection)]) sample_process"
  using conditions_mean [OF sample_names sample_condition, of no_floats sample_process] sample_selected
  by (simp add: free_names_def)

theorem plan_equals_match_witness:
  "\<exists>plan. compile_plan no_floats no_regex sample_detection = Inr plan \<and> plan_matches no_floats plan sample_process"
proof -
  obtain plan where p: "compile_plan no_floats no_regex sample_detection = Inr plan"
      and m: "sigma_match no_floats no_regex (PDict [(''detection'', PDict sample_detection)]) sample_process"
    using written_compiles [OF sample_written] written_match [OF sample_written, of no_floats sample_process] sample_selected by auto
  have "\<not> uses_regex sample_detection"
    by (simp add: uses_regex_def selections_def branches_def listed_def sample_detection_def key_modifier_def py_casefold_def lower_char_def)
  with plan_equals_match [OF p, of sample_process] m p show ?thesis
    by blast
qed

section \<open>A negation that is lost\<close>

definition trap_detection :: "(string \<times> pyval) list" where
  "trap_detection = [(''a'', PDict [(''pid'', PInt 8)]), (''not'', PDict [(''pid'', PInt 8)]), (''b'', PDict [(''pid'', PInt 8)]),
     (''condition'', PStr ''a and not and not b'')]"

lemma trap_names: "selectors_supported no_regex (selections trap_detection) [] = Inr [''a'', ''not'', ''b'']"
  by (simp add: trap_detection_def admission_eval)

lemma trap_words: "words ''a and not and not b'' = [''a'', ''and'', ''not'', ''and'', ''not'', ''b'']"
  using words_unwords [of "[''a'', ''and'', ''not'', ''and'', ''not'', ''b'']"] by (simp add: is_word_def word_char_def py_space_def lower_char_def)

lemma trap_text: "py_strip ''a and not and not b'' = ''a and not and not b''" "py_casefold ''a and not and not b'' = ''a and not and not b''"
  by (simp_all add: py_strip_def py_space_def py_casefold_def lower_char_def)

lemma trap_admitted: "rule_supported no_regex False (PDict [(''detection'', PDict trap_detection)]) = Admitted"
proof -
  have "dict_get trap_detection ''condition'' = Some (PStr ''a and not and not b'')" "selections trap_detection \<noteq> []"
    by (simp_all add: trap_detection_def selections_def)
  moreover have "condition_supported (Some (PStr ''a and not and not b'')) [''a'', ''not'', ''b'']"
    unfolding condition_supported_def trap_text trap_words
    by (simp add: trap_text trap_words count_text_def rpartition_at_def split_text.simps starts_with_def ends_with_def base_supported_def
      of_prefix_def prefix_after_def)
  ultimately show ?thesis
    using trap_names by (simp add: rule_supported_def)
qed

lemma trap_cut: "split_negation (condition_text no_floats trap_detection) = (''a'', Some ''and not b'')"
  by (simp add: condition_text_def trap_detection_def py_str_def trap_text split_negation_def starts_with_def)
    (simp add: py_strip_def py_space_def)

lemma trap_results: "selection_results no_floats no_regex trap_detection sample_process = [(''a'', True), (''not'', True), (''b'', True)]"
  by (simp add: selection_results_def selections_def trap_detection_def sample_process_def match_eval)

text \<open>The trailing negation is found from the right by the admission and from the left by the matcher.  With a
selector called \<open>not\<close> they disagree: the rule is admitted, the matcher loses its filter and reports an event the filter
excludes, and the compiler, which relies on the negated selector being known, raises.\<close>

theorem negation_lost:
  "rule_supported no_regex False (PDict [(''detection'', PDict trap_detection)]) = Admitted
    \<and> sigma_match no_floats no_regex (PDict [(''detection'', PDict trap_detection)]) sample_process
    \<and> selected no_floats no_regex trap_detection sample_process ''b''
    \<and> compile_plan no_floats no_regex trap_detection = Inl ()"
proof (intro conjI)
  have "eval_condition ''a'' [(''a'', True), (''not'', True), (''b'', True)]"
    by (subst eval_condition.simps) (simp add: of_prefix_def prefix_after_def starts_with_def dict_get_or_def)
  with trap_admitted show "sigma_match no_floats no_regex (PDict [(''detection'', PDict trap_detection)]) sample_process"
    by (simp add: sigma_match_def trap_cut trap_results dict_get_or_def)
  show "selected no_floats no_regex trap_detection sample_process ''b''"
    by (simp add: selected_def selections_def trap_detection_def sample_process_def match_eval)
  have "\<not> uses_regex trap_detection" "index_of (map (\<lambda>(k, _). py_casefold k) (selections trap_detection)) ''and not b'' = None"
    by (simp_all add: uses_regex_def selections_def branches_def listed_def trap_detection_def key_modifier_def py_casefold_def lower_char_def index_of_def)
  with trap_admitted show "compile_plan no_floats no_regex trap_detection = Inl ()"
    by (simp add: compile_plan_def trap_cut)
qed (rule trap_admitted)


end
