(* ===== verification/Spec2Isabelle.thy ===== *)
theory Spec2Isabelle
  imports Ipc_Ring Ipc_Interleaving Telemetry_Contracts Chill_Policy Usb_Policy Response_Capability Response_Broker Authorization Durable_Outbox Event_Bus Update_Authority Sigma_Conditions
begin

text \<open>
  A verification library for the decision logic of the Angerona security suite, the Python packages
  \<^verbatim>\<open>src/angerona/core\<close> and \<^verbatim>\<open>src/angerona/resilience\<close>.

  The suite watches a host with sensors, carries what they see to a core process, and lets operators
  approve responses.  The library models the parts that decide: what telemetry is believed, how events
  reach their consumers, which of them are genuine and which a detection rule matches, when the sensors
  may rest, which removable media are trusted, who may do what, who approved a response, that an
  approved response runs once, that nothing handed over for delivery is lost, and which release may be
  installed.

  \<^bold>\<open>Theories and sources.\<close>

  \<^item> \<open>Angerona_Prelude\<close>: fallible operations on a state (\<open>oper\<close>, \<open>op_then\<close>), Python dictionaries as lists in
    insertion order, little-endian fields of a byte memory, strings, values of unknown type (\<open>pyval\<close>), and
    the interfaces: \<open>machine\<close> (a step function keeps an invariant), \<open>transition_system\<close> and \<open>latched_system\<close>
    (labelled steps, a latch), \<open>evolution\<close> (a preorder every operation respects), \<open>bounded_fifo\<close> and
    \<open>counting_fifo\<close> (the abstract queue the ring implements).  Every component interprets the ones it uses
    on its own definitions.
  \<^item> \<open>Sha256\<close>: SHA-256 and HMAC-SHA-256, in full; theorems never evaluate them.
  \<^item> \<open>Canonical_Json\<close>: the sorted, space-free \<open>json.dumps\<close> that is signed and hashed, and its injectivity.
  \<^item> \<open>Ipc_Frame\<close>, \<open>Ipc_Ring\<close> (\<^verbatim>\<open>resilience/ipc_ring.py\<close>): \<open>encode_frame\<close>, \<open>decode_frame\<close>, \<open>decode_sensor_payload\<close>;
    the bytes of the shared ring, \<open>RingWriter.write\<close>, \<open>backpressure\<close>, \<open>RingReader.read_batch\<close>.  The ring refines a
    queue that keeps the newest frames; a reader of arbitrary memory returns only authenticated frames.
  \<^item> \<open>Ipc_Interleaving\<close> (\<^verbatim>\<open>resilience/ipc_ring.py\<close> again): the same two calls split into their accesses to the map, which
    the producer's and the consumer's process interleave without a lock.  What the consumer takes before the producer
    overtakes it is what was written; a call that nothing interrupts is the one step of \<open>Ipc_Ring\<close>.
  \<^item> \<open>Telemetry_Contracts\<close> (\<^verbatim>\<open>core/telemetry_contracts.py\<close>): probes armed with expected echoes.
  \<^item> \<open>Chill_Policy\<close> (\<^verbatim>\<open>core/chill_mode.py\<close>): the low-impact mode and its wake-up.
  \<^item> \<open>Usb_Policy\<close> (\<^verbatim>\<open>core/usb_policy.py\<close>): PIN approval of removable volumes.
  \<^item> \<open>Response_Capability\<close> (\<^verbatim>\<open>core/response_capability.py\<close>): single-use tokens for privileged operations, with the
    durable counters, crashes and restarts.
  \<^item> \<open>Approval_Identity\<close> (\<^verbatim>\<open>core/approval_identity.py\<close>): signed proofs, revocation, and the matching that counts
    independent principals.
  \<^item> \<open>Response_Broker\<close> (\<^verbatim>\<open>core/response_broker.py\<close>): proposals, approvals, execution and receipts, over
    \<open>Approval_Identity\<close>; the clock, the lease, file writes and handlers answer from an environment that may change
    at every question.
  \<^item> \<open>Authorization\<close> (\<^verbatim>\<open>core/authorization.py\<close>): roles, scopes, separation of duty and the decision cache.
  \<^item> \<open>Durable_Outbox\<close> (\<^verbatim>\<open>core/durable_outbox.py\<close>): the authenticated delivery queue.
  \<^item> \<open>Event_Bus\<close> (\<^verbatim>\<open>core/eventbus.py\<close>): \<open>publish\<close>, \<open>_deliver\<close>, the ring and the lane of serious events with the
    polling calls, subscribers, and the mesh generations behind \<open>verify\<close>.  The bus refines a log of all events.
  \<^item> \<open>Update_Authority\<close> (\<^verbatim>\<open>core/update_authority.py\<close> and \<open>observe_once\<close> of
    \<^verbatim>\<open>modules/release_transparency_guard.py\<close>): threshold-signed releases, the rollback floor, payload manifests.
  \<^item> \<open>Py_Text\<close>: \<open>repr\<close> and \<open>str\<close> of a value of unknown type.
  \<^item> \<open>Sigma_Engine\<close>, \<open>Sigma_Conditions\<close> (\<^verbatim>\<open>core/sigma_engine.py\<close>): admission, matching, compiled plans and sets of Sigma
    rules; what the text of a condition means, and the agreement of plans with the matcher.

  In each theory the definitions come first, in the order of the source and with its names; then the
  invariant and its preservation by every operation; then the properties, each with a witness that applies
  it to a concrete state where it has hypotheses.

  \<^bold>\<open>Conventions.\<close>  Floats are rationals, or one of the special values where the code can meet them.  Strings hold
  code points below 256; \<open>casefold\<close>, \<open>lower\<close> and \<open>upper\<close> act on ASCII.  An operation that holds the lock of its
  object is one step; where a source reads before it locks, the two halves are separate arguments or steps; the
  ring, which has no lock, has a step for each access to the shared map.
  A document that is written and read back is the value it encodes; a write has one of several outcomes,
  among them a file that stays as it was although the call raised.  Ed25519, the printing of floats, regular
  expressions, the YAML loader, the registry, the audit sink and the handlers are arguments of the
  definitions that use them.

  \<^bold>\<open>Bounds and fuel.\<close>  No definition needs fuel: loops over a bounded budget recurse on the budget
  (\<open>scan\<close> in the ring), the augmenting search for approvals recurses on the keys not yet seen, the walk over
  parameters on the size of the value, conditions of rules on their length.  Machine integers are bytes and
  words in the ring and in the hash, where counters are read and written with their width; elsewhere they
  are Python's unbounded integers.

  \<^bold>\<open>Not modelled.\<close>  Threads inside one operation (but for the two processes at the ring), creation of key files and access control lists, the Windows
  registry and services, native collectors, the user interface, the network services and the program that
  replaces the installed files.  The manifest lists them component by component.
\<close>

end
